(* ===== verification/Quic_Prelude.thy ===== *)
theory Quic_Prelude
  imports Main "HOL-Library.Word"
begin

unbundle bit_operations_syntax

text \<open>
  Shared vocabulary of the development: the byte and machine-integer types, the wrap-around
  arithmetic of \<open>size_t\<close>, the collections of rewrite rules the component theories fill,
  generic facts on lists and words, and the interface \<open>op_system\<close> of a component that is
  driven by a sequence of operations and keeps an invariant.
\<close>

section \<open>Types\<close>

type_synonym byte = "8 word"
type_synonym bytes = "8 word list"
type_synonym u16 = "16 word"
type_synonym u32 = "32 word"
type_synonym u64 = "64 word"

text \<open>
  A \<open>std::shared_ptr<void>\<close> that keeps a caller's buffer alive, compared by identity only:
  \<open>None\<close> is the null pointer, \<open>Some n\<close> the control block number \<open>n\<close>.
\<close>

type_synonym keep_alive = "nat option"

section \<open>Rule collections\<close>

named_theorems size_simps \<open>exactness of the wrap-around size_t arithmetic\<close>
named_theorems inv_defs \<open>definitions of the component invariants\<close>

section \<open>The arithmetic of size_t\<close>

text \<open>
  Counters of type \<open>size_t\<close> (and \<open>uint64_t\<close>) are natural numbers below \<open>2 ^ 64\<close>; the two
  operations the code uses on them wrap around.
\<close>

abbreviation SIZE_MOD :: nat where
  "SIZE_MOD \<equiv> 18446744073709551616"

definition sz_add :: "nat \<Rightarrow> nat \<Rightarrow> nat" where
  "sz_add a b = (a + b) mod SIZE_MOD"

definition sz_sub :: "nat \<Rightarrow> nat \<Rightarrow> nat" where
  "sz_sub a b = (if b \<le> a then a - b else (a + SIZE_MOD - b mod SIZE_MOD) mod SIZE_MOD)"

lemma SIZE_MOD_eq: "SIZE_MOD = 2 ^ 64"
  by simp

lemma sz_add_exact [size_simps]: "a + b < SIZE_MOD \<Longrightarrow> sz_add a b = a + b"
  by (simp add: sz_add_def)

lemma sz_sub_exact [size_simps]: "b \<le> a \<Longrightarrow> sz_sub a b = a - b"
  by (simp add: sz_sub_def)

lemma sz_add_bound: "sz_add a b < SIZE_MOD"
  by (simp add: sz_add_def)

section \<open>Lists\<close>

lemma sum_list_take_drop: "sum_list (map f (take n xs)) + sum_list (map f (drop n xs)) = (sum_list (map f xs) :: nat)"
  by (metis append_take_drop_id map_append sum_list_append)

lemma drop_nth_Cons: "i < length xs \<Longrightarrow> drop i xs = xs ! i # drop (Suc i) xs"
  by (rule Cons_nth_drop_Suc [symmetric])

lemma sum_list_drop_nth:
  "i < length xs \<Longrightarrow> sum_list (map f (drop i xs)) = (f (xs ! i) + sum_list (map f (drop (Suc i) xs)) :: nat)"
  by (simp add: drop_nth_Cons)

lemma concat_drop_nth: "i < length xs \<Longrightarrow> concat (drop i xs) = xs ! i @ concat (drop (Suc i) xs)"
  by (simp add: drop_nth_Cons)

section \<open>Components driven by operations\<close>

text \<open>
  The event loop drives a component by one operation after another. \<open>step\<close> gives the next state,
  or \<open>None\<close> where the operation runs into a failed \<open>assert\<close> or into undefined behaviour.
\<close>

fun run_ops :: "('o \<Rightarrow> 's \<Rightarrow> 's option) \<Rightarrow> 'o list \<Rightarrow> 's \<Rightarrow> 's option" where
  "run_ops step [] s = Some s"
| "run_ops step (x # xs) s = (case step x s of None \<Rightarrow> None | Some s' \<Rightarrow> run_ops step xs s')"

text \<open>Every operation of the sequence meets its caller's obligation in the state it runs in.\<close>

fun ops_ok :: "('o \<Rightarrow> 's \<Rightarrow> 's option) \<Rightarrow> ('o \<Rightarrow> 's \<Rightarrow> bool) \<Rightarrow> 'o list \<Rightarrow> 's \<Rightarrow> bool" where
  "ops_ok step ok [] s = True"
| "ops_ok step ok (x # xs) s =
     (ok x s \<and> (case step x s of None \<Rightarrow> True | Some s' \<Rightarrow> ops_ok step ok xs s'))"

lemma run_ops_append:
  "run_ops step (xs @ ys) s = (case run_ops step xs s of None \<Rightarrow> None | Some s' \<Rightarrow> run_ops step ys s')"
  by (induction xs arbitrary: s) (auto split: option.splits)

lemma ops_ok_append:
  "ops_ok step ok (xs @ ys) s \<longleftrightarrow>
     ops_ok step ok xs s \<and> (case run_ops step xs s of None \<Rightarrow> True | Some s' \<Rightarrow> ops_ok step ok ys s')"
  by (induction xs arbitrary: s) (auto split: option.splits)

text \<open>
  The contract of such a component: from a state of the invariant, an operation whose caller's
  obligation holds does not fail and keeps the invariant. Then no sequence of operations fails.
\<close>

locale op_system =
  fixes step :: "'o \<Rightarrow> 's \<Rightarrow> 's option"
    and ok :: "'o \<Rightarrow> 's \<Rightarrow> bool"
    and inv :: "'s \<Rightarrow> bool"
  assumes step_inv: "inv s \<Longrightarrow> ok x s \<Longrightarrow> \<exists>s'. step x s = Some s' \<and> inv s'"
begin

lemma run_inv: "inv s \<Longrightarrow> ops_ok step ok xs s \<Longrightarrow> \<exists>s'. run_ops step xs s = Some s' \<and> inv s'"
proof (induction xs arbitrary: s)
  case Nil
  then show ?case by simp
next
  case (Cons x xs)
  then obtain s' where s': "step x s = Some s'" "inv s'"
    using step_inv [of s x] by auto
  with Cons show ?case by simp
qed

lemma run_result: "inv s \<Longrightarrow> ops_ok step ok xs s \<Longrightarrow> run_ops step xs s = Some s' \<Longrightarrow> inv s'"
  using run_inv [of s xs] by auto

end

end
