(* ===== verification/Dgram_Queue.thy ===== *)
theory Dgram_Queue
  imports Quic_Prelude "HOL-Library.Sublist"
begin

unbundle bit_operations_syntax

text \<open>
  The datagram send queue, \<open>dgram::queue\<close> of \<open>datagram.hpp\<close> and \<open>datagram.cpp\<close>: datagrams wait in a deque,
  one too large for a packet is split in two pieces that are sent separately, small second pieces
  may be sent ahead of their turn, and datagrams sent as early data are kept until it is accepted.
\<close>

section \<open>A queued datagram\<close>

datatype SendStatus = Unsent | SentFirst | SentSecond | Sent

fun status_bits :: "SendStatus \<Rightarrow> nat" where
  "status_bits Unsent = 0"
| "status_bits SentFirst = 1"
| "status_bits SentSecond = 2"
| "status_bits Sent = 3"

definition status_of_bits :: "nat \<Rightarrow> SendStatus" where
  "status_of_bits n = (if n = 0 then Unsent else if n = 1 then SentFirst else if n = 2 then SentSecond else Sent)"

definition status_or :: "SendStatus \<Rightarrow> SendStatus \<Rightarrow> SendStatus" where
  "status_or a b = status_of_bits (status_bits a OR status_bits b)"

definition status_and :: "SendStatus \<Rightarrow> SendStatus \<Rightarrow> SendStatus" where
  "status_and a b = status_of_bits (status_bits a AND status_bits b)"

abbreviation uint16_of :: "nat \<Rightarrow> nat" where
  "uint16_of n \<equiv> n mod 65536"

record storage =
  base_dgid :: nat
  status :: SendStatus
  split_pos :: nat
  payload :: bytes
  st_keep_alive :: keep_alive

definition storage_ctor :: "bytes \<Rightarrow> nat \<Rightarrow> keep_alive \<Rightarrow> storage" where
  "storage_ctor data dgid keep =
     \<lparr>base_dgid = dgid, status = Unsent, split_pos = 65535, payload = data, st_keep_alive = keep\<rparr>"

definition sent :: "storage \<Rightarrow> bool" where
  "sent st \<longleftrightarrow> status st = Sent"

definition sent_first :: "storage \<Rightarrow> bool" where
  "sent_first st \<longleftrightarrow> status_and (status st) SentFirst = SentFirst"

definition sent_second :: "storage \<Rightarrow> bool" where
  "sent_second st \<longleftrightarrow> status_and (status st) SentSecond = SentSecond"

text \<open>The result is a \<open>uint16_t\<close>.\<close>

definition storage_unsent_size :: "storage \<Rightarrow> nat" where
  "storage_unsent_size st =
     (case status st of
        Sent \<Rightarrow> 0
      | SentFirst \<Rightarrow> uint16_of (sz_sub (length (payload st)) (split_pos st))
      | SentSecond \<Rightarrow> split_pos st
      | Unsent \<Rightarrow> uint16_of (length (payload st)))"

definition unsendable :: "nat \<Rightarrow> bool \<Rightarrow> storage \<Rightarrow> bool" where
  "unsendable max_piece splitting st =
     (case status st of
        Sent \<Rightarrow> False
      | Unsent \<Rightarrow> length (payload st) > max_piece * (if splitting then 2 else 1) mod SIZE_MOD
      | SentFirst \<Rightarrow> sz_sub (length (payload st)) (split_pos st) > max_piece
      | SentSecond \<Rightarrow> split_pos st > max_piece)"

definition unsend :: "storage \<Rightarrow> storage" where
  "unsend st = st\<lparr>status := Unsent\<rparr>"

section \<open>The queue\<close>

record dqueue =
  packet_splitting :: bool
  split_lookahead :: nat
  early_data_head :: "nat option"
  last_i :: nat
  last_sent :: SendStatus
  last_size :: nat
  unsent_bytes :: nat
  buf :: "storage list"

definition DEFAULT_SPLIT_LOOKAHEAD :: nat where
  "DEFAULT_SPLIT_LOOKAHEAD = 8"

abbreviation SIZE_MAX :: nat where
  "SIZE_MAX \<equiv> 18446744073709551615"

definition queue_ctor :: "bool \<Rightarrow> dqueue" where
  "queue_ctor splitting =
     \<lparr>packet_splitting = splitting, split_lookahead = DEFAULT_SPLIT_LOOKAHEAD, early_data_head = None,
      last_i = SIZE_MAX, last_sent = Unsent, last_size = 0, unsent_bytes = 0, buf = []\<rparr>"

definition head_index :: "dqueue \<Rightarrow> nat" where
  "head_index q = (case early_data_head q of None \<Rightarrow> 0 | Some h \<Rightarrow> h)"

definition early_data_begin :: "dqueue \<Rightarrow> dqueue option" where
  "early_data_begin q = (if buf q = [] then Some (q\<lparr>early_data_head := Some 0\<rparr>) else None)"

text \<open>
  The loop of \<open>early_data_retry\<close>: at most the datagrams up to index \<open>max_i\<close> are marked unsent. \<open>n\<close> is
  how many it may still visit.
\<close>

fun retry_loop :: "nat \<Rightarrow> nat \<Rightarrow> storage list \<Rightarrow> nat \<times> storage list" where
  "retry_loop n unsent [] = (unsent, [])"
| "retry_loop n unsent (pkt # rest) =
     (let unsent = sz_add unsent (sz_sub (length (payload pkt)) (storage_unsent_size pkt));
          (unsent', rest') = (if n \<le> 1 then (unsent, rest) else retry_loop (n - 1) unsent rest)
      in (unsent', unsend pkt # rest'))"

definition early_data_retry :: "dqueue \<Rightarrow> dqueue" where
  "early_data_retry q =
     (case early_data_head q of
        None \<Rightarrow> q
      | Some head \<Rightarrow>
          let max_i = head + (if packet_splitting q then split_lookahead q else 0);
              (unsent, pkts) = retry_loop (max_i + 1) (unsent_bytes q) (buf q)
          in q\<lparr>unsent_bytes := unsent, buf := pkts, early_data_head := Some 0\<rparr>)"

definition early_data_end :: "bool \<Rightarrow> dqueue \<Rightarrow> dqueue" where
  "early_data_end accepted q =
     (case early_data_head q of
        None \<Rightarrow> q
      | Some head \<Rightarrow>
          (if \<not> accepted then early_data_retry q else q\<lparr>buf := drop head (buf q)\<rparr>)
          \<lparr>early_data_head := None\<rparr>)"

definition emplace :: "bytes \<Rightarrow> nat \<Rightarrow> keep_alive \<Rightarrow> dqueue \<Rightarrow> dqueue" where
  "emplace data dgid keep q =
     q\<lparr>unsent_bytes := sz_add (unsent_bytes q) (length data),
       buf := buf q @ [storage_ctor data dgid keep]\<rparr>"

definition queue_empty :: "dqueue \<Rightarrow> bool" where
  "queue_empty q \<longleftrightarrow> head_index q \<ge> length (buf q)"

definition queue_size :: "dqueue \<Rightarrow> nat" where
  "queue_size q = sz_sub (length (buf q)) (head_index q)"

definition pending_bytes :: "dqueue \<Rightarrow> nat" where
  "pending_bytes q = unsent_bytes q"

text \<open>
  A piece handed to the transport: the id, whether the id is transmitted ahead of the data (two
  buffers rather than one), and the data.
\<close>

record prepared =
  prep_id :: nat
  prep_prefixed :: bool
  prep_data :: bytes

definition prepared_ctor :: "bool \<Rightarrow> nat \<Rightarrow> bytes \<Rightarrow> prepared" where
  "prepared_ctor splitting_enabled dgid data =
     \<lparr>prep_id = dgid, prep_prefixed = splitting_enabled, prep_data = data\<rparr>"

text \<open>The buffers of a piece; \<open>big\<close> writes a 16-bit integer in network order.\<close>

definition prepared_bufs :: "(nat \<Rightarrow> bytes) \<Rightarrow> prepared \<Rightarrow> bytes list" where
  "prepared_bufs big p = (if prep_prefixed p then [big (prep_id p), prep_data p] else [prep_data p])"

definition DGID_SPLIT_FIRST :: nat where "DGID_SPLIT_FIRST = 2"

definition DGID_SPLIT_SECOND :: nat where "DGID_SPLIT_SECOND = 3"

text \<open>The leading datagrams that the current piece size can no longer carry are dropped.\<close>

fun drop_unsendable :: "nat \<Rightarrow> bool \<Rightarrow> nat \<Rightarrow> storage list \<Rightarrow> nat \<times> storage list" where
  "drop_unsendable max_piece splitting unsent [] = (unsent, [])"
| "drop_unsendable max_piece splitting unsent (front # rest) =
     (if unsendable max_piece splitting front
      then drop_unsendable max_piece splitting (sz_sub unsent (storage_unsent_size front)) rest
      else (unsent, front # rest))"

text \<open>
  The lookahead loop of \<open>fetch\<close> over the datagrams from the head on, \<open>off\<close> being the distance of the
  first of them from the head. The result is the distance of the datagram found, that datagram (its
  split position may just have been chosen), and its second piece; a failed assertion or a span
  taken past its end is \<open>None\<close>.
\<close>

fun fetch_small :: "nat \<Rightarrow> nat \<Rightarrow> nat \<Rightarrow> storage list \<Rightarrow> (nat \<times> storage \<times> bytes) option option" where
  "fetch_small max_piece lookahead off [] = Some None"
| "fetch_small max_piece lookahead off (d # ds) =
     (if \<not> off \<le> lookahead then Some None
      else if sent_second d then fetch_small max_piece lookahead (Suc off) ds
      else if \<not> (off = 0 \<or> status d = Unsent) then None
      else if status d = SentFirst
      then if split_pos d \<le> length (payload d)
           then Some (Some (off, d, drop (split_pos d) (payload d))) else None
      else if length (payload d) > max_piece
      then Some (Some (off, d\<lparr>split_pos := uint16_of max_piece\<rparr>, drop (uint16_of max_piece) (payload d)))
      else fetch_small max_piece lookahead (Suc off) ds)"

text \<open>
  The head of the queue: the piece to send, the status it will have when sent, and the head itself,
  whose split position may be chosen here.
\<close>

definition fetch_head :: "nat \<Rightarrow> bool \<Rightarrow> storage \<Rightarrow> (prepared \<times> SendStatus \<times> storage) option" where
  "fetch_head max_piece splitting head =
     (if sent head then None
      else if splitting \<and> status head = SentFirst
      then if split_pos head \<le> length (payload head)
           then Some (prepared_ctor True (base_dgid head OR DGID_SPLIT_SECOND)
                        (drop (split_pos head) (payload head)), SentSecond, head)
           else None
      else if splitting \<and> status head = SentSecond
      then if split_pos head \<le> length (payload head)
           then Some (prepared_ctor True (base_dgid head OR DGID_SPLIT_FIRST)
                        (take (split_pos head) (payload head)), SentFirst, head)
           else None
      else if splitting \<and> length (payload head) > max_piece
      then let head = head\<lparr>split_pos := uint16_of max_piece\<rparr>
           in Some (prepared_ctor True (base_dgid head OR DGID_SPLIT_FIRST)
                      (take (split_pos head) (payload head)), SentFirst, head)
      else Some (prepared_ctor splitting (base_dgid head) (payload head), Sent, head))"

text \<open>
  What \<open>fetch\<close> does once the unsendable datagrams are gone: the small piece of a datagram near the
  head if it is asked for, else the head.
\<close>

definition pick :: "nat \<Rightarrow> bool \<Rightarrow> dqueue \<Rightarrow> (prepared option \<times> dqueue) option" where
  "pick max_piece prefer_small q =
     (let i = head_index q; pkts = buf q
      in if i \<ge> length pkts then Some (None, q)
         else case (if prefer_small \<and> packet_splitting q
                    then fetch_small max_piece (split_lookahead q) 0 (drop i pkts) else Some None) of
           None \<Rightarrow> None
         | Some (Some (off, d, part)) \<Rightarrow>
             Some (Some (prepared_ctor True (base_dgid d OR DGID_SPLIT_SECOND) part),
                   q\<lparr>buf := pkts[i + off := d], last_i := i + off, last_sent := SentSecond,
                     last_size := length part\<rparr>)
         | Some None \<Rightarrow>
             (case fetch_head max_piece (packet_splitting q) (pkts ! i) of
                None \<Rightarrow> None
              | Some (p, sending, head) \<Rightarrow>
                  Some (Some p, q\<lparr>buf := pkts[i := head], last_i := i, last_sent := sending,
                                  last_size := length (prep_data p)\<rparr>)))"

definition fetch :: "nat \<Rightarrow> bool \<Rightarrow> dqueue \<Rightarrow> (prepared option \<times> dqueue) option" where
  "fetch max_piece prefer_small q =
     (let (unsent, pkts) = drop_unsendable max_piece (packet_splitting q) (unsent_bytes q) (buf q)
      in pick max_piece prefer_small (q\<lparr>unsent_bytes := unsent, buf := pkts\<rparr>))"

definition confirm_sent :: "dqueue \<Rightarrow> dqueue option" where
  "confirm_sent q =
     (if \<not> last_i q < length (buf q) then None
      else let b = (buf q ! last_i q)\<lparr>status := status_or (status (buf q ! last_i q)) (last_sent q)\<rparr>;
               q = q\<lparr>buf := (buf q)[last_i q := b], unsent_bytes := sz_sub (unsent_bytes q) (last_size q)\<rparr>
           in if sent b
              then if last_i q \<noteq> head_index q then None
                   else Some ((case early_data_head q of
                                 Some h \<Rightarrow> q\<lparr>early_data_head := Some (h + 1)\<rparr>
                               | None \<Rightarrow> q\<lparr>buf := tl (buf q)\<rparr>)\<lparr>last_i := SIZE_MAX\<rparr>)
              else Some (q\<lparr>last_i := SIZE_MAX\<rparr>))"

end
