(* ===== verification/Dgram_Queue_Correct.thy ===== *)
theory Dgram_Queue_Correct
  imports Dgram_Queue
begin

unbundle bit_operations_syntax

text \<open>
  Correctness of the datagram queue of Dgram_Queue: its invariant, what \<open>fetch\<close> leaves for
  \<open>confirm_sent\<close>, the early-data period, and the queue against an observer of the wire. The contract
  \<open>op_system\<close> of Quic_Prelude is interpreted on the queue with its observer.
\<close>

section \<open>Statuses\<close>

lemma status_or_simps [simp]:
  "status_or Unsent b = b" "status_or a Unsent = a" "status_or SentFirst SentSecond = Sent"
  "status_or SentSecond SentFirst = Sent" "status_or Sent b = Sent" "status_or a Sent = Sent"
  "status_or SentFirst SentFirst = SentFirst" "status_or SentSecond SentSecond = SentSecond"
  by (cases a; cases b; simp add: status_or_def status_of_bits_def)+

lemma sent_second_iff: "sent_second st \<longleftrightarrow> status st = SentSecond \<or> status st = Sent"
  by (cases "status st") (simp_all add: sent_second_def status_and_def status_of_bits_def)

lemma sent_first_iff: "sent_first st \<longleftrightarrow> status st = SentFirst \<or> status st = Sent"
  by (cases "status st") (simp_all add: sent_first_def status_and_def status_of_bits_def)

section \<open>The invariant\<close>

text \<open>The bytes of a datagram that are still to be sent.\<close>

definition rem_bytes :: "storage \<Rightarrow> nat" where
  "rem_bytes st =
     (case status st of
        Sent \<Rightarrow> 0
      | SentFirst \<Rightarrow> length (payload st) - split_pos st
      | SentSecond \<Rightarrow> split_pos st
      | Unsent \<Rightarrow> length (payload st))"

text \<open>
  A datagram with one piece sent has been split at a place within it. A datagram is shorter than
  \<open>2 ^ 16\<close> bytes.
\<close>

definition storage_ok :: "bool \<Rightarrow> storage \<Rightarrow> bool" where
  "storage_ok splitting st \<longleftrightarrow>
     length (payload st) < 65536 \<and>
     (status st = SentFirst \<or> status st = SentSecond \<longrightarrow> splitting \<and> split_pos st \<le> length (payload st))"

text \<open>
  The part of the queue that is still to be sent: the first may have any piece sent but not both, and
  those after it at most the second.
\<close>

definition ahead_ok :: "storage \<Rightarrow> bool" where
  "ahead_ok st \<longleftrightarrow> status st = Unsent \<or> status st = SentSecond"

fun tail_ok :: "storage list \<Rightarrow> bool" where
  "tail_ok [] = True"
| "tail_ok (d # ds) = (status d \<noteq> Sent \<and> list_all ahead_ok ds)"

definition total_rem :: "storage list \<Rightarrow> nat" where
  "total_rem ds = sum_list (map rem_bytes ds)"

definition total_len :: "storage list \<Rightarrow> nat" where
  "total_len ds = sum_list (map (\<lambda>d. length (payload d)) ds)"

definition queue_inv :: "dqueue \<Rightarrow> bool" where
  "queue_inv q \<longleftrightarrow>
     head_index q \<le> length (buf q) \<and>
     list_all sent (take (head_index q) (buf q)) \<and>
     tail_ok (drop (head_index q) (buf q)) \<and>
     list_all (storage_ok (packet_splitting q)) (buf q) \<and>
     unsent_bytes q = total_rem (buf q) \<and>
     total_len (buf q) < SIZE_MOD"

lemma total_rem_simps [simp]:
  "total_rem [] = 0" "total_rem (d # ds) = rem_bytes d + total_rem ds"
  "total_rem (ds @ es) = total_rem ds + total_rem es"
  by (simp_all add: total_rem_def)

lemma total_len_simps [simp]:
  "total_len [] = 0" "total_len (d # ds) = length (payload d) + total_len ds"
  "total_len (ds @ es) = total_len ds + total_len es"
  by (simp_all add: total_len_def)

lemma rem_le: "storage_ok b st \<Longrightarrow> rem_bytes st \<le> length (payload st)"
  by (cases "status st") (auto simp: rem_bytes_def storage_ok_def)

lemma total_rem_le: "list_all (storage_ok b) ds \<Longrightarrow> total_rem ds \<le> total_len ds"
  by (induction ds) (auto dest: rem_le intro: add_mono)

lemma total_rem_sent: "list_all sent ds \<Longrightarrow> total_rem ds = 0"
  by (induction ds) (auto simp: sent_def rem_bytes_def)

lemma storage_unsent_size_eq: "storage_ok b st \<Longrightarrow> storage_unsent_size st = rem_bytes st"
  by (cases "status st") (auto simp: rem_bytes_def storage_ok_def storage_unsent_size_def sz_sub_exact)

lemma tail_ok_ahead: "list_all ahead_ok ds \<Longrightarrow> tail_ok ds"
  by (cases ds) (auto simp: ahead_ok_def)

lemma tail_ok_append: "tail_ok (ds @ es) \<Longrightarrow> ds \<noteq> [] \<Longrightarrow> list_all ahead_ok es"
  by (cases ds) auto

lemma tail_ok_nth:
  "tail_ok ds \<Longrightarrow> i < length ds \<Longrightarrow> 0 < i \<Longrightarrow> ahead_ok (ds ! i)"
  by (cases ds) (auto simp: list_all_length nth_Cons split: nat.splits)

section \<open>Dropping what cannot be sent\<close>

lemma drop_unsendable_spec:
  assumes "list_all (storage_ok b) ds" and "u < SIZE_MOD" and "total_rem ds \<le> u"
    and "drop_unsendable m b u ds = (u', es)"
  shows "\<exists>dropped. ds = dropped @ es \<and> u' = u - total_rem dropped \<and>
     list_all (unsendable m b) dropped \<and> (es \<noteq> [] \<longrightarrow> \<not> unsendable m b (hd es))"
  using assms
proof (induction ds arbitrary: u)
  case (Cons d ds)
  show ?case
  proof (cases "unsendable m b d")
    case True
    have d: "storage_unsent_size d = rem_bytes d"
      using Cons.prems(1) by (auto intro: storage_unsent_size_eq)
    have "sz_sub u (rem_bytes d) = u - rem_bytes d"
      using Cons.prems(2,3) by (simp add: sz_sub_exact)
    then have "\<exists>dropped. ds = dropped @ es \<and> u' = (u - rem_bytes d) - total_rem dropped \<and>
        list_all (unsendable m b) dropped \<and> (es \<noteq> [] \<longrightarrow> \<not> unsendable m b (hd es))"
      using Cons.prems True d by (intro Cons.IH) auto
    then obtain dropped where "ds = dropped @ es" "u' = (u - rem_bytes d) - total_rem dropped"
      "list_all (unsendable m b) dropped" "es \<noteq> [] \<longrightarrow> \<not> unsendable m b (hd es)" by blast
    then show ?thesis using True by (intro exI [of _ "d # dropped"]) simp
  next
    case False
    then show ?thesis using Cons.prems by (intro exI [of _ "[]"]) auto
  qed
qed simp

lemma drop_unsendable_sent:
  "sent d \<Longrightarrow> drop_unsendable m b u (d # ds) = (u, d # ds)"
  by (simp add: sent_def unsendable_def)

text \<open>The step of \<open>fetch\<close> that drops datagrams keeps the invariant and drops only whole prefixes.\<close>

lemma queue_drop_inv:
  assumes inv: "queue_inv q"
    and dr: "drop_unsendable m (packet_splitting q) (unsent_bytes q) (buf q) = (u, es)"
  shows "queue_inv (q\<lparr>unsent_bytes := u, buf := es\<rparr>) \<and>
     (\<exists>dropped. buf q = dropped @ es \<and> (dropped \<noteq> [] \<longrightarrow> head_index q = 0) \<and>
       list_all (unsendable m (packet_splitting q)) dropped \<and>
       (head_index q = 0 \<longrightarrow> es \<noteq> [] \<longrightarrow> \<not> unsendable m (packet_splitting q) (hd es)))"
proof (cases "head_index q = 0 \<or> buf q = []")
  case False
  then obtain d ds where b: "buf q = d # ds" "sent d"
    using inv by (cases "buf q"; cases "head_index q") (auto simp: queue_inv_def)
  then have "u = unsent_bytes q" "es = buf q"
    using dr drop_unsendable_sent by auto
  then show ?thesis using inv False by (auto simp: queue_inv_def head_index_def)
next
  case True
  have ok: "list_all (storage_ok (packet_splitting q)) (buf q)" "unsent_bytes q = total_rem (buf q)"
    "total_len (buf q) < SIZE_MOD" "tail_ok (buf q)" "head_index q = 0"
    using inv True by (auto simp: queue_inv_def)
  obtain dropped where d: "buf q = dropped @ es" "u = unsent_bytes q - total_rem dropped"
    "list_all (unsendable m (packet_splitting q)) dropped"
    "es \<noteq> [] \<longrightarrow> \<not> unsendable m (packet_splitting q) (hd es)"
    using drop_unsendable_spec [OF ok(1) _ _ dr] ok total_rem_le [OF ok(1)] by auto
  have "tail_ok es"
    using ok(4) d(1) by (cases "dropped = []") (auto intro: tail_ok_ahead dest: tail_ok_append)
  then have "queue_inv (q\<lparr>unsent_bytes := u, buf := es\<rparr>)"
    using ok d by (auto simp: queue_inv_def head_index_def)
  then show ?thesis using d ok by blast
qed

section \<open>Fetching and confirming\<close>

text \<open>Choosing a split position for a datagram none of which is sent changes nothing else.\<close>

definition resplit :: "nat \<Rightarrow> nat \<Rightarrow> storage list \<Rightarrow> storage list" where
  "resplit j k ds = ds[j := (ds ! j)\<lparr>split_pos := k\<rparr>]"

lemma map_update_same: "f x = f (ds ! j) \<Longrightarrow> map f (ds[j := x]) = map f ds"
  by (cases "j < length ds") (simp_all add: map_update list_update_same_conv list_update_beyond)

lemma resplit_map:
  "f ((ds ! j)\<lparr>split_pos := k\<rparr>) = f (ds ! j) \<Longrightarrow> map f (resplit j k ds) = map f ds"
  unfolding resplit_def by (rule map_update_same)

lemma rem_resplit: "status d = Unsent \<or> k = split_pos d \<Longrightarrow> rem_bytes (d\<lparr>split_pos := k\<rparr>) = rem_bytes d"
  by (auto simp: rem_bytes_def split: SendStatus.split)

lemma total_rem_resplit:
  "status (ds ! j) = Unsent \<or> k = split_pos (ds ! j) \<Longrightarrow> total_rem (resplit j k ds) = total_rem ds"
  unfolding total_rem_def by (simp add: resplit_map rem_resplit)

lemma list_all_resplit:
  "list_all P ds \<Longrightarrow> j < length ds \<Longrightarrow> P ((ds ! j)\<lparr>split_pos := k\<rparr>) \<Longrightarrow> list_all P (resplit j k ds)"
  by (auto simp: resplit_def list_all_length nth_list_update)

lemma list_all_ahead: "list_all ahead_ok ds = list_all (\<lambda>s. s = Unsent \<or> s = SentSecond) (map status ds)"
  by (induction ds) (auto simp: ahead_ok_def)

lemma tail_ok_status: "map status ds = map status es \<Longrightarrow> tail_ok ds \<longleftrightarrow> tail_ok es"
  by (cases ds; cases es) (auto simp: list_all_ahead)

lemma list_all_sent: "list_all sent ds = list_all (\<lambda>s. s = Sent) (map status ds)"
  by (induction ds) (auto simp: sent_def)

lemma resplit_inv:
  assumes inv: "queue_inv q" and j: "j < length (buf q)"
    and k: "status (buf q ! j) = Unsent \<or> k = split_pos (buf q ! j)"
  shows "queue_inv (q\<lparr>buf := resplit j k (buf q), last_i := a, last_sent := b, last_size := c\<rparr>)"
proof -
  let ?b = "resplit j k (buf q)"
  have st: "map status ?b = map status (buf q)" and ln: "total_len ?b = total_len (buf q)"
    unfolding total_len_def by (simp_all add: resplit_map)
  have len: "length ?b = length (buf q)" by (simp add: resplit_def)
  have "list_all sent (take h ?b) = list_all sent (take h (buf q))" for h
    by (simp only: list_all_sent take_map [symmetric] st)
  moreover have "tail_ok (drop h ?b) = tail_ok (drop h (buf q))" for h
    by (rule tail_ok_status) (simp only: drop_map [symmetric] st)
  moreover have "list_all (storage_ok (packet_splitting q)) ?b"
    using inv j k
    by (intro list_all_resplit) (auto simp: queue_inv_def storage_ok_def list_all_length)
  ultimately show ?thesis
    using inv total_rem_resplit [OF k] ln len by (simp add: queue_inv_def head_index_def)
qed

text \<open>What \<open>fetch\<close> leaves for \<open>confirm_sent\<close>.\<close>

definition pend_ok :: "dqueue \<Rightarrow> prepared \<Rightarrow> bool" where
  "pend_ok q p \<longleftrightarrow>
     last_i q < length (buf q) \<and> last_size q = length (prep_data p) \<and>
     (let st = buf q ! last_i q; split = packet_splitting q \<and> split_pos st \<le> length (payload st);
          head = (last_i q = head_index q)
      in case last_sent q of
           Sent \<Rightarrow> head \<and> status st = Unsent \<and> prep_id p = base_dgid st \<and> prep_data p = payload st
         | SentFirst \<Rightarrow> head \<and> split \<and> ahead_ok st \<and> prep_id p = (base_dgid st OR DGID_SPLIT_FIRST) \<and>
                        prep_data p = take (split_pos st) (payload st)
         | SentSecond \<Rightarrow> split \<and> head_index q \<le> last_i q \<and>
                        (status st = Unsent \<or> status st = SentFirst \<and> head) \<and>
                        prep_id p = (base_dgid st OR DGID_SPLIT_SECOND) \<and>
                        prep_data p = drop (split_pos st) (payload st)
         | Unsent \<Rightarrow> False)"

lemma fetch_small_spec:
  assumes "list_all (storage_ok True) ds" and "if off = 0 then tail_ok ds else list_all ahead_ok ds"
    and "m < 65536"
  shows "fetch_small m l off ds = Some None \<or>
    (\<exists>j k. j < length ds \<and> off + j \<le> l \<and> k \<le> length (payload (ds ! j)) \<and>
      (status (ds ! j) = Unsent \<or> k = split_pos (ds ! j) \<and> status (ds ! j) = SentFirst \<and> off + j = 0) \<and>
      fetch_small m l off ds =
        Some (Some (off + j, (ds ! j)\<lparr>split_pos := k\<rparr>, drop k (payload (ds ! j)))))"
  using assms
proof (induction ds arbitrary: off)
  case (Cons d ds)
  have rest: "if Suc off = 0 then tail_ok ds else list_all ahead_ok ds"
    using Cons.prems(2) by (auto split: if_splits)
  have d: "off = 0 \<or> ahead_ok d" "status d \<noteq> Sent"
    using Cons.prems(2) by (auto simp: ahead_ok_def split: if_splits)
  note IH = Cons.IH [of "Suc off", OF _ rest Cons.prems(3)]
  have step: ?case if "fetch_small m l off (d # ds) = fetch_small m l (Suc off) ds"
  proof (cases "fetch_small m l (Suc off) ds = Some None")
    case False
    then obtain j k where jk: "j < length ds" "Suc off + j \<le> l" "k \<le> length (payload (ds ! j))"
      "status (ds ! j) = Unsent"
      "fetch_small m l (Suc off) ds =
        Some (Some (Suc off + j, (ds ! j)\<lparr>split_pos := k\<rparr>, drop k (payload (ds ! j))))"
      using IH Cons.prems(1) by auto
    show ?thesis
      unfolding that by (rule disjI2, rule exI [of _ "Suc j"], rule exI [of _ k]) (use jk in simp)
  next
    case True
    then show ?thesis unfolding that by (rule disjI1)
  qed
  consider "\<not> off \<le> l" | "off \<le> l" "status d = SentSecond" | "off \<le> l" "status d = SentFirst" "off = 0"
    | "off \<le> l" "status d = Unsent"
    using d by (cases "status d") (auto simp: ahead_ok_def)
  then show ?case
  proof cases
    case 2
    then show ?thesis by (intro step) (simp add: sent_second_iff)
  next
    case 3
    show ?thesis
      by (rule disjI2, rule exI [of _ 0], rule exI [of _ "split_pos d"])
        (use 3 Cons.prems(1) in \<open>simp add: sent_second_iff storage_ok_def\<close>)
  next
    case 4
    show ?thesis
    proof (cases "length (payload d) > m")
      case True
      show ?thesis
        by (rule disjI2, rule exI [of _ 0], rule exI [of _ m])
          (use True 4 Cons.prems(3) in \<open>simp add: sent_second_iff\<close>)
    next
      case False
      with 4 show ?thesis by (intro step) (simp add: sent_second_iff)
    qed
  qed simp
qed simp

lemma fetch_head_spec:
  assumes "storage_ok b d" and "status d \<noteq> Sent" and "m < 65536"
  shows "\<exists>p s k. fetch_head m b d = Some (p, s, d\<lparr>split_pos := k\<rparr>) \<and>
    (status d = Unsent \<or> k = split_pos d) \<and>
    (case s of
       Sent \<Rightarrow> status d = Unsent \<and> prep_id p = base_dgid d \<and> prep_data p = payload d
     | SentFirst \<Rightarrow> b \<and> k \<le> length (payload d) \<and> ahead_ok d \<and>
         prep_id p = (base_dgid d OR DGID_SPLIT_FIRST) \<and> prep_data p = take k (payload d)
     | SentSecond \<Rightarrow> b \<and> k \<le> length (payload d) \<and> status d = SentFirst \<and>
         prep_id p = (base_dgid d OR DGID_SPLIT_SECOND) \<and> prep_data p = drop k (payload d)
     | Unsent \<Rightarrow> False)"
proof (cases "status d")
  case Unsent
  show ?thesis
  proof (cases "b \<and> length (payload d) > m")
    case True
    then show ?thesis
      using assms Unsent
      by (intro exI [of _ "prepared_ctor True (base_dgid d OR DGID_SPLIT_FIRST) (take m (payload d))"]
          exI [of _ SentFirst] exI [of _ m])
        (simp add: fetch_head_def sent_def prepared_ctor_def ahead_ok_def)
  next
    case False
    then show ?thesis
      using assms Unsent
      by (intro exI [of _ "prepared_ctor b (base_dgid d) (payload d)"] exI [of _ Sent]
          exI [of _ "split_pos d"])
        (auto simp: fetch_head_def sent_def prepared_ctor_def)
  qed
next
  case SentFirst
  then show ?thesis
    using assms
    by (intro exI [of _ "prepared_ctor True (base_dgid d OR DGID_SPLIT_SECOND) (drop (split_pos d) (payload d))"]
        exI [of _ SentSecond] exI [of _ "split_pos d"])
      (simp add: fetch_head_def sent_def prepared_ctor_def storage_ok_def)
next
  case SentSecond
  then show ?thesis
    using assms
    by (intro exI [of _ "prepared_ctor True (base_dgid d OR DGID_SPLIT_FIRST) (take (split_pos d) (payload d))"]
        exI [of _ SentFirst] exI [of _ "split_pos d"])
      (simp add: fetch_head_def sent_def prepared_ctor_def storage_ok_def ahead_ok_def)
qed (use assms in simp)

lemma head_index_update [simp]:
  "head_index (q\<lparr>buf := b\<rparr>) = head_index q" "head_index (q\<lparr>last_i := n\<rparr>) = head_index q"
  "head_index (q\<lparr>last_sent := s\<rparr>) = head_index q" "head_index (q\<lparr>last_size := n\<rparr>) = head_index q"
  "head_index (q\<lparr>unsent_bytes := n\<rparr>) = head_index q" "head_index (q\<lparr>split_lookahead := n\<rparr>) = head_index q"
  by (simp_all add: head_index_def)

lemma resplit_nth [simp]: "j < length ds \<Longrightarrow> resplit j k ds ! j = (ds ! j)\<lparr>split_pos := k\<rparr>"
  by (simp add: resplit_def)

lemma length_resplit [simp]: "length (resplit j k ds) = length ds"
  by (simp add: resplit_def)

lemma drop_head:
  assumes "queue_inv q" and "head_index q < length (buf q)"
  shows "drop (head_index q) (buf q) = buf q ! head_index q # drop (Suc (head_index q)) (buf q)"
    and "tail_ok (drop (head_index q) (buf q))" and "status (buf q ! head_index q) \<noteq> Sent"
    and "list_all (storage_ok (packet_splitting q)) (drop (head_index q) (buf q))"
    and "storage_ok (packet_splitting q) (buf q ! head_index q)"
proof -
  show 1: "drop (head_index q) (buf q) = buf q ! head_index q # drop (Suc (head_index q)) (buf q)"
    using assms(2) by (rule Cons_nth_drop_Suc [symmetric])
  show 2: "tail_ok (drop (head_index q) (buf q))" using assms(1) by (simp add: queue_inv_def)
  show "status (buf q ! head_index q) \<noteq> Sent" using 1 2 by simp
  show "list_all (storage_ok (packet_splitting q)) (drop (head_index q) (buf q))"
    using assms(1) by (auto simp: queue_inv_def list_all_iff dest: in_set_dropD)
  show "storage_ok (packet_splitting q) (buf q ! head_index q)"
    using assms by (simp add: queue_inv_def list_all_length)
qed

lemma fetch_pick:
  "drop_unsendable m (packet_splitting q) (unsent_bytes q) (buf q) = (u, es) \<Longrightarrow>
   fetch m small q = pick m small (q\<lparr>unsent_bytes := u, buf := es\<rparr>)"
  by (simp add: fetch_def)

lemma pick_small_spec:
  assumes inv: "queue_inv q" and h: "head_index q < length (buf q)"
    and f: "fetch_small m (split_lookahead q) 0 (drop (head_index q) (buf q)) \<noteq> Some None"
    and ps: "packet_splitting q" and small and m: "m < 65536"
  shows "\<exists>p j k. j < length (buf q) \<and> j \<le> head_index q + split_lookahead q \<and>
    (status (buf q ! j) = Unsent \<or> k = split_pos (buf q ! j)) \<and>
    (let q' = q\<lparr>buf := resplit j k (buf q), last_i := j, last_sent := SentSecond, last_size := length (prep_data p)\<rparr>
     in pick m small q = Some (Some p, q') \<and> pend_ok q' p)"
proof -
  let ?h = "head_index q" and ?ds = "drop (head_index q) (buf q)"
  note dh = drop_head [OF inv h]
  have ok: "list_all (storage_ok True) ?ds" using dh(4) ps by simp
  obtain j k where j: "j < length (buf q) - ?h" "j \<le> split_lookahead q" "k \<le> length (payload (?ds ! j))"
    "status (?ds ! j) = Unsent \<or> k = split_pos (?ds ! j) \<and> status (?ds ! j) = SentFirst \<and> j = 0"
    and e: "fetch_small m (split_lookahead q) 0 ?ds =
      Some (Some (j, (?ds ! j)\<lparr>split_pos := k\<rparr>, drop k (payload (?ds ! j))))"
    using fetch_small_spec [of ?ds 0 m "split_lookahead q", OF ok _ m, simplified, OF dh(2)] f by blast
  have n: "?ds ! j = buf q ! (?h + j)" "?h + j < length (buf q)" using j(1) by auto
  let ?p = "prepared_ctor True (base_dgid (buf q ! (?h + j)) OR DGID_SPLIT_SECOND)
      (drop k (payload (buf q ! (?h + j))))"
  let ?q = "q\<lparr>buf := resplit (?h + j) k (buf q), last_i := ?h + j, last_sent := SentSecond,
      last_size := length (prep_data ?p)\<rparr>"
  have "pick m small q = Some (Some ?p, ?q)"
    using e n h ps \<open>small\<close> by (simp add: pick_def resplit_def prepared_ctor_def Let_def)
  moreover have "pend_ok ?q ?p"
    using j n ps by (auto simp: pend_ok_def prepared_ctor_def)
  ultimately have pq: "pick m small q = Some (Some ?p, ?q) \<and> pend_ok ?q ?p" by blast
  show ?thesis
    unfolding Let_def
    by (rule exI [of _ ?p], rule exI [of _ "?h + j"], rule exI [of _ k]) (use pq n j in auto)
qed

lemma pick_head_spec:
  assumes inv: "queue_inv q" and h: "head_index q < length (buf q)"
    and f: "\<not> (small \<and> packet_splitting q) \<or>
      fetch_small m (split_lookahead q) 0 (drop (head_index q) (buf q)) = Some None"
    and m: "m < 65536"
  shows "\<exists>p s k. (status (buf q ! head_index q) = Unsent \<or> k = split_pos (buf q ! head_index q)) \<and>
    (let q' = q\<lparr>buf := resplit (head_index q) k (buf q), last_i := head_index q, last_sent := s,
               last_size := length (prep_data p)\<rparr>
     in pick m small q = Some (Some p, q') \<and> pend_ok q' p)"
proof -
  let ?h = "head_index q"
  note dh = drop_head [OF inv h]
  obtain p s k where e: "fetch_head m (packet_splitting q) (buf q ! ?h) = Some (p, s, (buf q ! ?h)\<lparr>split_pos := k\<rparr>)"
    and k: "status (buf q ! ?h) = Unsent \<or> k = split_pos (buf q ! ?h)"
    and c: "case s of
       Sent \<Rightarrow> status (buf q ! ?h) = Unsent \<and> prep_id p = base_dgid (buf q ! ?h) \<and> prep_data p = payload (buf q ! ?h)
     | SentFirst \<Rightarrow> packet_splitting q \<and> k \<le> length (payload (buf q ! ?h)) \<and> ahead_ok (buf q ! ?h) \<and>
         prep_id p = (base_dgid (buf q ! ?h) OR DGID_SPLIT_FIRST) \<and> prep_data p = take k (payload (buf q ! ?h))
     | SentSecond \<Rightarrow> packet_splitting q \<and> k \<le> length (payload (buf q ! ?h)) \<and> status (buf q ! ?h) = SentFirst \<and>
         prep_id p = (base_dgid (buf q ! ?h) OR DGID_SPLIT_SECOND) \<and> prep_data p = drop k (payload (buf q ! ?h))
     | Unsent \<Rightarrow> False"
    using fetch_head_spec [OF dh(5,3) m] by blast
  let ?q = "q\<lparr>buf := resplit ?h k (buf q), last_i := ?h, last_sent := s, last_size := length (prep_data p)\<rparr>"
  have "pick m small q = Some (Some p, ?q)"
    using e f h by (auto simp: pick_def resplit_def Let_def)
  moreover have "pend_ok ?q p"
    using c h by (cases s) (simp_all add: pend_ok_def ahead_ok_def)
  ultimately show ?thesis using k unfolding Let_def by blast
qed

text \<open>A datagram is identified by its id and its payload.\<close>

definition dgram_key :: "storage \<Rightarrow> nat \<times> bytes" where
  "dgram_key d = (base_dgid d, payload d)"

lemma resplit_keys: "map dgram_key (resplit j k ds) = map dgram_key ds"
  by (rule resplit_map) (simp add: dgram_key_def)

lemma resplit_statuses: "map status (resplit j k ds) = map status ds"
  by (rule resplit_map) simp

lemma pick_spec:
  assumes inv: "queue_inv q" and m: "m < 65536"
  shows "\<exists>r q'. pick m small q = Some (r, q') \<and> queue_inv q' \<and>
    early_data_head q' = early_data_head q \<and> packet_splitting q' = packet_splitting q \<and>
    split_lookahead q' = split_lookahead q \<and>
    (\<exists>j k. buf q' = resplit j k (buf q) \<and> (j < length (buf q) \<longrightarrow> status (buf q ! j) = Unsent \<or> k = split_pos (buf q ! j))) \<and>
    (case r of None \<Rightarrow> queue_empty q' | Some p \<Rightarrow> pend_ok q' p \<and> last_i q' \<le> head_index q' + split_lookahead q')"
proof (cases "head_index q < length (buf q)")
  case False
  then have "pick m small q = Some (None, q)" by (simp add: pick_def)
  moreover have "buf q = resplit (length (buf q)) 0 (buf q)"
    by (simp add: resplit_def list_update_beyond)
  ultimately show ?thesis using inv False by (fastforce simp: queue_empty_def)
next
  case h: True
  show ?thesis
  proof (cases "small \<and> packet_splitting q \<and>
      fetch_small m (split_lookahead q) 0 (drop (head_index q) (buf q)) \<noteq> Some None")
    case True
    then obtain p j k where j: "j < length (buf q)" "j \<le> head_index q + split_lookahead q"
      and k: "status (buf q ! j) = Unsent \<or> k = split_pos (buf q ! j)"
      and p: "let q' = q\<lparr>buf := resplit j k (buf q), last_i := j, last_sent := SentSecond,
          last_size := length (prep_data p)\<rparr>
        in pick m small q = Some (Some p, q') \<and> pend_ok q' p"
      using pick_small_spec [OF inv h _ _ _ m] by blast
    then show ?thesis using resplit_inv [OF inv j(1) k] unfolding Let_def by auto
  next
    case False
    then obtain p s k where k: "status (buf q ! head_index q) = Unsent \<or> k = split_pos (buf q ! head_index q)"
      and p: "let q' = q\<lparr>buf := resplit (head_index q) k (buf q), last_i := head_index q, last_sent := s,
               last_size := length (prep_data p)\<rparr>
        in pick m small q = Some (Some p, q') \<and> pend_ok q' p"
      using pick_head_spec [OF inv h _ m, of small] by blast
    then show ?thesis using resplit_inv [OF inv h k] unfolding Let_def by auto
  qed
qed

text \<open>The bookkeeping of \<open>confirm_sent\<close> on one datagram of the list.\<close>

lemma total_rem_update:
  "j < length ds \<Longrightarrow> total_rem (ds[j := d]) + rem_bytes (ds ! j) = total_rem ds + rem_bytes d"
proof -
  assume j: "j < length ds"
  have "total_rem (ds[j := d]) = total_rem (take j ds) + rem_bytes d + total_rem (drop (Suc j) ds)"
    using j by (simp add: upd_conv_take_nth_drop)
  moreover have "total_rem ds = total_rem (take j ds) + rem_bytes (ds ! j) + total_rem (drop (Suc j) ds)"
    by (subst id_take_nth_drop [OF j]) simp
  ultimately show ?thesis by simp
qed

definition confirmed :: "dqueue \<Rightarrow> storage" where
  "confirmed q = (buf q ! last_i q)\<lparr>status := status_or (status (buf q ! last_i q)) (last_sent q)\<rparr>"

lemma confirmed_spec:
  assumes inv: "queue_inv q" and pend: "pend_ok q p"
  shows "storage_ok (packet_splitting q) (confirmed q)"
    and "rem_bytes (confirmed q) + last_size q = rem_bytes (buf q ! last_i q)"
    and "sent (confirmed q) \<Longrightarrow> last_i q = head_index q"
    and "\<not> sent (confirmed q) \<Longrightarrow> last_i q \<noteq> head_index q \<Longrightarrow> ahead_ok (confirmed q)"
    and "head_index q \<le> last_i q"
    and "dgram_key (confirmed q) = dgram_key (buf q ! last_i q)"
proof -
  have "storage_ok (packet_splitting q) (buf q ! last_i q)"
    using inv pend by (simp add: queue_inv_def pend_ok_def list_all_length)
  then show "storage_ok (packet_splitting q) (confirmed q)"
    "rem_bytes (confirmed q) + last_size q = rem_bytes (buf q ! last_i q)"
    using pend
    by (cases "last_sent q"; auto simp: pend_ok_def confirmed_def storage_ok_def rem_bytes_def ahead_ok_def Let_def)+
  show "sent (confirmed q) \<Longrightarrow> last_i q = head_index q"
    "\<not> sent (confirmed q) \<Longrightarrow> last_i q \<noteq> head_index q \<Longrightarrow> ahead_ok (confirmed q)"
    "head_index q \<le> last_i q"
    using pend by (cases "last_sent q"; auto simp: pend_ok_def confirmed_def sent_def ahead_ok_def Let_def)+
  show "dgram_key (confirmed q) = dgram_key (buf q ! last_i q)"
    by (simp add: confirmed_def dgram_key_def)
qed

lemma tail_ok_update:
  assumes "tail_ok ds" and "j < length ds" and "j = 0 \<and> \<not> sent d \<or> 0 < j \<and> ahead_ok d"
  shows "tail_ok (ds[j := d])"
  using assms by (cases ds; cases j) (auto simp: sent_def list_all_length nth_list_update)

lemma confirm_bytes:
  assumes inv: "queue_inv q" and pend: "pend_ok q p"
  defines "b \<equiv> (buf q)[last_i q := confirmed q]"
  shows "sz_sub (unsent_bytes q) (last_size q) = total_rem b" and "total_len b = total_len (buf q)"
    and "list_all (storage_ok (packet_splitting q)) b" and "last_i q < length (buf q)"
proof -
  note c = confirmed_spec [OF inv pend]
  show l: "last_i q < length (buf q)" using pend by (simp add: pend_ok_def)
  have u: "unsent_bytes q = total_rem (buf q)" "total_len (buf q) < SIZE_MOD"
    and ok: "list_all (storage_ok (packet_splitting q)) (buf q)"
    using inv by (auto simp: queue_inv_def)
  have "total_rem b + last_size q = total_rem (buf q)"
    using total_rem_update [OF l, of "confirmed q"] c(2) unfolding b_def by simp
  then show "sz_sub (unsent_bytes q) (last_size q) = total_rem b"
    using u total_rem_le [OF ok] by (simp add: sz_sub_exact)
  show "total_len b = total_len (buf q)"
    unfolding total_len_def b_def
    by (subst map_update_same) (use c(6) in \<open>simp_all add: dgram_key_def\<close>)
  show "list_all (storage_ok (packet_splitting q)) b"
    using ok c(1) l by (auto simp: b_def list_all_length nth_list_update)
qed

lemma confirm_partial_inv:
  assumes inv: "queue_inv q" and pend: "pend_ok q p" and ns: "\<not> sent (confirmed q)"
  shows "queue_inv (q\<lparr>buf := (buf q)[last_i q := confirmed q],
    unsent_bytes := sz_sub (unsent_bytes q) (last_size q), last_i := SIZE_MAX\<rparr>)"
proof -
  note c = confirmed_spec [OF inv pend] and b = confirm_bytes [OF inv pend]
  have "tail_ok ((drop (head_index q) (buf q))[last_i q - head_index q := confirmed q])"
    using inv b(4) c(4,5) ns by (intro tail_ok_update) (auto simp: queue_inv_def)
  then show ?thesis
    using inv b c(5) by (auto simp: queue_inv_def drop_update_swap take_update_cancel)
qed

lemma confirm_done_inv:
  assumes inv: "queue_inv q" and pend: "pend_ok q p" and s: "sent (confirmed q)"
  defines "b \<equiv> (buf q)[last_i q := confirmed q]"
  defines "q1 \<equiv> q\<lparr>buf := b, unsent_bytes := sz_sub (unsent_bytes q) (last_size q)\<rparr>"
  shows "early_data_head q = None \<Longrightarrow> b = confirmed q # tl b \<and> queue_inv (q1\<lparr>buf := tl b, last_i := SIZE_MAX\<rparr>)"
    and "early_data_head q = Some h \<Longrightarrow> queue_inv (q1\<lparr>early_data_head := Some (h + 1), last_i := SIZE_MAX\<rparr>)"
proof -
  note c = confirmed_spec [OF inv pend] and bb = confirm_bytes [OF inv pend, folded b_def]
  have l: "last_i q = head_index q" using c(3) s by simp
  have rem: "rem_bytes (confirmed q) = 0" using s by (simp add: rem_bytes_def sent_def)
  have dr: "drop (Suc (head_index q)) b = drop (Suc (head_index q)) (buf q)" by (simp add: b_def l)
  have ahead: "list_all ahead_ok (drop (Suc (head_index q)) b)"
    using drop_head(1,2) [OF inv] bb(4) unfolding dr l by simp
  {
    assume e: "early_data_head q = None"
    then have h: "head_index q = 0" by (simp add: head_index_def)
    then have bt: "b = confirmed q # tl b" using bb(4) l unfolding b_def by (cases "buf q") auto
    obtain t where t: "b = confirmed q # t" using bt by blast
    have "tail_ok t" using ahead unfolding h t by (auto intro: tail_ok_ahead)
    then have "queue_inv (q1\<lparr>buf := tl b, last_i := SIZE_MAX\<rparr>)"
      using bb inv rem h unfolding t q1_def by (simp add: queue_inv_def t)
    with bt show "b = confirmed q # tl b \<and> queue_inv (q1\<lparr>buf := tl b, last_i := SIZE_MAX\<rparr>)" by blast
  }
  {
    assume e: "early_data_head q = Some h"
    then have h: "head_index q = h" by (simp add: head_index_def)
    have "take (Suc h) b = take h (buf q) @ [confirmed q]"
      using bb(4) l h by (simp add: b_def take_Suc_conv_app_nth)
    then show "queue_inv (q1\<lparr>early_data_head := Some (h + 1), last_i := SIZE_MAX\<rparr>)"
      using bb inv ahead s l h tail_ok_ahead [OF ahead]
      by (simp add: queue_inv_def q1_def head_index_def) (simp add: b_def)
  }
qed

lemma confirm_sent_eq:
  "confirm_sent q =
     (if \<not> last_i q < length (buf q) then None
      else let q1 = q\<lparr>buf := (buf q)[last_i q := confirmed q],
                      unsent_bytes := sz_sub (unsent_bytes q) (last_size q)\<rparr>
           in if sent (confirmed q)
              then if last_i q \<noteq> head_index q then None
                   else Some ((case early_data_head q of
                                 Some h \<Rightarrow> q1\<lparr>early_data_head := Some (h + 1)\<rparr>
                               | None \<Rightarrow> q1\<lparr>buf := tl (buf q1)\<rparr>)\<lparr>last_i := SIZE_MAX\<rparr>)
              else Some (q1\<lparr>last_i := SIZE_MAX\<rparr>))"
  by (simp add: confirm_sent_def confirmed_def Let_def cong: option.case_cong)

lemma confirm_sent_spec:
  assumes inv: "queue_inv q" and pend: "pend_ok q p"
  shows "\<exists>q'. confirm_sent q = Some q' \<and> queue_inv q' \<and> packet_splitting q' = packet_splitting q \<and>
    split_lookahead q' = split_lookahead q \<and>
    (let b = (buf q)[last_i q := confirmed q]
     in if \<not> sent (confirmed q) then buf q' = b \<and> early_data_head q' = early_data_head q
        else case early_data_head q of
          None \<Rightarrow> early_data_head q' = None \<and> b = confirmed q # buf q'
        | Some h \<Rightarrow> early_data_head q' = Some (h + 1) \<and> buf q' = b)"
proof (cases "sent (confirmed q)")
  case False
  then show ?thesis
    using confirm_partial_inv [OF inv pend False] confirm_bytes(4) [OF inv pend]
    by (simp add: confirm_sent_eq Let_def)
next
  case True
  note d = confirm_done_inv [OF inv pend True] and l = confirmed_spec(3) [OF inv pend True]
  show ?thesis
  proof (cases "early_data_head q")
    case None
    then show ?thesis
      using d(1) [OF None] True l confirm_bytes(4) [OF inv pend]
      by (simp add: confirm_sent_eq Let_def)
  next
    case (Some h)
    then show ?thesis
      using d(2) [OF Some] True l confirm_bytes(4) [OF inv pend]
      by (simp add: confirm_sent_eq Let_def)
  qed
qed

lemma fetch_spec:
  assumes inv: "queue_inv q" and m: "m < 65536"
  obtains r q' dropped es j k where "fetch m small q = Some (r, q')" and "queue_inv q'"
    and "early_data_head q' = early_data_head q" and "packet_splitting q' = packet_splitting q"
    and "split_lookahead q' = split_lookahead q"
    and "buf q = dropped @ es" and "dropped \<noteq> [] \<longrightarrow> head_index q = 0"
    and "list_all (unsendable m (packet_splitting q)) dropped"
    and "buf q' = resplit j k es" and "j < length es \<longrightarrow> status (es ! j) = Unsent \<or> k = split_pos (es ! j)"
    and "case r of None \<Rightarrow> queue_empty q' | Some p \<Rightarrow> pend_ok q' p \<and> last_i q' \<le> head_index q' + split_lookahead q'"
proof -
  obtain u es where dr: "drop_unsendable m (packet_splitting q) (unsent_bytes q) (buf q) = (u, es)"
    by fastforce
  let ?q = "q\<lparr>unsent_bytes := u, buf := es\<rparr>"
  obtain dropped where d: "buf q = dropped @ es" "dropped \<noteq> [] \<longrightarrow> head_index q = 0"
    "list_all (unsendable m (packet_splitting q)) dropped" and qi: "queue_inv ?q"
    using queue_drop_inv [OF inv dr] by blast
  obtain r q' j k where p: "pick m small ?q = Some (r, q')" "queue_inv q'"
    "early_data_head q' = early_data_head ?q" "packet_splitting q' = packet_splitting ?q"
    "split_lookahead q' = split_lookahead ?q" "buf q' = resplit j k (buf ?q)"
    "j < length (buf ?q) \<longrightarrow> status (buf ?q ! j) = Unsent \<or> k = split_pos (buf ?q ! j)"
    "case r of None \<Rightarrow> queue_empty q' | Some p \<Rightarrow> pend_ok q' p \<and> last_i q' \<le> head_index q' + split_lookahead q'"
    using pick_spec [OF qi m, of small] by blast
  show thesis
    by (rule that [of r q' dropped es j k]) (use d p fetch_pick [OF dr, of small] in simp_all)
qed

section \<open>The early-data period\<close>

lemma retry_loop_spec:
  assumes "list_all (storage_ok b) ds" and "u + (total_len ds - total_rem ds) < SIZE_MOD"
    and "list_all (\<lambda>d. status d = Unsent) (drop n ds)" and "0 < n \<or> ds = []"
  shows "retry_loop n u ds = (u + (total_len ds - total_rem ds), map unsend ds)"
  using assms
proof (induction ds arbitrary: n u)
  case (Cons d ds)
  have d: "storage_unsent_size d = rem_bytes d" "rem_bytes d \<le> length (payload d)"
    "total_rem ds \<le> total_len ds"
    using Cons.prems(1) storage_unsent_size_eq [of b d] rem_le [of b d] total_rem_le [of b ds] by simp_all
  have "length (payload d) < 65536" using Cons.prems(1) by (simp add: storage_ok_def)
  let ?u = "u + (length (payload d) - rem_bytes d)"
  have u: "sz_add u (sz_sub (length (payload d)) (storage_unsent_size d)) = ?u"
    using Cons.prems(2) d \<open>length (payload d) < 65536\<close> by (simp add: sz_sub_exact sz_add_exact)
  have rest: "u + (total_len (d # ds) - total_rem (d # ds)) = ?u + (total_len ds - total_rem ds)"
    using d by simp
  show ?case
  proof (cases "n \<le> 1")
    case True
    then have n: "n = 1" using Cons.prems(4) by simp
    have "map unsend es = es \<and> total_rem es = total_len es"
      if "list_all (\<lambda>d. status d = Unsent) es" for es
      using that by (induction es) (simp_all add: unsend_def rem_bytes_def)
    from this [of ds] have "map unsend ds = ds" "total_rem ds = total_len ds"
      using Cons.prems(3) n by simp_all
    then show ?thesis using n u rest by simp
  next
    case False
    then show ?thesis
      using Cons.IH [where n = "n - 1" and u = ?u] Cons.prems u rest
      by (auto simp: Let_def drop_Cons' split: if_splits)
  qed
qed simp

text \<open>
  In the early-data period nothing beyond the lookahead has been touched, so that a retry reaches
  every datagram with a piece sent.
\<close>

definition look_limit :: "dqueue \<Rightarrow> nat" where
  "look_limit q = head_index q + (if packet_splitting q then split_lookahead q else 0)"

definition look_inv :: "dqueue \<Rightarrow> bool" where
  "look_inv q \<longleftrightarrow>
     (early_data_head q \<noteq> None \<longrightarrow> list_all (\<lambda>d. status d = Unsent) (drop (Suc (look_limit q)) (buf q)))"

lemma map_unsend_facts:
  "total_rem (map unsend ds) = total_len ds" "total_len (map unsend ds) = total_len ds"
  "list_all (storage_ok b) ds \<Longrightarrow> list_all (storage_ok b) (map unsend ds)"
  "map dgram_key (map unsend ds) = map dgram_key ds"
  "list_all (\<lambda>d. status d = Unsent) (map unsend ds)" "list_all ahead_ok (map unsend ds)"
  by (induction ds) (auto simp: unsend_def rem_bytes_def storage_ok_def dgram_key_def ahead_ok_def)

lemma early_data_retry_eq:
  assumes inv: "queue_inv q" and look: "look_inv q" and e: "early_data_head q = Some h"
  shows "early_data_retry q =
    q\<lparr>unsent_bytes := total_len (buf q), buf := map unsend (buf q), early_data_head := Some 0\<rparr>"
proof -
  have h: "head_index q = h" using e by (simp add: head_index_def)
  have "total_rem (buf q) \<le> total_len (buf q)"
    using inv by (intro total_rem_le) (auto simp: queue_inv_def)
  then have "retry_loop (Suc (look_limit q)) (unsent_bytes q) (buf q) = (total_len (buf q), map unsend (buf q))"
    using retry_loop_spec [of "packet_splitting q" "buf q" "unsent_bytes q" "Suc (look_limit q)"]
      inv look e by (simp add: queue_inv_def look_inv_def)
  then show ?thesis using e h by (simp add: early_data_retry_def look_limit_def)
qed

lemma early_data_retry_inv:
  assumes "queue_inv q" and "look_inv q" and "early_data_head q = Some h"
  shows "queue_inv (early_data_retry q)" and "look_inv (early_data_retry q)"
proof -
  have "list_all (\<lambda>d. status d = Unsent) (drop n (map unsend (buf q)))" for n
    by (auto simp: list_all_iff unsend_def drop_map)
  then show "look_inv (early_data_retry q)"
    by (simp add: early_data_retry_eq [OF assms] look_inv_def)
  have ok: "list_all (storage_ok (packet_splitting q)) (map unsend (buf q))"
    using assms(1) map_unsend_facts(3) by (simp add: queue_inv_def)
  show "queue_inv (early_data_retry q)"
    using assms(1) ok map_unsend_facts [where ds = "buf q"] tail_ok_ahead [of "map unsend (buf q)"]
    by (simp add: early_data_retry_eq [OF assms] queue_inv_def head_index_def)
qed

lemma early_data_end_inv:
  assumes "queue_inv q" and "look_inv q" and "early_data_head q = Some h"
  shows "queue_inv (early_data_end acc q)" and "early_data_head (early_data_end acc q) = None"
    and "buf (early_data_end acc q) = (if acc then drop h (buf q) else map unsend (buf q))"
    and "split_lookahead (early_data_end acc q) = split_lookahead q"
    and "packet_splitting (early_data_end acc q) = packet_splitting q"
proof -
  have h: "head_index q = h" using assms(3) by (simp add: head_index_def)
  show "early_data_head (early_data_end acc q) = None"
    "buf (early_data_end acc q) = (if acc then drop h (buf q) else map unsend (buf q))"
    "split_lookahead (early_data_end acc q) = split_lookahead q"
    "packet_splitting (early_data_end acc q) = packet_splitting q"
    using assms(3) by (simp_all add: early_data_end_def early_data_retry_eq [OF assms])
  show "queue_inv (early_data_end acc q)"
  proof (cases acc)
    case False
    have "queue_inv (early_data_retry q)" by (rule early_data_retry_inv [OF assms])
    then have "queue_inv ((early_data_retry q)\<lparr>early_data_head := None\<rparr>)"
      by (simp add: queue_inv_def early_data_retry_eq [OF assms] head_index_def)
    then show ?thesis using False assms(3) by (simp add: early_data_end_def)
  next
    case True
    have "total_rem (take h (buf q)) = 0"
      using assms(1) h by (auto simp: queue_inv_def intro: total_rem_sent)
    then have "total_rem (buf q) = total_rem (drop h (buf q))"
      using total_rem_simps(3) [of "take h (buf q)" "drop h (buf q)"] by simp
    moreover have "total_len (drop h (buf q)) \<le> total_len (buf q)"
      using total_len_simps(3) [of "take h (buf q)" "drop h (buf q)"] by simp
    moreover have "list_all (storage_ok (packet_splitting q)) (drop h (buf q))"
      using assms(1) by (auto simp: queue_inv_def list_all_iff dest: in_set_dropD)
    ultimately show ?thesis
      using True assms(1,3) h by (simp add: early_data_end_def queue_inv_def head_index_def)
  qed
qed

lemma emplace_inv:
  assumes "queue_inv q" and "length data < 65536" and "total_len (buf q) + length data < SIZE_MOD"
  shows "queue_inv (emplace data dgid keep q)" and "look_inv q \<Longrightarrow> look_inv (emplace data dgid keep q)"
proof -
  have le: "total_rem (buf q) \<le> total_len (buf q)"
    using assms(1) by (intro total_rem_le) (auto simp: queue_inv_def)
  have t: "tail_ok ds \<Longrightarrow> tail_ok (ds @ [storage_ctor data dgid keep])" for ds
    by (cases ds) (simp_all add: storage_ctor_def ahead_ok_def)
  have "sz_add (unsent_bytes q) (length data) = total_rem (buf q) + length data"
    using assms le by (simp add: sz_add_exact queue_inv_def)
  then show "queue_inv (emplace data dgid keep q)"
    using assms t [of "drop (head_index q) (buf q)"]
    by (simp add: emplace_def queue_inv_def) (simp add: storage_ctor_def rem_bytes_def storage_ok_def)
  show "look_inv q \<Longrightarrow> look_inv (emplace data dgid keep q)"
    by (auto simp: look_inv_def emplace_def look_limit_def storage_ctor_def list_all_iff drop_Cons' split: if_splits)
qed

section \<open>The queue against the wire\<close>

text \<open>
  A run of the queue together with what an observer sees: the datagrams accepted, the pieces put on
  the wire, the datagrams that left the queue as sent, the number dropped as unsendable, and the
  length of the wire when the early-data period began. When early data is rejected or retried, every
  piece sent since then is lost.
\<close>

record drun =
  rq :: dqueue
  accepted :: "(nat \<times> bytes) list"
  wire :: "(nat \<times> bytes) list"
  finished :: "(nat \<times> bytes) list"
  dropped_count :: nat
  early_mark :: nat

datatype dq_op =
    QEmplace bytes nat keep_alive
  | QTry nat bool
  | QSend nat bool
  | QEarlyBegin
  | QEarlyRetry
  | QEarlyEnd bool
  | QLookahead nat

definition count_dropped :: "dqueue \<Rightarrow> dqueue \<Rightarrow> nat" where
  "count_dropped q q' = length (buf q) - length (buf q')"

definition forget_early :: "drun \<Rightarrow> drun" where
  "forget_early r = (if early_data_head (rq r) = None then r else r\<lparr>wire := take (early_mark r) (wire r)\<rparr>)"

fun dq_step :: "dq_op \<Rightarrow> drun \<Rightarrow> drun option" where
  "dq_step (QEmplace data dgid keep) r =
     Some (r\<lparr>rq := emplace data dgid keep (rq r), accepted := accepted r @ [(dgid, data)]\<rparr>)"
| "dq_step (QTry m small) r =
     (case fetch m small (rq r) of
        None \<Rightarrow> None
      | Some (_, q) \<Rightarrow> Some (r\<lparr>rq := q, dropped_count := dropped_count r + count_dropped (rq r) q\<rparr>))"
| "dq_step (QSend m small) r =
     (case fetch m small (rq r) of
        None \<Rightarrow> None
      | Some (None, q) \<Rightarrow> Some (r\<lparr>rq := q, dropped_count := dropped_count r + count_dropped (rq r) q\<rparr>)
      | Some (Some p, q) \<Rightarrow>
          (case confirm_sent q of
             None \<Rightarrow> None
           | Some q' \<Rightarrow>
               Some (r\<lparr>dropped_count := dropped_count r + count_dropped (rq r) q, rq := q',
                       wire := wire r @ [(prep_id p, prep_data p)],
                       finished := finished r @ (if length (buf q') < length (buf q) then [dgram_key (hd (buf q))] else [])\<rparr>)))"
| "dq_step QEarlyBegin r =
     (case early_data_begin (rq r) of
        None \<Rightarrow> None
      | Some q \<Rightarrow> Some (r\<lparr>rq := q, early_mark := length (wire r)\<rparr>))"
| "dq_step QEarlyRetry r = Some ((forget_early r)\<lparr>rq := early_data_retry (rq r)\<rparr>)"
| "dq_step (QEarlyEnd acc) r =
     Some ((if acc then r\<lparr>finished := finished r @ map dgram_key (take (head_index (rq r)) (buf (rq r)))\<rparr>
            else forget_early r)\<lparr>rq := early_data_end acc (rq r)\<rparr>)"
| "dq_step (QLookahead n) r = Some (r\<lparr>rq := (rq r)\<lparr>split_lookahead := n\<rparr>\<rparr>)"

text \<open>
  The callers' obligations: datagrams and pieces shorter than \<open>2 ^ 16\<close> bytes, early data begun on an
  empty queue, and no lowering of the lookahead during the early-data period.
\<close>

fun dq_ok :: "dq_op \<Rightarrow> drun \<Rightarrow> bool" where
  "dq_ok (QEmplace data dgid keep) r \<longleftrightarrow>
     length data < 65536 \<and> total_len (buf (rq r)) + length data < SIZE_MOD"
| "dq_ok (QTry m small) r \<longleftrightarrow> m < 65536"
| "dq_ok (QSend m small) r \<longleftrightarrow> m < 65536"
| "dq_ok QEarlyBegin r \<longleftrightarrow> buf (rq r) = []"
| "dq_ok (QLookahead n) r \<longleftrightarrow> early_data_head (rq r) = None \<or> split_lookahead (rq r) \<le> n"
| "dq_ok _ r \<longleftrightarrow> True"

text \<open>A datagram is on the wire whole, or as its two pieces.\<close>

definition on_wire :: "(nat \<times> bytes) list \<Rightarrow> nat \<times> bytes \<Rightarrow> bool" where
  "on_wire w d \<longleftrightarrow> d \<in> set w \<or>
     (\<exists>k. (fst d OR DGID_SPLIT_FIRST, take k (snd d)) \<in> set w \<and>
          (fst d OR DGID_SPLIT_SECOND, drop k (snd d)) \<in> set w)"

definition wire_ok :: "(nat \<times> bytes) list \<Rightarrow> storage \<Rightarrow> bool" where
  "wire_ok w d \<longleftrightarrow>
     (case status d of
        Unsent \<Rightarrow> True
      | SentFirst \<Rightarrow> (base_dgid d OR DGID_SPLIT_FIRST, take (split_pos d) (payload d)) \<in> set w
      | SentSecond \<Rightarrow> (base_dgid d OR DGID_SPLIT_SECOND, drop (split_pos d) (payload d)) \<in> set w
      | Sent \<Rightarrow> on_wire w (dgram_key d))"

definition drun_inv :: "drun \<Rightarrow> bool" where
  "drun_inv r \<longleftrightarrow>
     queue_inv (rq r) \<and> look_inv (rq r) \<and>
     list_all (wire_ok (wire r)) (buf (rq r)) \<and>
     list_all (on_wire (wire r)) (finished r) \<and>
     (early_data_head (rq r) \<noteq> None \<longrightarrow>
        early_mark r \<le> length (wire r) \<and> list_all (on_wire (take (early_mark r) (wire r))) (finished r)) \<and>
     subseq (finished r @ map dgram_key (buf (rq r))) (accepted r) \<and>
     length (finished r) + length (buf (rq r)) + dropped_count r = length (accepted r)"

lemma on_wire_mono: "on_wire w d \<Longrightarrow> set w \<subseteq> set w' \<Longrightarrow> on_wire w' d"
  by (auto simp: on_wire_def)

lemma wire_ok_mono: "wire_ok w d \<Longrightarrow> set w \<subseteq> set w' \<Longrightarrow> wire_ok w' d"
  by (auto simp: wire_ok_def on_wire_mono split: SendStatus.splits)

lemma list_all_on_wire_mono: "list_all (on_wire w) ds \<Longrightarrow> set w \<subseteq> set w' \<Longrightarrow> list_all (on_wire w') ds"
  by (auto simp: list_all_iff intro: on_wire_mono)

lemma list_all_wire_ok_mono: "list_all (wire_ok w) ds \<Longrightarrow> set w \<subseteq> set w' \<Longrightarrow> list_all (wire_ok w') ds"
  by (auto simp: list_all_iff intro: wire_ok_mono)

lemma wire_ok_resplit:
  assumes "list_all (wire_ok w) ds" and "j < length ds \<longrightarrow> status (ds ! j) = Unsent \<or> k = split_pos (ds ! j)"
  shows "list_all (wire_ok w) (resplit j k ds)"
proof (cases "j < length ds")
  case True
  then have "wire_ok w (ds ! j)" "status (ds ! j) = Unsent \<or> k = split_pos (ds ! j)"
    using assms by (auto simp: list_all_length)
  then have "wire_ok w ((ds ! j)\<lparr>split_pos := k\<rparr>)"
    by (cases "status (ds ! j)") (auto simp: wire_ok_def dgram_key_def)
  then show ?thesis using assms(1) True by (intro list_all_resplit)
next
  case False
  then show ?thesis using assms(1) by (simp add: resplit_def list_update_beyond)
qed

text \<open>After the confirmation the datagram's record agrees with the wire.\<close>

lemma wire_ok_confirmed:
  assumes pend: "pend_ok q p" and ok: "wire_ok w (buf q ! last_i q)"
  shows "wire_ok (w @ [(prep_id p, prep_data p)]) (confirmed q)"
proof -
  let ?d = "buf q ! last_i q"
  have *: "on_wire (w @ [(prep_id p, prep_data p)]) (dgram_key (confirmed q))"
    if "last_sent q = SentFirst" "status ?d = SentSecond"
    using pend ok that unfolding on_wire_def
    by (intro disjI2 exI [of _ "split_pos ?d"]) (simp add: pend_ok_def wire_ok_def confirmed_def dgram_key_def Let_def)
  have **: "on_wire (w @ [(prep_id p, prep_data p)]) (dgram_key (confirmed q))"
    if "last_sent q = SentSecond" "status ?d = SentFirst"
    using pend ok that unfolding on_wire_def
    by (intro disjI2 exI [of _ "split_pos ?d"]) (simp add: pend_ok_def wire_ok_def confirmed_def dgram_key_def Let_def)
  have ***: "on_wire (w @ [(prep_id p, prep_data p)]) (dgram_key (confirmed q))" if "last_sent q = Sent"
    using pend that unfolding on_wire_def
    by (intro disjI1) (simp add: pend_ok_def confirmed_def dgram_key_def Let_def)
  show ?thesis
    using pend * ** ***
    by (cases "last_sent q"; cases "status ?d")
      (auto simp: pend_ok_def confirmed_def wire_ok_def ahead_ok_def Let_def)
qed

lemma look_inv_resplit:
  assumes "look_inv q" and "buf q = dropped @ es" and "dropped \<noteq> [] \<longrightarrow> head_index q = 0"
    and "early_data_head q' = early_data_head q" and "packet_splitting q' = packet_splitting q"
    and "split_lookahead q' = split_lookahead q" and "buf q' = resplit j k es"
  shows "look_inv q'"
proof (cases "early_data_head q")
  case (Some h)
  let ?n = "Suc (look_limit q)"
  have lim: "look_limit q' = look_limit q"
    using assms by (simp add: look_limit_def head_index_def)
  have "list_all (\<lambda>d. status d = Unsent) (drop ?n (dropped @ es))"
    using assms(1,2) Some by (simp add: look_inv_def)
  moreover have "set (drop ?n es) \<subseteq> set (drop ?n (dropped @ es))"
    using set_drop_subset_set_drop [of "?n - length dropped" ?n es] by auto
  ultimately have "list_all (\<lambda>s. s = Unsent) (map status (drop ?n es))"
    unfolding list_all_iff by auto
  then have "list_all (\<lambda>s. s = Unsent) (drop ?n (map status (buf q')))"
    using assms(7) by (simp add: drop_map resplit_statuses)
  then show ?thesis using lim by (simp add: look_inv_def drop_map list_all_iff)
qed (use assms in \<open>simp add: look_inv_def\<close>)

lemma subseq_drop_mid: "subseq (xs @ ds @ es) ys \<Longrightarrow> subseq (xs @ es) ys"
proof (rule subseq_order.order_trans)
  show "subseq (xs @ es) (xs @ ds @ es)"
    by (rule list_emb_append_mono, simp, rule list_emb_append2) simp
qed

text \<open>A fetch that is not confirmed.\<close>

lemma drun_fetch:
  assumes inv: "drun_inv r" and m: "m < 65536"
  obtains p q where "fetch m small (rq r) = Some (p, q)"
    and "drun_inv (r\<lparr>rq := q, dropped_count := dropped_count r + count_dropped (rq r) q\<rparr>)"
    and "case p of None \<Rightarrow> True | Some p \<Rightarrow> pend_ok q p \<and> last_i q \<le> head_index q + split_lookahead q"
proof -
  have qi: "queue_inv (rq r)" using inv by (simp add: drun_inv_def)
  obtain p q dropped es j k where f: "fetch m small (rq r) = Some (p, q)" "queue_inv q"
    "early_data_head q = early_data_head (rq r)" "packet_splitting q = packet_splitting (rq r)"
    "split_lookahead q = split_lookahead (rq r)"
    "buf (rq r) = dropped @ es" "dropped \<noteq> [] \<longrightarrow> head_index (rq r) = 0"
    "list_all (unsendable m (packet_splitting (rq r))) dropped"
    "buf q = resplit j k es" "j < length es \<longrightarrow> status (es ! j) = Unsent \<or> k = split_pos (es ! j)"
    "case p of None \<Rightarrow> queue_empty q | Some p \<Rightarrow> pend_ok q p \<and> last_i q \<le> head_index q + split_lookahead q"
    by (rule fetch_spec [OF qi m, of small])
  have "look_inv q"
    by (rule look_inv_resplit [OF _ f(6,7,3,4,5,9)]) (use inv in \<open>simp add: drun_inv_def\<close>)
  moreover have "list_all (wire_ok (wire r)) (buf q)"
    unfolding f(9) by (rule wire_ok_resplit [OF _ f(10)]) (use inv f(6) in \<open>simp add: drun_inv_def\<close>)
  moreover have "subseq (finished r @ map dgram_key (buf q)) (accepted r)"
    using inv f(6,9) by (auto simp: drun_inv_def resplit_keys intro: subseq_drop_mid)
  moreover have "length (finished r) + length (buf q) + (dropped_count r + count_dropped (rq r) q) = length (accepted r)"
    using inv f(6,9) by (simp add: drun_inv_def count_dropped_def)
  ultimately have "drun_inv (r\<lparr>rq := q, dropped_count := dropped_count r + count_dropped (rq r) q\<rparr>)"
    using inv f(2,3) by (simp add: drun_inv_def)
  then show thesis using that f(1,11) by (auto split: option.splits)
qed

text \<open>The lookahead bound after a confirmation.\<close>

lemma look_inv_confirm:
  assumes look: "look_inv q" and pend: "pend_ok q p" and lim: "last_i q \<le> head_index q + split_lookahead q"
    and q': "early_data_head q' \<noteq> None \<Longrightarrow> look_limit q \<le> look_limit q' \<and> buf q' = (buf q)[last_i q := confirmed q]"
    and e: "early_data_head q' \<noteq> None \<Longrightarrow> early_data_head q \<noteq> None"
  shows "look_inv q'"
proof (cases "early_data_head q' = None")
  case False
  have "last_i q \<le> look_limit q"
  proof (cases "packet_splitting q")
    case True
    then show ?thesis using lim by (simp add: look_limit_def)
  next
    case False
    then show ?thesis using pend by (cases "last_sent q") (auto simp: pend_ok_def look_limit_def Let_def)
  qed
  then have "drop (Suc (look_limit q')) (buf q') = drop (Suc (look_limit q')) (buf q)"
    using q' [OF False] by simp
  moreover have "set (drop (Suc (look_limit q')) (buf q)) \<subseteq> set (drop (Suc (look_limit q)) (buf q))"
    using q' [OF False] by (intro set_drop_subset_set_drop) simp
  ultimately show ?thesis
    using look e [OF False] unfolding look_inv_def list_all_iff by auto
qed (simp add: look_inv_def)

text \<open>A fetch that is confirmed.\<close>

lemma confirm_keys:
  assumes "queue_inv q" and "pend_ok q p"
  shows "map dgram_key ((buf q)[last_i q := confirmed q]) = map dgram_key (buf q)"
  by (rule map_update_same) (rule confirmed_spec(6) [OF assms])

lemma drun_confirm:
  assumes inv: "drun_inv r" and pend: "pend_ok (rq r) p"
    and lim: "last_i (rq r) \<le> head_index (rq r) + split_lookahead (rq r)"
  shows "\<exists>q'. confirm_sent (rq r) = Some q' \<and>
    drun_inv (r\<lparr>rq := q', wire := wire r @ [(prep_id p, prep_data p)],
      finished := finished r @ (if length (buf q') < length (buf (rq r)) then [dgram_key (hd (buf (rq r)))] else [])\<rparr>)"
proof -
  let ?q = "rq r" and ?w = "wire r @ [(prep_id p, prep_data p)]" and ?c = "confirmed (rq r)"
  let ?b = "(buf ?q)[last_i ?q := ?c]"
  have qi: "queue_inv ?q" and li: "look_inv ?q" using inv by (auto simp: drun_inv_def)
  obtain q' where q': "confirm_sent ?q = Some q'" "queue_inv q'" "packet_splitting q' = packet_splitting ?q"
    "split_lookahead q' = split_lookahead ?q"
    and cases: "let b = ?b
     in if \<not> sent ?c then buf q' = b \<and> early_data_head q' = early_data_head ?q
        else case early_data_head ?q of
          None \<Rightarrow> early_data_head q' = None \<and> b = ?c # buf q'
        | Some h \<Rightarrow> early_data_head q' = Some (h + 1) \<and> buf q' = b"
    using confirm_sent_spec [OF qi pend] by blast
  have l: "last_i ?q < length (buf ?q)" using pend by (simp add: pend_ok_def)
  have keys: "map dgram_key ?b = map dgram_key (buf ?q)" by (rule confirm_keys [OF qi pend])
  have wc: "wire_ok ?w ?c"
    using wire_ok_confirmed [OF pend] inv l by (simp add: drun_inv_def list_all_length)
  have "list_all (wire_ok ?w) (buf ?q)" and fin: "list_all (on_wire ?w) (finished r)"
    using inv by (auto simp: drun_inv_def intro: list_all_wire_ok_mono list_all_on_wire_mono)
  then have wb: "list_all (wire_ok ?w) ?b"
    using wc l by (auto simp: list_all_length nth_list_update)
  have look: "look_inv q'"
    by (rule look_inv_confirm [OF li pend lim])
      (use cases q' in \<open>auto simp: look_limit_def head_index_def Let_def split: if_splits option.splits\<close>)
  show ?thesis
  proof (cases "sent ?c \<and> early_data_head ?q = None")
    case True
    then have b: "?b = ?c # buf q'" "early_data_head q' = None" using cases by (auto simp: Let_def)
    have len: "length (buf ?q) = Suc (length (buf q'))" using arg_cong [OF b(1), of length] by simp
    have key: "map dgram_key (buf ?q) = dgram_key (hd (buf ?q)) # map dgram_key (buf q')" and
      hd: "dgram_key (hd (buf ?q)) = dgram_key ?c"
      using keys unfolding b(1) by (cases "buf ?q"; auto)+
    have "on_wire ?w (dgram_key ?c)" using wc True by (simp add: wire_ok_def sent_def)
    then show ?thesis
      using q' b look wb fin inv key len unfolding b(1) hd by (simp add: drun_inv_def)
  next
    case False
    then have b: "buf q' = ?b" "early_data_head q' = None \<longleftrightarrow> early_data_head ?q = None"
      using cases by (auto simp: Let_def split: if_splits option.splits)
    have "early_mark r \<le> length ?w \<and> list_all (on_wire (take (early_mark r) ?w)) (finished r)"
      if "early_data_head q' \<noteq> None"
      using inv that b(2) by (simp add: drun_inv_def)
    moreover have "length (buf q') = length (buf ?q)" "map dgram_key (buf q') = map dgram_key (buf ?q)"
      using b(1) keys by simp_all
    moreover have "list_all (wire_ok ?w) (buf q')" using b(1) wb by simp
    ultimately have "drun_inv (r\<lparr>rq := q', wire := ?w\<rparr>)"
      using q'(2) look fin inv by (simp add: drun_inv_def)
    then show ?thesis
      using q'(1) \<open>length (buf q') = length (buf ?q)\<close> by simp
  qed
qed

text \<open>The remaining operations.\<close>

lemma forget_early_facts [simp]:
  "rq (forget_early r) = rq r" "accepted (forget_early r) = accepted r"
  "finished (forget_early r) = finished r" "dropped_count (forget_early r) = dropped_count r"
  "early_mark (forget_early r) = early_mark r"
  by (simp_all add: forget_early_def)

lemma key_unsend [simp]: "dgram_key \<circ> unsend = dgram_key"
  by (simp add: fun_eq_iff dgram_key_def unsend_def)

lemma wire_ok_unsend: "list_all (wire_ok w) (map unsend ds)"
  by (simp add: list_all_iff wire_ok_def unsend_def)

lemma drun_forget:
  assumes inv: "drun_inv r" and e: "early_data_head (rq r) = Some h"
  shows "list_all (on_wire (wire (forget_early r))) (finished r)"
    and "early_mark r \<le> length (wire (forget_early r))"
    and "list_all (on_wire (take (early_mark r) (wire (forget_early r)))) (finished r)"
  using assms by (simp_all add: drun_inv_def forget_early_def)

lemma drun_retry:
  assumes inv: "drun_inv r"
  shows "drun_inv ((forget_early r)\<lparr>rq := early_data_retry (rq r)\<rparr>)"
proof (cases "early_data_head (rq r)")
  case None
  then show ?thesis using inv by (simp add: early_data_retry_def forget_early_def)
next
  case (Some h)
  have qi: "queue_inv (rq r)" "look_inv (rq r)" using inv by (auto simp: drun_inv_def)
  note eq = early_data_retry_eq [OF qi Some]
  have "buf (early_data_retry (rq r)) = map unsend (buf (rq r))" by (simp add: eq)
  then show ?thesis
    using inv early_data_retry_inv [OF qi Some] drun_forget [OF inv Some]
      wire_ok_unsend
    by (simp add: drun_inv_def)
qed

lemma drun_early_end:
  assumes inv: "drun_inv r"
  shows "\<exists>r'. dq_step (QEarlyEnd acc) r = Some r' \<and> drun_inv r'"
proof (cases "early_data_head (rq r)")
  case None
  then show ?thesis using inv by (simp add: early_data_end_def head_index_def forget_early_def)
next
  case (Some h)
  have qi: "queue_inv (rq r)" "look_inv (rq r)" and h: "head_index (rq r) = h"
    using inv Some by (auto simp: drun_inv_def head_index_def)
  note ee = early_data_end_inv [OF qi Some, of acc]
  have look: "look_inv (early_data_end acc (rq r))" using ee(2) by (simp add: look_inv_def)
  show ?thesis
  proof (cases acc)
    case False
    then show ?thesis
      using inv ee look drun_forget [OF inv Some] wire_ok_unsend
      by (simp add: drun_inv_def)
  next
    case True
    have "list_all sent (take h (buf (rq r)))" "list_all (wire_ok (wire r)) (take h (buf (rq r)))"
      "list_all (wire_ok (wire r)) (drop h (buf (rq r)))"
      using inv h by (auto simp: drun_inv_def queue_inv_def list_all_iff dest: in_set_takeD in_set_dropD)
    then have "list_all (on_wire (wire r)) (map dgram_key (take h (buf (rq r))))"
      by (auto simp: list_all_iff wire_ok_def sent_def)
    moreover have "map dgram_key (take h (buf (rq r))) @ map dgram_key (drop h (buf (rq r))) = map dgram_key (buf (rq r))"
      by (simp flip: map_append)
    moreover have "h \<le> length (buf (rq r))" using qi h by (simp add: queue_inv_def)
    ultimately show ?thesis
      using inv ee look True h \<open>list_all (wire_ok (wire r)) (drop h (buf (rq r)))\<close>
      by (simp add: drun_inv_def)
  qed
qed

lemma look_inv_raise:
  assumes "look_inv q" and "early_data_head q = None \<or> split_lookahead q \<le> n"
  shows "look_inv (q\<lparr>split_lookahead := n\<rparr>)"
proof (cases "early_data_head q = None")
  case False
  let ?q = "q\<lparr>split_lookahead := n\<rparr>"
  have "set (drop (Suc (look_limit ?q)) (buf q)) \<subseteq> set (drop (Suc (look_limit q)) (buf q))"
    using assms(2) False by (intro set_drop_subset_set_drop) (simp add: look_limit_def)
  then show ?thesis using assms(1) False unfolding look_inv_def list_all_iff by auto
qed (simp add: look_inv_def)

lemma drun_step:
  assumes inv: "drun_inv r" and ok: "dq_ok x r"
  shows "\<exists>r'. dq_step x r = Some r' \<and> drun_inv r'"
proof (cases x)
  case (QEmplace data dgid keep)
  have "subseq (finished r @ map dgram_key (buf (rq r)) @ [(dgid, data)]) (accepted r @ [(dgid, data)])"
    using inv list_emb_append_mono [of "(=)" "finished r @ map dgram_key (buf (rq r))" "accepted r" "[(dgid, data)]"]
    by (simp add: drun_inv_def)
  then show ?thesis
    using inv ok QEmplace emplace_inv [of "rq r" data dgid keep]
    by (simp add: drun_inv_def) (simp add: emplace_def storage_ctor_def dgram_key_def wire_ok_def)
next
  case (QTry m small)
  then show ?thesis using drun_fetch [OF inv, of m small] ok by fastforce
next
  case (QSend m small)
  then have m: "m < 65536" using ok by simp
  obtain p q where f: "fetch m small (rq r) = Some (p, q)"
    and i: "drun_inv (r\<lparr>rq := q, dropped_count := dropped_count r + count_dropped (rq r) q\<rparr>)"
    and c: "case p of None \<Rightarrow> True | Some p \<Rightarrow> pend_ok q p \<and> last_i q \<le> head_index q + split_lookahead q"
    by (rule drun_fetch [OF inv m, of small])
  show ?thesis
  proof (cases p)
    case None
    then show ?thesis using f i QSend by simp
  next
    case (Some p')
    then show ?thesis using drun_confirm [OF i, of p'] c f QSend by auto
  qed
next
  case QEarlyBegin
  then show ?thesis
    using inv ok by (simp add: early_data_begin_def drun_inv_def queue_inv_def look_inv_def head_index_def)
next
  case QEarlyRetry
  then show ?thesis using drun_retry [OF inv] by simp
next
  case (QEarlyEnd acc)
  then show ?thesis using drun_early_end [OF inv] by simp
next
  case (QLookahead n)
  have "look_inv ((rq r)\<lparr>split_lookahead := n\<rparr>)"
    using inv ok QLookahead by (intro look_inv_raise) (simp_all add: drun_inv_def)
  then show ?thesis using inv QLookahead by (simp add: drun_inv_def queue_inv_def)
qed

definition drun_init :: "bool \<Rightarrow> drun" where
  "drun_init splitting =
     \<lparr>rq = queue_ctor splitting, accepted = [], wire = [], finished = [], dropped_count = 0, early_mark = 0\<rparr>"

lemma drun_init_inv: "drun_inv (drun_init splitting)"
  by (simp add: drun_init_def drun_inv_def queue_ctor_def queue_inv_def look_inv_def head_index_def)

interpretation dgram_sys: op_system dq_step dq_ok drun_inv
  by unfold_locales (rule drun_step)

section \<open>Draining\<close>

definition pieces_left :: "storage \<Rightarrow> nat" where
  "pieces_left d = (case status d of Unsent \<Rightarrow> 2 | SentFirst \<Rightarrow> 1 | SentSecond \<Rightarrow> 1 | Sent \<Rightarrow> 0)"

definition total_pieces :: "storage list \<Rightarrow> nat" where
  "total_pieces ds = sum_list (map pieces_left ds)"

lemma total_pieces_simps [simp]:
  "total_pieces [] = 0" "total_pieces (d # ds) = pieces_left d + total_pieces ds"
  "total_pieces (ds @ es) = total_pieces ds + total_pieces es"
  by (simp_all add: total_pieces_def)

lemma total_pieces_le: "total_pieces ds \<le> 2 * length ds"
  by (induction ds) (auto simp: pieces_left_def split: SendStatus.splits)

lemma total_pieces_resplit: "total_pieces (resplit j k ds) = total_pieces ds"
  unfolding total_pieces_def by (subst resplit_map) (simp_all add: pieces_left_def)

lemma total_pieces_update:
  "j < length ds \<Longrightarrow> pieces_left d < pieces_left (ds ! j) \<Longrightarrow> total_pieces (ds[j := d]) < total_pieces ds"
proof -
  assume j: "j < length ds" and p: "pieces_left d < pieces_left (ds ! j)"
  have "total_pieces (ds[j := d]) = total_pieces (take j ds) + pieces_left d + total_pieces (drop (Suc j) ds)"
    using j by (simp add: upd_conv_take_nth_drop)
  moreover have "total_pieces ds = total_pieces (take j ds) + pieces_left (ds ! j) + total_pieces (drop (Suc j) ds)"
    by (subst id_take_nth_drop [OF j]) simp
  ultimately show ?thesis using p by simp
qed

lemma no_pieces_empty:
  assumes "queue_inv q" and "total_pieces (buf q) = 0"
  shows "queue_empty q"
proof (rule ccontr)
  assume "\<not> queue_empty q"
  then have h: "head_index q < length (buf q)" by (simp add: queue_empty_def)
  then have "status (buf q ! head_index q) \<noteq> Sent" by (rule drop_head(3) [OF assms(1)])
  moreover have "pieces_left (buf q ! head_index q) = 0"
    using assms(2) h by (auto simp: total_pieces_def)
  ultimately show False by (cases "status (buf q ! head_index q)") (simp_all add: pieces_left_def)
qed

lemma confirm_progress:
  assumes "queue_inv q" "pend_ok q p" "confirm_sent q = Some q'"
  shows "total_pieces (buf q') < total_pieces (buf q)"
proof -
  have c: "let b = (buf q)[last_i q := confirmed q]
       in if \<not> sent (confirmed q) then buf q' = b \<and> early_data_head q' = early_data_head q
          else case early_data_head q of
            None \<Rightarrow> early_data_head q' = None \<and> b = confirmed q # buf q'
          | Some h \<Rightarrow> early_data_head q' = Some (h + 1) \<and> buf q' = b"
    using confirm_sent_spec [OF assms(1,2)] assms(3) by auto
  have "pieces_left (confirmed q) < pieces_left (buf q ! last_i q)"
    using assms(2) by (cases "last_sent q"; cases "status (buf q ! last_i q)")
      (auto simp: pend_ok_def confirmed_def pieces_left_def ahead_ok_def Let_def)
  then have "total_pieces ((buf q)[last_i q := confirmed q]) < total_pieces (buf q)"
    using assms(2) by (intro total_pieces_update) (simp_all add: pend_ok_def)
  then show ?thesis using c by (auto simp: Let_def split: if_splits option.splits)
qed

lemma send_progress:
  assumes inv: "drun_inv r" and m: "m < 65536" and s: "dq_step (QSend m small) r = Some r'"
  shows "total_pieces (buf (rq r')) < total_pieces (buf (rq r)) \<or>
    queue_empty (rq r') \<and> total_pieces (buf (rq r')) \<le> total_pieces (buf (rq r))"
proof -
  have qi: "queue_inv (rq r)" using inv by (simp add: drun_inv_def)
  obtain p q dropped es j k where f: "fetch m small (rq r) = Some (p, q)" "queue_inv q"
    "early_data_head q = early_data_head (rq r)" "packet_splitting q = packet_splitting (rq r)"
    "split_lookahead q = split_lookahead (rq r)"
    "buf (rq r) = dropped @ es" "dropped \<noteq> [] \<longrightarrow> head_index (rq r) = 0"
    "list_all (unsendable m (packet_splitting (rq r))) dropped"
    "buf q = resplit j k es" "j < length es \<longrightarrow> status (es ! j) = Unsent \<or> k = split_pos (es ! j)"
    "case p of None \<Rightarrow> queue_empty q | Some p \<Rightarrow> pend_ok q p \<and> last_i q \<le> head_index q + split_lookahead q"
    by (rule fetch_spec [OF qi m, of small])
  have le: "total_pieces (buf q) \<le> total_pieces (buf (rq r))"
    using f(6,9) by (simp add: total_pieces_resplit)
  show ?thesis
  proof (cases p)
    case None
    then have "rq r' = q" using s f(1) by auto
    then show ?thesis using None f(11) le by simp
  next
    case (Some p')
    then have pend: "pend_ok q p'" using f(11) by simp
    obtain q' where q': "confirm_sent q = Some q'" using confirm_sent_spec [OF f(2) pend] by blast
    have "total_pieces (buf q') < total_pieces (buf q)" by (rule confirm_progress [OF f(2) pend q'])
    moreover have "rq r' = q'" using s f(1) q' Some by auto
    ultimately show ?thesis using le by simp
  qed
qed

lemma empty_no_pieces:
  assumes "queue_inv q" and "queue_empty q"
  shows "total_pieces (buf q) = 0"
proof -
  have "list_all sent (buf q)" using assms by (simp add: queue_inv_def queue_empty_def)
  then show ?thesis by (induction "buf q") (auto simp: total_pieces_def list_all_iff pieces_left_def sent_def)
qed

lemma drain:
  assumes "drun_inv r" and "m < 65536" and "total_pieces (buf (rq r)) \<le> n"
  shows "\<exists>r'. run_ops dq_step (replicate n (QSend m small)) r = Some r' \<and> queue_empty (rq r') \<and> drun_inv r'"
  using assms
proof (induction n arbitrary: r)
  case 0
  then show ?case using no_pieces_empty by (simp add: drun_inv_def)
next
  case (Suc n)
  obtain r1 where r1: "dq_step (QSend m small) r = Some r1" "drun_inv r1"
    using drun_step [OF Suc.prems(1), of "QSend m small"] Suc.prems(2) by auto
  have "queue_inv (rq r1)" using r1(2) by (simp add: drun_inv_def)
  then have "total_pieces (buf (rq r1)) \<le> n"
    using send_progress [OF Suc.prems(1,2) r1(1)] Suc.prems(3) empty_no_pieces by fastforce
  then show ?case using Suc.IH [OF r1(2) Suc.prems(2)] r1(1) by simp
qed

section \<open>Properties\<close>

lemmas queue_eval = drun_init_def queue_ctor_def emplace_def storage_ctor_def fetch_def pick_def
  fetch_head_def confirm_sent_def sent_def unsendable_def storage_unsent_size_def head_index_def
  prepared_ctor_def count_dropped_def sz_add_def sz_sub_def sent_second_iff DGID_SPLIT_FIRST_def
  DGID_SPLIT_SECOND_def dgram_key_def early_data_begin_def early_data_retry_def early_data_end_def
  unsend_def forget_early_def DEFAULT_SPLIT_LOOKAHEAD_def Let_def

text \<open>
  No assertion of the datagram queue fails (in particular a datagram sent by lookahead never
  completes ahead of an earlier one) and its invariant holds, whatever the sequence of queueing,
  fetching, confirming and early-data operations, for datagrams and pieces below \<open>2 ^ 16\<close> bytes.
\<close>

theorem dgram_queue_never_fails:
  assumes "ops_ok dq_step dq_ok ops (drun_init splitting)"
  shows "\<exists>r. run_ops dq_step ops (drun_init splitting) = Some r \<and> queue_inv (rq r)"
  using dgram_sys.run_inv [OF drun_init_inv assms] by (auto simp: drun_inv_def)

theorem dgram_queue_never_fails_witness:
  "\<exists>r. run_ops dq_step [QEarlyBegin, QEmplace [1, 2, 3] 4 None, QSend 2 True, QEarlyRetry, QSend 2 False, QEarlyEnd True]
      (drun_init True) = Some r \<and> queue_inv (rq r)"
  by (rule dgram_queue_never_fails) (simp add: queue_eval)

text \<open>
  C16: datagrams leave the queue in the order they were queued, none twice, and each of them went out
  on the wire either whole or as its two pieces, which join to the datagram's payload. The ones that
  did not leave as sent are still queued, unless they were dropped as too big. Pieces sent as early
  data that is rejected do not count: those datagrams are sent again.
\<close>

theorem dgram_queue_delivery:
  assumes "ops_ok dq_step dq_ok ops (drun_init splitting)"
    and "run_ops dq_step ops (drun_init splitting) = Some r"
  shows "list_all (on_wire (wire r)) (finished r) \<and>
    subseq (finished r @ map dgram_key (buf (rq r))) (accepted r) \<and>
    (dropped_count r = 0 \<longrightarrow> accepted r = finished r @ map dgram_key (buf (rq r)))"
proof -
  have "drun_inv r" by (rule dgram_sys.run_result [OF drun_init_inv assms])
  then show ?thesis
    by (auto simp: drun_inv_def dest!: subseq_same_length)
qed

theorem dgram_queue_delivery_witness:
  "\<exists>r. run_ops dq_step [QEmplace [1, 2, 3] 4 None, QEmplace [5] 8 None, QSend 2 True, QSend 2 False] (drun_init True)
      = Some r \<and> list_all (on_wire (wire r)) (finished r) \<and> finished r = [(4, [1, 2, 3])]"
proof -
  let ?ops = "[QEmplace [1, 2, 3] 4 None, QEmplace [5] 8 None, QSend 2 True, QSend 2 False]"
  have ok: "ops_ok dq_step dq_ok ?ops (drun_init True)" by (simp add: queue_eval)
  obtain r where r: "run_ops dq_step ?ops (drun_init True) = Some r"
    using dgram_sys.run_inv [OF drun_init_inv ok] by blast
  have "map_option finished (run_ops dq_step ?ops (drun_init True)) = Some [(4, [1, 2, 3])]"
    by (simp add: queue_eval)
  then have "finished r = [(4, [1, 2, 3])]" unfolding r by simp
  then show ?thesis using dgram_queue_delivery [OF ok r] r by blast
qed

text \<open>
  The byte count of the queue, on which the queue limit of the channel rests, is exact: it is the
  number of bytes of the pieces that are still to be sent.
\<close>

theorem dgram_pending_bytes_exact:
  assumes "ops_ok dq_step dq_ok ops (drun_init splitting)"
    and "run_ops dq_step ops (drun_init splitting) = Some r"
  shows "pending_bytes (rq r) = total_rem (buf (rq r)) \<and> (queue_empty (rq r) \<longrightarrow> pending_bytes (rq r) = 0)"
proof -
  have inv: "queue_inv (rq r)"
    using dgram_sys.run_result [OF drun_init_inv assms] by (simp add: drun_inv_def)
  have "total_rem (buf (rq r)) = 0" if "queue_empty (rq r)"
    using inv that by (intro total_rem_sent) (simp add: queue_inv_def queue_empty_def)
  then show ?thesis using inv by (simp add: pending_bytes_def queue_inv_def)
qed

theorem dgram_pending_bytes_exact_witness:
  "\<exists>r. run_ops dq_step [QEmplace [1, 2, 3] 4 None, QSend 2 True] (drun_init True) = Some r \<and>
     pending_bytes (rq r) = total_rem (buf (rq r))"
proof -
  let ?ops = "[QEmplace [1, 2, 3] 4 None, QSend 2 True]"
  have ok: "ops_ok dq_step dq_ok ?ops (drun_init True)" by (simp add: queue_eval)
  obtain r where r: "run_ops dq_step ?ops (drun_init True) = Some r"
    using dgram_sys.run_inv [OF drun_init_inv ok] by blast
  then show ?thesis using dgram_pending_bytes_exact [OF ok r] by blast
qed

text \<open>
  The queue drains. From any reachable state, as many confirmed sends as there are pieces left
  (at most two per datagram), with any hint for small pieces, leave nothing to be sent.
\<close>

theorem dgram_queue_drains:
  assumes "ops_ok dq_step dq_ok ops (drun_init splitting)"
    and "run_ops dq_step ops (drun_init splitting) = Some r" and "m < 65536"
    and "2 * length (buf (rq r)) \<le> n"
  shows "\<exists>r'. run_ops dq_step (replicate n (QSend m small)) r = Some r' \<and> queue_empty (rq r')"
  using drain [OF dgram_sys.run_result [OF drun_init_inv assms(1,2)] assms(3), of n small]
    total_pieces_le [of "buf (rq r)"] assms(4) by fastforce

theorem dgram_queue_drains_witness:
  "\<exists>r r'. run_ops dq_step [QEmplace [1, 2, 3] 4 None, QEmplace [5] 8 None] (drun_init True) = Some r \<and>
     run_ops dq_step (replicate 4 (QSend 2 True)) r = Some r' \<and> queue_empty (rq r')"
proof -
  let ?ops = "[QEmplace [1, 2, 3] 4 None, QEmplace [5] 8 None]"
  have ok: "ops_ok dq_step dq_ok ?ops (drun_init True)" by (simp add: queue_eval)
  obtain r where r: "run_ops dq_step ?ops (drun_init True) = Some r"
    using dgram_sys.run_inv [OF drun_init_inv ok] by blast
  have "map_option (\<lambda>r. length (buf (rq r))) (run_ops dq_step ?ops (drun_init True)) = Some 2"
    by (simp add: queue_eval)
  then have "length (buf (rq r)) = 2" unfolding r by simp
  then show ?thesis using dgram_queue_drains [OF ok r, of 2 4 True] r by auto
qed

text \<open>
  Outside the lookahead, a piece that \<open>fetch\<close> offers fits the piece size it was given, whatever
  the piece size was when the datagram's other piece was sent.
\<close>

theorem dgram_fetch_fits:
  assumes "queue_inv q" and "m < 65536" and "head_index q = 0" and "fetch m False q = Some (Some p, q')"
  shows "length (prep_data p) \<le> m"
proof -
  obtain u es where dr: "drop_unsendable m (packet_splitting q) (unsent_bytes q) (buf q) = (u, es)"
    by fastforce
  let ?q = "q\<lparr>unsent_bytes := u, buf := es\<rparr>"
  have es: "es \<noteq> [] \<longrightarrow> \<not> unsendable m (packet_splitting q) (hd es)" and qi: "queue_inv ?q"
    using queue_drop_inv [OF assms(1) dr] assms(3) by blast+
  have pk: "pick m False ?q = Some (Some p, q')" using assms(4) fetch_pick [OF dr] by simp
  then obtain d ds where e: "es = d # ds" using assms(3) by (cases es) (auto simp: pick_def)
  have ok: "storage_ok (packet_splitting q) d" "status d \<noteq> Sent"
    using qi e assms(3) by (auto simp: queue_inv_def)
  obtain s h where f: "fetch_head m (packet_splitting q) d = Some (p, s, h)"
    using pk e assms(3) by (auto simp: pick_def Let_def split: option.splits)
  show ?thesis
    using f ok es e assms(2)
    by (cases "status d")
      (auto simp: fetch_head_def sent_def unsendable_def prepared_ctor_def storage_ok_def sz_sub_exact
        Let_def split: if_splits)
qed

theorem dgram_fetch_fits_witness:
  "length (prep_data (prepared_ctor True 6 [1, 2])) \<le> (2::nat)"
proof -
  let ?q = "emplace [1, 2, 3] 4 None (queue_ctor True)"
  have inv: "queue_inv ?q"
    by (simp add: queue_eval queue_inv_def rem_bytes_def storage_ok_def)
  have f: "fetch 2 False ?q = Some (Some (prepared_ctor True 6 [1, 2]),
      ?q\<lparr>buf := [(storage_ctor [1, 2, 3] 4 None)\<lparr>split_pos := 2\<rparr>], last_i := 0, last_sent := SentFirst, last_size := 2\<rparr>)"
    by (simp add: queue_eval)
  show ?thesis by (rule dgram_fetch_fits [OF inv _ _ f]) (simp_all add: queue_eval)
qed

text \<open>
  C25: the count of a datagram of \<open>2 ^ 16\<close> bytes or more is lost. \<open>unsent_size\<close> returns 16 bits, so
  when such a datagram is dropped as unsendable the queue is empty but its byte count is not: the
  multiple of \<open>2 ^ 16\<close> in the datagram's length stays in it for ever.
\<close>

theorem dgram_oversize_leak:
  assumes "65536 \<le> length data" and "length data < SIZE_MOD" and "m < 32768"
  shows "\<exists>q. fetch m small (emplace data dgid keep (queue_ctor splitting)) = Some (None, q) \<and>
    queue_empty q \<and> pending_bytes q = length data - length data mod 65536 \<and> 0 < pending_bytes q"
proof -
  have m: "m * 2 mod SIZE_MOD = m * 2" "m mod SIZE_MOD = m" using assms(3) by simp_all
  have s: "sz_sub (length data) (length data mod 65536) = length data - length data mod 65536"
    using assms(2) by (simp add: sz_sub_exact)
  have "0 < length data - length data mod 65536"
    using assms(1) mod_less_divisor [of 65536 "length data"] by linarith
  then show ?thesis
    using assms m s
    by (simp add: fetch_def pick_def emplace_def queue_ctor_def storage_ctor_def unsendable_def
        storage_unsent_size_def head_index_def queue_empty_def pending_bytes_def sz_add_def)
qed

theorem dgram_oversize_leak_witness:
  "\<exists>q. fetch 1200 False (emplace (replicate 65536 0) 4 None (queue_ctor True)) = Some (None, q) \<and>
    queue_empty q \<and> pending_bytes q = 65536"
  using dgram_oversize_leak [of "replicate 65536 0" 1200 False 4 None True] by auto


end
