(* ===== verification/Rotating_Buffer.thy ===== *)
theory Rotating_Buffer
  imports Quic_Prelude "HOL-Library.Multiset"
begin

unbundle bit_operations_syntax

text \<open>
  The reassembly buffer for split datagrams, \<open>dgram::rotating_buffer\<close> of \<open>datagram.hpp\<close> and
  \<open>datagram.cpp\<close>. Counters are grouped into blocks; the pieces of the newest block and of the one
  before it are held in alternate halves of an array of slots, each slot pointing into a pool of
  pieces with a free list. Indices into the arrays are always in range (\<open>rbuf_inv\<close> of
  Rotating_Buffer_Correct), so the values of \<open>!\<close> out of range do not matter.
\<close>

definition NO_PIECE :: nat where "NO_PIECE = 65535"

record piece =
  p_data :: bytes
  next_free :: nat
  p_first :: bool

record rbuf =
  bufsize :: int
  block_shift :: nat
  nblocks :: int
  reorder_blocks :: int
  newest :: "int option"
  held :: "int list"
  slots :: "nat list"
  pieces :: "piece list"
  free_head :: nat

text \<open>\<open>std::countr_zero\<close> on 32 bits.\<close>

fun countr_zero :: "nat \<Rightarrow> nat" where
  "countr_zero n = (if n = 0 then 32 else if even n then Suc (countr_zero (n div 2)) else 0)"

declare countr_zero.simps [simp del]

definition rbuf_ctor :: "int \<Rightarrow> int \<Rightarrow> rbuf" where
  "rbuf_ctor bsize reorder_limit =
     (let shift = countr_zero (nat (bsize div 2))
      in \<lparr>bufsize = bsize, block_shift = shift, nblocks = drop_bit shift 16384,
          reorder_blocks = drop_bit shift (reorder_limit + bsize div 2 - 1),
          newest = None, held = [0, 0], slots = [], pieces = [], free_head = NO_PIECE\<rparr>)"

definition datagrams_stored :: "rbuf \<Rightarrow> int" where
  "datagrams_stored r = held r ! 0 + held r ! 1"

text \<open>How far \<open>block\<close> is behind the newest one decides whether its pieces are held.\<close>

definition behind :: "rbuf \<Rightarrow> int \<Rightarrow> int \<Rightarrow> int" where
  "behind r new block = (new - block) AND (nblocks r - 1)"

definition held_block :: "rbuf \<Rightarrow> int \<Rightarrow> int \<Rightarrow> bool" where
  "held_block r new block \<longleftrightarrow> behind r new block \<le> 1"

definition take_piece :: "rbuf \<Rightarrow> nat \<times> rbuf" where
  "take_piece r =
     (if free_head r = NO_PIECE
      then let r = r\<lparr>pieces := pieces r @ [\<lparr>p_data = [], next_free = NO_PIECE, p_first = False\<rparr>]\<rparr>
           in ((length (pieces r) - 1) mod 65536, r)
      else (free_head r, r\<lparr>free_head := next_free (pieces r ! free_head r)\<rparr>))"

definition release_piece :: "nat \<Rightarrow> rbuf \<Rightarrow> rbuf" where
  "release_piece index r =
     r\<lparr>pieces := (pieces r)[index := (pieces r ! index)\<lparr>p_data := [], next_free := free_head r\<rparr>],
       free_head := index\<rparr>"

text \<open>The loop of \<open>clear_half\<close> over \<open>n\<close> slots from \<open>i\<close> on.\<close>

fun clear_slots :: "nat \<Rightarrow> nat \<Rightarrow> rbuf \<Rightarrow> rbuf" where
  "clear_slots i 0 r = r"
| "clear_slots i (Suc n) r =
     clear_slots (Suc i) n
       (if slots r ! i \<noteq> 0
        then let r = release_piece (slots r ! i - 1) r in r\<lparr>slots := (slots r)[i := 0]\<rparr>
        else r)"

definition clear_half :: "nat \<Rightarrow> rbuf \<Rightarrow> rbuf" where
  "clear_half half r =
     (if held r ! half = 0 then r
      else let block_size = nat (bufsize r div 2);
               r = clear_slots (half * block_size) block_size r
           in r\<lparr>held := (held r)[half := 0]\<rparr>)"

definition advance :: "nat \<Rightarrow> rbuf \<Rightarrow> bool \<times> rbuf" where
  "advance counter r =
     (let block = int (drop_bit (block_shift r) counter)
      in case newest r of
           None \<Rightarrow> (True, r\<lparr>newest := Some block\<rparr>)
         | Some new \<Rightarrow>
             if held_block r new block then (True, r)
             else if behind r new block < reorder_blocks r then (False, r)
             else let r = clear_half (nat (block AND 1)) r;
                      r = (if ((block - new) AND (nblocks r - 1)) > 1
                           then clear_half (nat ((block - 1) AND 1)) r else r)
                  in (True, r\<lparr>newest := Some block\<rparr>))"

definition observe :: "nat \<Rightarrow> rbuf \<Rightarrow> rbuf" where
  "observe dgid r = snd (advance (drop_bit 2 dgid) r)"

definition completes :: "nat \<Rightarrow> rbuf \<Rightarrow> bool" where
  "completes dgid r =
     (let counter = drop_bit 2 dgid
      in case newest r of
           None \<Rightarrow> False
         | Some new \<Rightarrow>
             if slots r = [] \<or> \<not> held_block r new (int (drop_bit (block_shift r) counter)) then False
             else let slot = slots r ! (counter AND nat (bufsize r - 1))
                  in slot \<noteq> 0 \<and> p_first (pieces r ! (slot - 1)) \<noteq> (dgid AND 3 = 2))"

definition receive_piece :: "bytes \<Rightarrow> nat \<Rightarrow> rbuf \<Rightarrow> bytes option \<times> rbuf" where
  "receive_piece data dgid r =
     (let counter = drop_bit 2 dgid; (in_time, r) = advance counter r
      in if \<not> in_time then (None, r)
         else
           let r = (if slots r = [] then r\<lparr>slots := replicate (nat (bufsize r)) 0\<rparr> else r);
               at = counter AND nat (bufsize r - 1);
               slot = slots r ! at;
               half = drop_bit (block_shift r) counter AND 1;
               first = (dgid AND 3 = 2)
           in if slot = 0
              then let (index, r) = take_piece r
                   in (None, r\<lparr>pieces := (pieces r)[index := (pieces r ! index)\<lparr>p_data := data, p_first := first\<rparr>],
                               slots := (slots r)[at := (index + 1) mod 65536],
                               held := (held r)[half := held r ! half + 1]\<rparr>)
              else let p = pieces r ! (slot - 1)
                   in if p_first p = first then (None, r)
                      else let whole = (if p_first p then p_data p @ data else data @ p_data p);
                               r = release_piece (slot - 1) r
                           in (Some whole, r\<lparr>slots := (slots r)[at := 0],
                                             held := (held r)[half := held r ! half - 1]\<rparr>))"

end
