(* ===== verification/Rotating_Buffer_Correct.thy ===== *)
theory Rotating_Buffer_Correct
  imports Rotating_Buffer
begin

unbundle bit_operations_syntax

text \<open>
  Correctness of the reassembly buffer of Rotating_Buffer. The pool of pieces and its free list are
  related to the slots by a multiset equation; the buffer as a whole is a map from counters to pieces,
  on which \<open>advance\<close> forgets the blocks no longer held and \<open>receive\<close> is the reassembly specification.
  The contract \<open>op_system\<close> of Quic_Prelude is interpreted on the buffer's operations.
\<close>

section \<open>Parameters and blocks\<close>

text \<open>The buffer sizes that \<open>opt::enable_datagrams\<close> allows: a power of two from 64 to 8192.\<close>

definition params_ok :: "rbuf \<Rightarrow> bool" where
  "params_ok r \<longleftrightarrow> 5 \<le> block_shift r \<and> block_shift r \<le> 12 \<and> bufsize r = 2 ^ Suc (block_shift r) \<and>
     nblocks r = 2 ^ (14 - block_shift r)"

abbreviation block_of :: "rbuf \<Rightarrow> nat \<Rightarrow> int" where
  "block_of r c \<equiv> int (drop_bit (block_shift r) c)"

abbreviation half_of :: "rbuf \<Rightarrow> nat \<Rightarrow> nat" where
  "half_of r c \<equiv> drop_bit (block_shift r) c AND 1"

abbreviation slot_of :: "rbuf \<Rightarrow> nat \<Rightarrow> nat" where
  "slot_of r c \<equiv> c AND nat (bufsize r - 1)"

lemma countr_zero_exp: "countr_zero (2 ^ n) = n"
  by (induction n) (subst countr_zero.simps, simp)+

lemma int_and_mask: "(x :: int) AND (2 ^ n - 1) = x mod 2 ^ n"
  by (simp add: take_bit_eq_mask [symmetric] mask_eq_exp_minus_1 [symmetric] take_bit_eq_mod)

lemma nat_and_mask: "(x :: nat) AND (2 ^ n - 1) = x mod 2 ^ n"
  by (simp only: mask_eq_exp_minus_1 [symmetric] take_bit_eq_mask [symmetric] take_bit_eq_mod)

lemma nat_exp_minus_1: "nat ((2 :: int) ^ k - 1) = 2 ^ k - 1"
  by (simp add: nat_diff_distrib nat_power_eq)

lemma behind_mod: "params_ok r \<Longrightarrow> behind r n b = (n - b) mod nblocks r"
  by (simp add: behind_def params_ok_def int_and_mask)

lemma half_mod: "half_of r c = drop_bit (block_shift r) c mod 2"
  by (simp add: and_one_eq)

lemma slot_mod: "params_ok r \<Longrightarrow> slot_of r c = c mod 2 ^ Suc (block_shift r)"
  by (simp only: params_ok_def nat_exp_minus_1 nat_and_mask)

lemma slot_half:
  assumes "params_ok r"
  shows "slot_of r c = half_of r c * 2 ^ block_shift r + c mod 2 ^ block_shift r"
    and "slot_of r c div 2 ^ block_shift r = half_of r c"
    and "slot_of r c < 2 ^ Suc (block_shift r)"
proof -
  have "c mod (2 ^ block_shift r * 2) = 2 ^ block_shift r * (c div 2 ^ block_shift r mod 2) + c mod 2 ^ block_shift r"
    by (rule mod_mult2_eq)
  then show 1: "slot_of r c = half_of r c * 2 ^ block_shift r + c mod 2 ^ block_shift r"
    unfolding slot_mod [OF assms] half_mod drop_bit_eq_div power_Suc by (simp only: mult.commute and_one_eq)
  show "slot_of r c div 2 ^ block_shift r = half_of r c"
    unfolding 1 by simp
  show "slot_of r c < 2 ^ Suc (block_shift r)"
    using assms by (simp add: slot_mod)
qed

text \<open>Within one block a slot determines the counter, so two counters of held blocks never collide.\<close>

lemma slot_inj:
  assumes "params_ok r" and "block_of r c = block_of r c'" and "slot_of r c = slot_of r c'"
  shows "c = c'"
proof -
  have "c div 2 ^ block_shift r = c' div 2 ^ block_shift r"
    using assms(2) by (simp add: drop_bit_eq_div)
  moreover have "c mod 2 ^ block_shift r = c' mod 2 ^ block_shift r"
    using assms(2,3) slot_half(1) [OF assms(1)] by simp
  ultimately show ?thesis by (metis div_mult_mod_eq)
qed

section \<open>The pool of pieces\<close>

text \<open>
  The free list as a list of indices, and the multiset of indices the slots use. Together they are
  all the indices of the pool, each once.
\<close>

fun free_chain :: "piece list \<Rightarrow> nat \<Rightarrow> nat list \<Rightarrow> bool" where
  "free_chain ps h [] \<longleftrightarrow> h = NO_PIECE"
| "free_chain ps h (i # is) \<longleftrightarrow> h = i \<and> i < length ps \<and> free_chain ps (next_free (ps ! i)) is"

definition used :: "nat list \<Rightarrow> nat multiset" where
  "used ss = image_mset (\<lambda>x. x - 1) (filter_mset (\<lambda>x. x \<noteq> 0) (mset ss))"

definition pool_inv :: "nat list \<Rightarrow> piece list \<Rightarrow> nat \<Rightarrow> bool" where
  "pool_inv ss ps h \<longleftrightarrow> length ps \<le> length ss \<and> length ss \<le> 8192 \<and>
     (\<exists>fl. free_chain ps h fl \<and> mset fl + used ss = mset_set {..<length ps})"

lemma free_chain_update:
  "free_chain ps h fl \<Longrightarrow> i \<notin> set fl \<Longrightarrow> free_chain (ps[i := p]) h fl"
  by (induction fl arbitrary: h) auto

lemma free_chain_append: "free_chain ps h fl \<Longrightarrow> free_chain (ps @ qs) h fl"
  by (induction fl arbitrary: h) (auto simp: nth_append)

lemma used_update:
  assumes "i < length ss"
  shows "used (ss[i := x]) =
    (used ss - (if ss ! i = 0 then {#} else {#ss ! i - 1#})) + (if x = 0 then {#} else {#x - 1#})"
proof -
  have "ss ! i \<in># mset ss" using assms by simp
  then obtain M where M: "mset ss = add_mset (ss ! i) M" by (metis insert_DiffM)
  then have "mset (ss[i := x]) = add_mset x M" using assms by (simp add: mset_update)
  then show ?thesis using M by (simp add: used_def)
qed

lemma used_mem: "i < length ss \<Longrightarrow> ss ! i \<noteq> 0 \<Longrightarrow> ss ! i - 1 \<in># used ss"
  by (auto simp: used_def intro!: imageI)

lemma used_size: "size (used ss) \<le> length ss"
  using size_filter_mset_lesseq [of _ "mset ss"] by (simp add: used_def)

lemma pool_used_range:
  assumes "pool_inv ss ps h" and "i < length ss" and "ss ! i \<noteq> 0"
  shows "ss ! i - 1 < length ps"
proof -
  obtain fl where "mset fl + used ss = mset_set {..<length ps}" using assms(1) by (auto simp: pool_inv_def)
  then have "ss ! i - 1 \<in># mset_set {..<length ps}"
    using used_mem [OF assms(2,3)] by (metis union_iff)
  then show ?thesis by simp
qed

text \<open>No two slots share a piece.\<close>

lemma pool_distinct:
  assumes "pool_inv ss ps h" and "i < length ss" "j < length ss" "i \<noteq> j" and "ss ! i \<noteq> 0" "ss ! j \<noteq> 0"
  shows "ss ! i - 1 \<noteq> ss ! j - 1"
proof
  assume e: "ss ! i - 1 = ss ! j - 1"
  obtain fl where fl: "mset fl + used ss = mset_set {..<length ps}" using assms(1) by (auto simp: pool_inv_def)
  have "ss ! j - 1 \<in># used (ss[i := 0])"
    using used_mem [of j "ss[i := 0]"] assms by simp
  moreover have "used (ss[i := 0]) = used ss - {#ss ! i - 1#}"
    using used_update [OF assms(2), of 0] assms(5) by simp
  ultimately have "2 \<le> count (used ss) (ss ! i - 1)"
    using e by (metis Suc_1 Suc_leI count_greater_zero_iff count_single count_diff zero_less_diff)
  moreover have "count (used ss) (ss ! i - 1) \<le> count (mset_set {..<length ps}) (ss ! i - 1)"
    unfolding fl [symmetric] by simp
  ultimately show False by (simp add: count_mset_set' split: if_splits)
qed

lemma free_not_used:
  assumes "free_chain ps h (i # fl)" and "mset (i # fl) + used ss = mset_set {..<length ps}"
  shows "i \<notin> set fl" and "i \<notin># used ss"
proof -
  have "count (mset (i # fl) + used ss) i \<le> 1"
    unfolding assms(2) by (simp add: count_mset_set' split: if_splits)
  then show "i \<notin> set fl" "i \<notin># used ss"
    by (auto simp flip: count_greater_zero_iff simp: count_mset_0_iff)
qed

lemma pool_release:
  assumes inv: "pool_inv ss ps h" and i: "i < length ss" and x: "ss ! i \<noteq> 0"
  shows "pool_inv (ss[i := 0]) (ps[ss ! i - 1 := (ps ! (ss ! i - 1))\<lparr>p_data := [], next_free := h\<rparr>]) (ss ! i - 1)"
proof -
  let ?k = "ss ! i - 1"
  let ?ps = "ps[?k := (ps ! ?k)\<lparr>p_data := [], next_free := h\<rparr>]"
  obtain fl where fl: "free_chain ps h fl" "mset fl + used ss = mset_set {..<length ps}"
    using inv by (auto simp: pool_inv_def)
  have k: "?k < length ps" "?k \<in># used ss"
    using pool_used_range [OF inv i x] used_mem [OF i x] by simp_all
  have "count (mset fl + used ss) ?k \<le> 1"
    unfolding fl(2) by (simp add: count_mset_set' split: if_splits)
  moreover have "0 < count (used ss) ?k" using k(2) by (simp only: count_greater_zero_iff)
  ultimately have "count (mset fl) ?k = 0" unfolding count_union by linarith
  then have "?k \<notin> set fl" by (simp add: count_mset_0_iff)
  then have "free_chain ?ps ?k (?k # fl)" using free_chain_update [OF fl(1)] k(1) by simp
  moreover have "used ss = add_mset ?k (used (ss[i := 0]))"
    using used_update [OF i, of 0] x k(2) by simp
  then have "mset (?k # fl) + used (ss[i := 0]) = mset_set {..<length ?ps}"
    using fl(2) by simp
  ultimately have "\<exists>fl. free_chain ?ps ?k fl \<and> mset fl + used (ss[i := 0]) = mset_set {..<length ?ps}"
    by blast
  then show ?thesis using inv by (simp add: pool_inv_def)
qed

lemma used_size_free: "i < length ss \<Longrightarrow> ss ! i = 0 \<Longrightarrow> size (used ss) < length ss"
  using used_update [of i ss 1] used_size [of "ss[i := 1]"] by simp

text \<open>Taking a piece and storing into it.\<close>

lemma pool_take:
  assumes inv: "pool_inv (slots r) (pieces r) (free_head r)" and i: "i < length (slots r)" and z: "slots r ! i = 0"
    and t: "take_piece r = (k, r')"
  shows "pool_inv ((slots r)[i := Suc k]) ((pieces r')[k := (pieces r' ! k)\<lparr>p_data := d, p_first := f\<rparr>]) (free_head r')"
    and "k < length (pieces r')" and "k < 8192" and "slots r' = slots r" and "k \<notin># used (slots r)"
    and "\<And>j. j < length (pieces r) \<Longrightarrow> pieces r' ! j = pieces r ! j"
    and "r' = r\<lparr>pieces := pieces r', free_head := free_head r'\<rparr>"
proof -
  let ?ps = "(pieces r')[k := (pieces r' ! k)\<lparr>p_data := d, p_first := f\<rparr>]"
  obtain fl where fl: "free_chain (pieces r) (free_head r) fl" "mset fl + used (slots r) = mset_set {..<length (pieces r)}"
    and len: "length (pieces r) \<le> length (slots r)" "length (slots r) \<le> 8192"
    using inv by (auto simp: pool_inv_def)
  have u: "used ((slots r)[i := Suc k]) = add_mset k (used (slots r))"
    using used_update [OF i, of "Suc k"] z by simp
  have "pool_inv ((slots r)[i := Suc k]) ?ps (free_head r') \<and> k < length (pieces r') \<and> k < 8192 \<and>
      slots r' = slots r \<and> k \<notin># used (slots r) \<and> (\<forall>j<length (pieces r). pieces r' ! j = pieces r ! j) \<and>
      r' = r\<lparr>pieces := pieces r', free_head := free_head r'\<rparr>"
  proof (cases fl)
    case Nil
    then have h: "free_head r = NO_PIECE" using fl(1) by simp
    have "size (used (slots r)) = length (pieces r)" using fl(2) Nil by simp
    then have l: "length (pieces r) < length (slots r)" using used_size_free [OF i z] by simp
    have k: "k = length (pieces r)" and r': "r' = r\<lparr>pieces := pieces r @ [\<lparr>p_data = [], next_free = NO_PIECE, p_first = False\<rparr>]\<rparr>"
      using t h l len by (auto simp: take_piece_def Let_def)
    have "mset [] + used ((slots r)[i := Suc k]) = mset_set {..<length ?ps}"
      unfolding u using fl(2) Nil k r' by (simp add: lessThan_Suc)
    then have "pool_inv ((slots r)[i := Suc k]) ?ps (free_head r')"
      unfolding pool_inv_def using l len h r' by (intro conjI exI [of _ "[]"]) simp_all
    moreover have "k \<notin># used (slots r)" using fl(2) Nil k by simp
    ultimately show ?thesis using k l len r' by (simp add: nth_append)
  next
    case (Cons j fl')
    then have h: "free_head r = j" "j < length (pieces r)" "free_chain (pieces r) (next_free (pieces r ! j)) fl'"
      using fl(1) by auto
    have "j \<noteq> NO_PIECE" using h(2) len by (simp add: NO_PIECE_def)
    then have k: "k = j" "r' = r\<lparr>free_head := next_free (pieces r ! j)\<rparr>"
      using t h(1) by (auto simp: take_piece_def)
    note nu = free_not_used [OF fl(1) [unfolded Cons] fl(2) [unfolded Cons]]
    have "free_chain ?ps (free_head r') fl'"
      using free_chain_update [OF h(3), of k] nu(1) k by simp
    moreover have "mset fl' + used ((slots r)[i := Suc k]) = mset_set {..<length ?ps}"
      unfolding u using fl(2) Cons k by simp
    ultimately have "pool_inv ((slots r)[i := Suc k]) ?ps (free_head r')"
      unfolding pool_inv_def using len k by (intro conjI exI [of _ fl']) simp_all
    then show ?thesis using h k len nu(2) by simp
  qed
  then show "pool_inv ((slots r)[i := Suc k]) ?ps (free_head r')" "k < length (pieces r')" "k < 8192"
    "slots r' = slots r" "k \<notin># used (slots r)" "\<And>j. j < length (pieces r) \<Longrightarrow> pieces r' ! j = pieces r ! j"
    "r' = r\<lparr>pieces := pieces r', free_head := free_head r'\<rparr>"
    by simp_all
qed

section \<open>The invariant and the abstract view\<close>

definition full_slots :: "rbuf \<Rightarrow> nat \<Rightarrow> nat set" where
  "full_slots r h = {i. i < length (slots r) \<and> i div 2 ^ block_shift r = h \<and> slots r ! i \<noteq> 0}"

definition rbuf_inv :: "rbuf \<Rightarrow> bool" where
  "rbuf_inv r \<longleftrightarrow>
     params_ok r \<and> length (held r) = 2 \<and> pool_inv (slots r) (pieces r) (free_head r) \<and>
     (slots r \<noteq> [] \<longrightarrow> newest r \<noteq> None \<and> length (slots r) = 2 ^ Suc (block_shift r)) \<and>
     (case newest r of None \<Rightarrow> True | Some n \<Rightarrow> 0 \<le> n \<and> n < nblocks r) \<and>
     (\<forall>h<2. held r ! h = int (card (full_slots r h)))"

text \<open>The piece held for a counter: whether it is the first of its datagram, and its data.\<close>

definition piece_at :: "rbuf \<Rightarrow> nat \<Rightarrow> (bool \<times> bytes) option" where
  "piece_at r i =
     (if slots r = [] \<or> slots r ! i = 0 then None
      else Some (p_first (pieces r ! (slots r ! i - 1)), p_data (pieces r ! (slots r ! i - 1))))"

definition held_piece :: "rbuf \<Rightarrow> nat \<Rightarrow> (bool \<times> bytes) option" where
  "held_piece r c =
     (case newest r of
        None \<Rightarrow> None
      | Some n \<Rightarrow> if held_block r n (block_of r c) then piece_at r (slot_of r c) else None)"

text \<open>\<open>clears i n r r'\<close>: \<open>r'\<close> is \<open>r\<close> with the slots from \<open>i\<close> to \<open>i + n\<close> emptied and nothing else changed.\<close>

definition clears :: "nat \<Rightarrow> nat \<Rightarrow> rbuf \<Rightarrow> rbuf \<Rightarrow> bool" where
  "clears i n r r' \<longleftrightarrow>
     pool_inv (slots r') (pieces r') (free_head r') \<and> length (slots r') = length (slots r) \<and>
     (\<forall>j. slots r' ! j = (if i \<le> j \<and> j < i + n then 0 else slots r ! j)) \<and>
     (\<forall>j<length (slots r). \<not> (i \<le> j \<and> j < i + n) \<longrightarrow> piece_at r' j = piece_at r j) \<and>
     (\<exists>ss ps h. r' = r\<lparr>slots := ss, pieces := ps, free_head := h\<rparr>)"

lemma clearsD:
  assumes "clears i n r r'"
  shows "pool_inv (slots r') (pieces r') (free_head r')" and "length (slots r') = length (slots r)"
  using assms by (simp_all add: clears_def)

lemma clears_one:
  assumes inv: "pool_inv (slots r) (pieces r) (free_head r)" and i: "i < length (slots r)"
  shows "clears i 1 r (if slots r ! i \<noteq> 0
     then (release_piece (slots r ! i - 1) r)\<lparr>slots := (slots r)[i := 0]\<rparr> else r)"
proof (cases "slots r ! i = 0")
  case True
  have one: "i \<le> j \<and> j < i + 1 \<longleftrightarrow> j = i" for j by auto
  have "r = r\<lparr>slots := slots r, pieces := pieces r, free_head := free_head r\<rparr>" by simp
  then have "\<exists>ss ps h. r = r\<lparr>slots := ss, pieces := ps, free_head := h\<rparr>" by blast
  then show ?thesis using True inv unfolding clears_def one by auto
next
  case False
  have one: "i \<le> j \<and> j < i + 1 \<longleftrightarrow> j = i" for j by auto
  let ?r = "(release_piece (slots r ! i - 1) r)\<lparr>slots := (slots r)[i := 0]\<rparr>"
  have "piece_at ?r j = piece_at r j" if "j < length (slots r)" "j \<noteq> i" for j
    using pool_distinct [OF inv i that(1)] that i False by (auto simp: piece_at_def release_piece_def)
  moreover have "?r = r\<lparr>slots := slots ?r, pieces := pieces ?r, free_head := free_head ?r\<rparr>"
    by (simp add: release_piece_def)
  then have "\<exists>ss ps h. ?r = r\<lparr>slots := ss, pieces := ps, free_head := h\<rparr>" by blast
  ultimately show ?thesis
    using False i pool_release [OF inv i False]
    unfolding clears_def one by (simp add: nth_list_update) (simp add: release_piece_def)
qed

lemma clears_trans:
  assumes "clears i 1 r r1" and "clears (Suc i) n r1 r2"
  shows "clears i (Suc n) r r2"
proof -
  have "\<exists>ss ps h. r2 = r\<lparr>slots := ss, pieces := ps, free_head := h\<rparr>"
    using assms by (fastforce simp: clears_def)
  moreover have "slots r2 ! j = (if i \<le> j \<and> j < i + Suc n then 0 else slots r ! j)" for j
    using assms by (auto simp: clears_def)
  moreover have "piece_at r2 j = piece_at r j" if "j < length (slots r)" "\<not> (i \<le> j \<and> j < i + Suc n)" for j
  proof -
    have "piece_at r2 j = piece_at r1 j" using assms that by (auto simp: clears_def)
    also have "\<dots> = piece_at r j" using assms(1) that by (auto simp: clears_def)
    finally show ?thesis .
  qed
  ultimately show ?thesis using assms unfolding clears_def by simp
qed

lemma clear_slots_spec:
  "pool_inv (slots r) (pieces r) (free_head r) \<Longrightarrow> i + n \<le> length (slots r) \<Longrightarrow> clears i n r (clear_slots i n r)"
proof (induction n arbitrary: i r)
  case 0
  have "r = r\<lparr>slots := slots r, pieces := pieces r, free_head := free_head r\<rparr>" by simp
  then have "\<exists>ss ps h. r = r\<lparr>slots := ss, pieces := ps, free_head := h\<rparr>" by blast
  then show ?case using 0 by (simp add: clears_def)
next
  case (Suc n)
  let ?r = "if slots r ! i \<noteq> 0
      then (release_piece (slots r ! i - 1) r)\<lparr>slots := (slots r)[i := 0]\<rparr> else r"
  have eq: "clear_slots i (Suc n) r = clear_slots (Suc i) n ?r" by (simp add: Let_def release_piece_def)
  have c1: "clears i 1 r ?r" using Suc.prems by (intro clears_one) simp_all
  have "clears (Suc i) n ?r (clear_slots (Suc i) n ?r)"
    using clearsD [OF c1] Suc.prems(2) by (intro Suc.IH) simp_all
  then show ?case unfolding eq by (rule clears_trans [OF c1])
qed

section \<open>Advancing\<close>

lemma finite_full_slots [simp]: "finite (full_slots r h)"
  by (simp add: full_slots_def)

lemma in_half: "h * s \<le> i \<and> i < h * s + s \<longleftrightarrow> i div s = h" if "0 < s" for s :: nat
proof
  assume "h * s \<le> i \<and> i < h * s + s"
  then show "i div s = h" by (intro div_nat_eqI) (simp_all add: mult.commute)
next
  assume "i div s = h"
  then have "i = h * s + i mod s" using div_mult_mod_eq [of i s] by simp
  then show "h * s \<le> i \<and> i < h * s + s" using mod_less_divisor [OF that, of i] by linarith
qed

text \<open>Clearing a half empties its slots and leaves the other half alone.\<close>

lemma clear_half_spec:
  assumes inv: "rbuf_inv r" and h: "h < 2"
  defines "r' \<equiv> clear_half h r"
  shows "rbuf_inv r'" and "\<And>i. i < length (slots r) \<Longrightarrow> i div 2 ^ block_shift r = h \<Longrightarrow> slots r' ! i = 0"
    and "\<And>i. i < length (slots r) \<Longrightarrow> i div 2 ^ block_shift r \<noteq> h \<Longrightarrow> piece_at r' i = piece_at r i \<and> (slots r' ! i = 0 \<longleftrightarrow> slots r ! i = 0)"
    and "length (slots r') = length (slots r)"
    and "newest r' = newest r" "block_shift r' = block_shift r" "nblocks r' = nblocks r"
      "reorder_blocks r' = reorder_blocks r" "bufsize r' = bufsize r"
proof -
  let ?s = "2 ^ block_shift r :: nat"
  have hl: "held r ! h = int (card (full_slots r h))" "params_ok r" "length (held r) = 2" using inv h by (auto simp: rbuf_inv_def)
  have sz: "nat (bufsize r div 2) = ?s" using hl(2) by (simp add: params_ok_def nat_power_eq)
  have pos: "0 < ?s" by simp
  have "rbuf_inv r' \<and> (\<forall>i<length (slots r). i div ?s = h \<longrightarrow> slots r' ! i = 0) \<and>
      (\<forall>i<length (slots r). i div ?s \<noteq> h \<longrightarrow> piece_at r' i = piece_at r i \<and> (slots r' ! i = 0 \<longleftrightarrow> slots r ! i = 0)) \<and>
      length (slots r') = length (slots r) \<and> newest r' = newest r \<and> block_shift r' = block_shift r \<and>
      nblocks r' = nblocks r \<and> reorder_blocks r' = reorder_blocks r \<and> bufsize r' = bufsize r"
  proof (cases "held r ! h = 0")
    case True
    then have "r' = r" by (simp add: r'_def clear_half_def)
    moreover have "\<forall>i<length (slots r). i div ?s = h \<longrightarrow> slots r ! i = 0"
      using True hl(1) by (auto simp: full_slots_def)
    ultimately show ?thesis using inv by simp
  next
    case False
    then have "slots r \<noteq> []" using hl(1) by (auto simp: full_slots_def)
    then have len: "length (slots r) = 2 * ?s" using inv by (simp add: rbuf_inv_def)
    let ?c = "clear_slots (h * ?s) ?s r"
    have r': "r' = ?c\<lparr>held := (held ?c)[h := 0]\<rparr>"
      using False by (simp add: r'_def clear_half_def sz Let_def)
    have le: "h * ?s + ?s \<le> length (slots r)" using h len by (cases h) auto
    have c: "clears (h * ?s) ?s r ?c"
      using inv le by (intro clear_slots_spec) (simp_all add: rbuf_inv_def)
    obtain ss ps fh where cc: "?c = r\<lparr>slots := ss, pieces := ps, free_head := fh\<rparr>"
      using c by (auto simp: clears_def)
    have len': "length ss = length (slots r)" and pool: "pool_inv ss ps fh"
      using clearsD [OF c] by (simp_all add: cc)
    have sl: "ss ! i = (if i div ?s = h then 0 else slots r ! i)" for i
      using c unfolding clears_def in_half [OF pos] by (simp add: cc)
    have pa: "piece_at ?c i = piece_at r i" if "i < length (slots r)" "i div ?s \<noteq> h" for i
      using c that unfolding clears_def in_half [OF pos] by blast
    have z: "full_slots ?c h = {}" and nz: "k \<noteq> h \<Longrightarrow> full_slots ?c k = full_slots r k" for k
      using sl len' by (auto simp: full_slots_def cc)
    have "(held ?c)[h := 0] ! k = int (card (full_slots ?c k))" if "k < 2" for k
      using that h z nz [of k] hl inv by (cases "k = h") (auto simp: cc rbuf_inv_def)
    moreover have "full_slots r' k = full_slots ?c k" for k by (simp add: r' full_slots_def)
    ultimately have hd: "\<forall>k<2. held r' ! k = int (card (full_slots r' k))" by (simp add: r')
    have "rbuf_inv r'"
      using inv hd pool len' \<open>slots r \<noteq> []\<close> unfolding rbuf_inv_def
      by (auto simp: r' cc params_ok_def split: option.splits)
    moreover have "piece_at r' i = piece_at ?c i" for i by (simp add: r' piece_at_def)
    ultimately show ?thesis
      using sl len' pa by (simp add: r' cc)
  qed
  then show "rbuf_inv r'" "\<And>i. i < length (slots r) \<Longrightarrow> i div 2 ^ block_shift r = h \<Longrightarrow> slots r' ! i = 0"
    "\<And>i. i < length (slots r) \<Longrightarrow> i div 2 ^ block_shift r \<noteq> h \<Longrightarrow> piece_at r' i = piece_at r i \<and> (slots r' ! i = 0 \<longleftrightarrow> slots r ! i = 0)"
    "length (slots r') = length (slots r)" "newest r' = newest r" "block_shift r' = block_shift r" "nblocks r' = nblocks r"
    "reorder_blocks r' = reorder_blocks r" "bufsize r' = bufsize r" by blast+
qed

text \<open>Distances between blocks, modulo the number of blocks.\<close>

lemma mod_near: "- N < z \<Longrightarrow> z < N \<Longrightarrow> z mod N = (if 0 \<le> z then z else z + N)" for z N :: int
proof (cases "0 \<le> z")
  case False
  assume "- N < z" "z < N"
  then have "(z + N) mod N = z + N" using False by (intro mod_pos_pos_trivial) auto
  then show ?thesis using False by simp
qed simp

lemma nblocks_facts:
  assumes "params_ok r"
  shows "4 \<le> nblocks r" and "even (nblocks r)" and "c < 16384 \<Longrightarrow> block_of r c < nblocks r"
proof -
  obtain k where k: "14 - block_shift r = Suc (Suc k)"
    using assms by (intro that [of "12 - block_shift r"]) (auto simp: params_ok_def)
  have n: "nblocks r = 4 * 2 ^ k" using assms k by (simp add: params_ok_def)
  have "(1 :: int) \<le> 2 ^ k" by simp
  then show "4 \<le> nblocks r" unfolding n by linarith
  show "even (nblocks r)" unfolding n by simp
  have "(16384 :: nat) = 2 ^ block_shift r * 2 ^ (14 - block_shift r)"
    using assms by (simp add: params_ok_def flip: power_add)
  then show "block_of r c < nblocks r" if "c < 16384"
    using that assms by (simp add: params_ok_def drop_bit_eq_div less_mult_imp_div_less mult.commute flip: of_nat_less_iff)
qed

lemma held_block_iff:
  assumes "params_ok r" and "0 \<le> n" "n < nblocks r" and "0 \<le> b" "b < nblocks r"
  shows "held_block r n b \<longleftrightarrow> b = n \<or> b = (n - 1) mod nblocks r"
  using assms nblocks_facts(1) [OF assms(1)]
  by (auto simp: held_block_def behind_mod mod_near split: if_splits)

lemma half_parity: "half_of r c = nat (block_of r c mod 2)"
  by (simp add: half_mod nat_mod_as_int)

lemma parity_prev:
  assumes "params_ok r" and "0 \<le> n" "n < nblocks r"
  shows "(n - 1) mod nblocks r mod 2 = (n - 1) mod 2" and "(n - 1) mod 2 \<noteq> n mod 2"
  using nblocks_facts(2) [OF assms(1)] by (auto simp: mod_mod_cancel) presburger

text \<open>
  What \<open>advance\<close> does to the pieces held: it moves the newest block and keeps exactly the pieces of
  the blocks that are still held.
\<close>

definition same_params :: "rbuf \<Rightarrow> rbuf \<Rightarrow> bool" where
  "same_params r r' \<longleftrightarrow> block_shift r' = block_shift r \<and> nblocks r' = nblocks r \<and>
     reorder_blocks r' = reorder_blocks r \<and> bufsize r' = bufsize r"

definition new_newest :: "rbuf \<Rightarrow> nat \<Rightarrow> int option" where
  "new_newest r c =
     (case newest r of
        None \<Rightarrow> Some (block_of r c)
      | Some n \<Rightarrow> Some (if held_block r n (block_of r c) \<or> behind r n (block_of r c) < reorder_blocks r
                       then n else block_of r c))"

definition late :: "rbuf \<Rightarrow> nat \<Rightarrow> bool" where
  "late r c \<longleftrightarrow> (case newest r of None \<Rightarrow> False
     | Some n \<Rightarrow> \<not> held_block r n (block_of r c) \<and> behind r n (block_of r c) < reorder_blocks r)"

lemma piece_at_range: "rbuf_inv r \<Longrightarrow> slots r \<noteq> [] \<Longrightarrow> slot_of r x < length (slots r)"
  using slot_half(3) [of r x] by (simp add: rbuf_inv_def)

lemma clear_half_piece:
  assumes inv: "rbuf_inv r" and h: "h < 2"
  shows "piece_at (clear_half h r) (slot_of r x) = (if half_of r x = h then None else piece_at r (slot_of r x))"
proof (cases "slots r = []")
  case True
  then have "slots (clear_half h r) = []" using clear_half_spec(4) [OF assms] by simp
  then show ?thesis using True by (simp add: piece_at_def)
next
  case False
  have p: "params_ok r" using inv by (simp add: rbuf_inv_def)
  note i = piece_at_range [OF inv False, of x]
  show ?thesis
  proof (cases "half_of r x = h")
    case True
    then show ?thesis
      using clear_half_spec(2) [OF assms i] slot_half(2) [OF p, of x] by (simp add: piece_at_def)
  next
    case False
    then show ?thesis using clear_half_spec(3) [OF assms i] slot_half(2) [OF p, of x] by simp
  qed
qed

lemma int_half: "int (half_of r x) = block_of r x mod 2"
  by (simp add: half_mod zmod_int)

lemma half_iff: "half_of r x = nat (z AND 1) \<longleftrightarrow> block_of r x mod 2 = z mod 2"
proof -
  note int_half [of r x]
  moreover have "z AND 1 = z mod 2" "0 \<le> z mod 2" by (simp_all add: and_one_eq)
  ultimately show ?thesis by (metis int_nat_eq nat_int)
qed

lemma jump_cases:
  fixes b n x N :: int
  assumes "4 \<le> N" "even N" and "0 \<le> b" "b < N" "0 \<le> n" "n < N" "0 \<le> x" "x < N"
    and "b \<noteq> n" "b \<noteq> (n - 1) mod N"
  shows "(if x = b \<or> x = (b - 1) mod N
      then if x mod 2 = b mod 2 \<or> (b - n) mod N > 1 \<and> x mod 2 = (b - 1) mod 2 then None else P
      else None) =
    (if x = b \<or> x = (b - 1) mod N then if x = n \<or> x = (n - 1) mod N then P else None else None)"
proof -
  have par: "(b - 1) mod N mod 2 = (b - 1) mod 2" "(b - 1) mod 2 \<noteq> b mod 2"
    using assms(2) by (auto simp: mod_mod_cancel) presburger
  have near: "(b - 1) mod N = (if 0 < b then b - 1 else b - 1 + N)" "(n - 1) mod N = (if 0 < n then n - 1 else n - 1 + N)"
    "(b - n) mod N = (if n \<le> b then b - n else b - n + N)"
    using assms by (auto simp: mod_near)
  have "x = (b - 1) mod N \<Longrightarrow> x \<noteq> b" using assms near by (auto split: if_splits)
  moreover have "x = b \<Longrightarrow> \<not> (x = n \<or> x = (n - 1) mod N)" using assms by auto
  moreover have "x = (b - 1) mod N \<Longrightarrow> (x = n \<or> x = (n - 1) mod N) \<longleftrightarrow> \<not> (b - n) mod N > 1"
    using assms near by (auto split: if_splits)
  ultimately show ?thesis using par by auto
qed

lemma advance_jump:
  assumes inv: "rbuf_inv r" and c: "c < 16384" and n: "newest r = Some n"
    and nh: "\<not> held_block r n (block_of r c)" and nl: "\<not> behind r n (block_of r c) < reorder_blocks r"
  obtains r' where "advance c r = (True, r')" and "rbuf_inv r'" and "same_params r r'"
    and "newest r' = Some (block_of r c)"
    and "\<And>x. x < 16384 \<Longrightarrow> held_piece r' x =
       (if held_block r (block_of r c) (block_of r x) then held_piece r x else None)"
proof -
  let ?b = "block_of r c" and ?N = "nblocks r"
  have p: "params_ok r" and n0: "0 \<le> n" "n < ?N" using inv n by (auto simp: rbuf_inv_def)
  note N = nblocks_facts [OF p]
  have b: "0 \<le> ?b" "?b < ?N" using N(3) [OF c] by simp_all
  have bn: "?b \<noteq> n" "?b \<noteq> (n - 1) mod ?N" using nh held_block_iff [OF p n0 b] by auto
  define r1 where "r1 = clear_half (nat (?b AND 1)) r"
  have h1: "nat (?b AND 1) < 2" "nat ((?b - 1) AND 1) < 2" by (simp_all add: and_one_eq)
  note s1 = clear_half_spec [OF inv h1(1), folded r1_def]
  define jump where "jump \<longleftrightarrow> ((?b - n) AND (nblocks r1 - 1)) > 1"
  define r2 where "r2 = (if jump then clear_half (nat ((?b - 1) AND 1)) r1 else r1)"
  have s2: "rbuf_inv r2" "newest r2 = newest r1" "block_shift r2 = block_shift r1" "nblocks r2 = nblocks r1"
      "reorder_blocks r2 = reorder_blocks r1" "bufsize r2 = bufsize r1" "slots r2 = [] \<longleftrightarrow> slots r1 = []"
    using clear_half_spec [OF s1(1) h1(2)] s1(1) by (auto simp: r2_def simp flip: length_0_conv)
  define r' where "r' = r2\<lparr>newest := Some ?b\<rparr>"
  have adv: "advance c r = (True, r')"
    using n nh nl unfolding advance_def r'_def r2_def r1_def jump_def by (simp add: Let_def)
  have sp: "same_params r r'" using s1 s2 by (simp add: same_params_def r'_def)
  have "rbuf_inv r'"
    using s2(1) b s1 s2 unfolding rbuf_inv_def r'_def
    by (auto simp: params_ok_def full_slots_def)
  moreover have "held_piece r' x = (if held_block r ?b (block_of r x) then held_piece r x else None)"
    if x: "x < 16384" for x
  proof -
    have bx: "0 \<le> block_of r x" "block_of r x < ?N" using N(3) [OF x] by simp_all
    have hb: "held_block r' ?b (block_of r' x) = held_block r ?b (block_of r x)"
      using sp by (simp add: held_block_def behind_def same_params_def)
    have sx: "slot_of r' x = slot_of r x" "half_of r1 x = half_of r x" "slot_of r1 x = slot_of r x"
      using sp s1 by (simp_all add: same_params_def)
    have pa: "piece_at r' (slot_of r x) =
       (if half_of r x = nat (?b AND 1) \<or> jump \<and> half_of r x = nat ((?b - 1) AND 1) then None
        else piece_at r (slot_of r x))"
    proof -
      have "piece_at r' (slot_of r x) = piece_at r2 (slot_of r x)" by (simp add: r'_def piece_at_def)
      then show ?thesis
        using clear_half_piece [OF inv h1(1), of x, folded r1_def] clear_half_piece [OF s1(1) h1(2), of x]
        unfolding sx r2_def by simp
    qed
    have jump: "jump \<longleftrightarrow> (?b - n) mod ?N > 1"
      using p s1(7) by (simp add: jump_def params_ok_def int_and_mask)
    have ho: "held_piece r x = (if block_of r x = n \<or> block_of r x = (n - 1) mod ?N then piece_at r (slot_of r x) else None)"
      using n held_block_iff [OF p n0 bx] by (simp add: held_piece_def)
    have hn: "held_piece r' x = (if block_of r x = ?b \<or> block_of r x = (?b - 1) mod ?N then piece_at r' (slot_of r x) else None)"
      using hb held_block_iff [OF p b bx] sx by (simp add: held_piece_def r'_def)
    show ?thesis
      unfolding hn held_block_iff [OF p b bx] ho pa half_iff jump
      by (rule jump_cases) (use N b bx n0 bn in simp_all)
  qed
  ultimately show thesis using that adv sp by (simp add: r'_def)
qed

lemma advance_spec:
  assumes inv: "rbuf_inv r" and c: "c < 16384"
  obtains r' n where "advance c r = (\<not> late r c, r')" and "rbuf_inv r'" and "same_params r r'"
    and "newest r' = Some n" and "new_newest r c = Some n"
    and "\<forall>x<16384. held_piece r' x = (if held_block r n (block_of r x) then held_piece r x else None)"
    and "\<not> late r c \<longrightarrow> held_block r n (block_of r c)" and "late r c \<longrightarrow> r' = r"
proof (cases "newest r")
  case None
  have p: "params_ok r" using inv by (simp add: rbuf_inv_def)
  let ?r = "r\<lparr>newest := Some (block_of r c)\<rparr>"
  have "slots r = []" using inv None by (auto simp: rbuf_inv_def)
  then have "rbuf_inv ?r"
    using inv nblocks_facts(3) [OF p c] by (auto simp: rbuf_inv_def params_ok_def full_slots_def)
  moreover have "held_piece ?r x = None" "held_piece r x = None" for x
    using \<open>slots r = []\<close> None by (auto simp: held_piece_def piece_at_def)
  moreover have "held_block r (block_of r c) (block_of r c)" by (simp add: held_block_def behind_def)
  ultimately show thesis
    using None by (intro that [of ?r "block_of r c"]) (auto simp: advance_def late_def same_params_def new_newest_def)
next
  case (Some n)
  have same: "held_piece r x = (if held_block r n (block_of r x) then held_piece r x else None)" for x
    using Some by (simp add: held_piece_def)
  show thesis
  proof (cases "held_block r n (block_of r c) \<or> behind r n (block_of r c) < reorder_blocks r")
    case True
    have "advance c r = (\<not> late r c, r)" "\<not> late r c \<Longrightarrow> held_block r n (block_of r c)"
      using True Some by (auto simp: advance_def late_def Let_def)
    then show thesis
      using inv Some same True by (intro that [of r n]) (auto simp: same_params_def new_newest_def)
  next
    case False
    then have "\<not> late r c" "new_newest r c = Some (block_of r c)" using Some by (simp_all add: late_def new_newest_def)
    moreover have "held_block r (block_of r c) (block_of r c)" by (simp add: held_block_def behind_def)
    moreover obtain r' where "advance c r = (True, r')" "rbuf_inv r'" "same_params r r'" "newest r' = Some (block_of r c)"
      "\<And>x. x < 16384 \<Longrightarrow> held_piece r' x =
       (if held_block r (block_of r c) (block_of r x) then held_piece r x else None)"
      using advance_jump [OF inv c Some] False by blast
    ultimately show thesis by (intro that [of r' "block_of r c"]) auto
  qed
qed

section \<open>Storing and pairing\<close>

lemma held_slot_inj:
  assumes inv: "rbuf_inv r" and n: "newest r = Some n" and x: "x < 16384" and y: "y < 16384"
    and hx: "held_block r n (block_of r x)" and hy: "held_block r n (block_of r y)"
    and e: "slot_of r x = slot_of r y"
  shows "x = y"
proof -
  have p: "params_ok r" and n0: "0 \<le> n" "n < nblocks r" using inv n by (auto simp: rbuf_inv_def)
  have bx: "0 \<le> block_of r x" "block_of r x < nblocks r" "0 \<le> block_of r y" "block_of r y < nblocks r"
    using nblocks_facts(3) [OF p] x y by simp_all
  have "half_of r x = half_of r y" using slot_half(2) [OF p, of x] slot_half(2) [OF p, of y] e by simp
  then have "block_of r x mod 2 = block_of r y mod 2" using int_half by metis
  then have "block_of r x = block_of r y"
    using hx hy parity_prev [OF p n0] unfolding held_block_iff [OF p n0 bx(1,2)] held_block_iff [OF p n0 bx(3,4)] by auto
  then show ?thesis using slot_inj [OF p _ e] by blast
qed

definition with_slots :: "rbuf \<Rightarrow> rbuf" where
  "with_slots r = (if slots r = [] then r\<lparr>slots := replicate (nat (bufsize r)) 0\<rparr> else r)"

lemma with_slots_spec:
  assumes inv: "rbuf_inv r" and n: "newest r = Some n"
  shows "rbuf_inv (with_slots r)" and "same_params r (with_slots r)" and "newest (with_slots r) = Some n"
    and "slots (with_slots r) \<noteq> []" and "piece_at (with_slots r) (slot_of r x) = piece_at r (slot_of r x)"
proof -
  have p: "params_ok r" using inv by (simp add: rbuf_inv_def)
  have b: "nat (bufsize r) = 2 ^ Suc (block_shift r)" "2 ^ Suc (block_shift r) \<le> (8192 :: nat)"
    using p power_increasing [of "Suc (block_shift r)" 13 "2 :: nat"]
    by (simp_all add: params_ok_def nat_power_eq nat_mult_distrib)
  have z: "used (replicate k 0) = {#}" for k by (simp add: used_def)
  show "rbuf_inv (with_slots r)"
  proof (cases "slots r = []")
    case True
    then have ps: "pieces r = []" "free_head r = NO_PIECE"
      using inv by (auto simp: rbuf_inv_def pool_inv_def used_def)
    then have "pool_inv (replicate (2 ^ Suc (block_shift r)) 0) (pieces r) (free_head r)"
      unfolding pool_inv_def z using b by (intro conjI exI [of _ "[]"]) simp_all
    then show ?thesis
      using inv True n b(1) unfolding rbuf_inv_def with_slots_def
      by (simp add: params_ok_def full_slots_def)
  qed (use inv in \<open>simp add: with_slots_def\<close>)
  show "same_params r (with_slots r)" "newest (with_slots r) = Some n"
    using n by (simp_all add: with_slots_def same_params_def)
  show "slots (with_slots r) \<noteq> []" using b(1) by (simp add: with_slots_def)
  show "piece_at (with_slots r) (slot_of r x) = piece_at r (slot_of r x)"
    using slot_half(3) [OF p, of x] b(1) by (auto simp: with_slots_def piece_at_def)
qed

text \<open>Changing one slot of a buffer changes the count of its half only.\<close>

lemma full_slots_update:
  assumes inv: "rbuf_inv r" and s: "slots r \<noteq> []" and "block_shift r' = block_shift r" and "slots r' = (slots r)[slot_of r c := v]"
  shows "full_slots r' h = (if h = half_of r c
     then if v = 0 then full_slots r h - {slot_of r c} else insert (slot_of r c) (full_slots r h)
     else full_slots r h)"
  using piece_at_range [OF inv s, of c] slot_half(2) [of r c] inv assms(3,4)
  by (auto simp: full_slots_def rbuf_inv_def nth_list_update)

lemma half_less: "half_of r c < 2"
  by (simp add: half_mod)

lemma full_slots_mem: "rbuf_inv r \<Longrightarrow> slots r \<noteq> [] \<Longrightarrow> slot_of r c \<in> full_slots r (half_of r c) \<longleftrightarrow> slots r ! slot_of r c \<noteq> 0"
  using piece_at_range [of r c] slot_half(2) [of r c] by (simp add: full_slots_def rbuf_inv_def)

lemma store_spec:
  fixes data :: bytes and first :: bool
  assumes inv: "rbuf_inv r" and n: "newest r = Some n" and s: "slots r \<noteq> []" and z: "slots r ! slot_of r c = 0"
    and t: "take_piece r = (k, r1)"
  defines "r' \<equiv> r1\<lparr>pieces := (pieces r1)[k := (pieces r1 ! k)\<lparr>p_data := data, p_first := first\<rparr>],
     slots := (slots r1)[slot_of r c := (k + 1) mod 65536],
     held := (held r1)[half_of r c := held r1 ! half_of r c + 1]\<rparr>"
  shows "rbuf_inv r'" and "same_params r r'" and "newest r' = Some n"
    and "piece_at r' (slot_of r c) = Some (first, data)"
    and "i < length (slots r) \<Longrightarrow> i \<noteq> slot_of r c \<Longrightarrow> piece_at r' i = piece_at r i"
proof -
  have pool: "pool_inv (slots r) (pieces r) (free_head r)" using inv by (simp add: rbuf_inv_def)
  note at = piece_at_range [OF inv s, of c]
  note tk = pool_take [OF pool at z t] and tk1 = pool_take(1) [OF pool at z t, where d = data and f = first]
  have r1: "slots r1 = slots r" "held r1 = held r" "newest r1 = newest r" "block_shift r1 = block_shift r"
    "nblocks r1 = nblocks r" "reorder_blocks r1 = reorder_blocks r" "bufsize r1 = bufsize r"
    using arg_cong [OF tk(7), of held] arg_cong [OF tk(7), of newest] arg_cong [OF tk(7), of block_shift]
      arg_cong [OF tk(7), of nblocks] arg_cong [OF tk(7), of reorder_blocks] arg_cong [OF tk(7), of bufsize] tk(4)
    by simp_all
  have sl: "slots r' = (slots r)[slot_of r c := Suc k]" using tk(3) r1 by (simp add: r'_def)
  show sp: "same_params r r'" and "newest r' = Some n" using r1 n by (simp_all add: r'_def same_params_def)
  have "held r' ! h = int (card (full_slots r' h))" if "h < 2" for h
    using full_slots_update [OF inv s _ sl, of h] inv that full_slots_mem [OF inv s, of c] z half_less [of r c] r1
    by (auto simp: r'_def rbuf_inv_def nth_list_update)
  moreover have "pool_inv (slots r') (pieces r') (free_head r')" using tk1 unfolding sl by (simp add: r'_def)
  ultimately show "rbuf_inv r'"
    using inv s unfolding rbuf_inv_def sl by (auto simp: r'_def r1 params_ok_def)
  show "piece_at r' (slot_of r c) = Some (first, data)"
    using at tk(2) s unfolding piece_at_def sl by (simp add: r'_def)
  show "piece_at r' i = piece_at r i" if i: "i < length (slots r)" "i \<noteq> slot_of r c"
  proof (cases "slots r ! i = 0")
    case False
    then have "slots r ! i - 1 < length (pieces r)" "slots r ! i - 1 \<noteq> k"
      using pool_used_range [OF pool i(1)] used_mem [OF i(1)] tk(5) by auto
    then show ?thesis using i(2) tk(6) unfolding piece_at_def sl by (simp add: r'_def)
  qed (use i(2) in \<open>simp add: piece_at_def sl\<close>)
qed

lemma pair_spec:
  assumes inv: "rbuf_inv r" and n: "newest r = Some n" and s: "slots r \<noteq> []" and z: "slots r ! slot_of r c \<noteq> 0"
  defines "r' \<equiv> (release_piece (slots r ! slot_of r c - 1) r)\<lparr>slots := (slots r)[slot_of r c := 0],
     held := (held r)[half_of r c := held r ! half_of r c - 1]\<rparr>"
  shows "rbuf_inv r'" and "same_params r r'" and "newest r' = Some n"
    and "piece_at r' (slot_of r c) = None"
    and "i < length (slots r) \<Longrightarrow> i \<noteq> slot_of r c \<Longrightarrow> piece_at r' i = piece_at r i"
proof -
  have pool: "pool_inv (slots r) (pieces r) (free_head r)" using inv by (simp add: rbuf_inv_def)
  note at = piece_at_range [OF inv s, of c]
  have sl: "slots r' = (slots r)[slot_of r c := 0]" by (simp add: r'_def)
  show "same_params r r'" "newest r' = Some n" using n by (simp_all add: r'_def same_params_def release_piece_def)
  have "held r' ! h = int (card (full_slots r' h))" if "h < 2" for h
  proof -
    have "0 < card (full_slots r (half_of r c))"
      using full_slots_mem [OF inv s, of c] z by (auto simp: card_gt_0_iff)
    then show ?thesis
      using full_slots_update [OF inv s _ sl, of h] inv that full_slots_mem [OF inv s, of c] z half_less [of r c]
      by (auto simp: r'_def release_piece_def rbuf_inv_def nth_list_update card_Diff_singleton of_nat_diff)
  qed
  moreover have "pool_inv (slots r') (pieces r') (free_head r')"
    using pool_release [OF pool at z] by (simp add: r'_def release_piece_def)
  ultimately show "rbuf_inv r'"
    using inv s unfolding rbuf_inv_def sl by (auto simp: r'_def release_piece_def params_ok_def)
  show "piece_at r' (slot_of r c) = None" using at by (simp add: piece_at_def r'_def)
  show "piece_at r' i = piece_at r i" if i: "i < length (slots r)" "i \<noteq> slot_of r c"
    using pool_distinct [OF pool at i(1)] i z by (auto simp: piece_at_def r'_def release_piece_def)
qed

section \<open>The buffer as a map of pieces\<close>

text \<open>
  The specification: a finite map from counters to the piece held, and what receiving a piece does
  to it.
\<close>

type_synonym piece_map = "nat \<Rightarrow> (bool \<times> bytes) option"

definition reassemble :: "piece_map \<Rightarrow> nat \<Rightarrow> bool \<Rightarrow> bytes \<Rightarrow> bytes option \<times> piece_map" where
  "reassemble m c first data =
     (case m c of
        None \<Rightarrow> (None, m(c \<mapsto> (first, data)))
      | Some (f, d) \<Rightarrow>
          if f = first then (None, m) else (Some (if f then d @ data else data @ d), m(c := None)))"

definition view :: "rbuf \<Rightarrow> piece_map" where
  "view r c = (if c < 16384 then held_piece r c else None)"

definition keep_blocks :: "rbuf \<Rightarrow> int \<Rightarrow> piece_map \<Rightarrow> piece_map" where
  "keep_blocks r n m x = (if held_block r n (block_of r x) then m x else None)"

lemma view_held: "c < 16384 \<Longrightarrow> newest r = Some n \<Longrightarrow> held_block r n (block_of r c) \<Longrightarrow> view r c = piece_at r (slot_of r c)"
  by (simp add: view_def held_piece_def)

lemma view_update:
  assumes inv: "rbuf_inv r" and sp: "same_params r r'" and n: "newest r = Some n" "newest r' = Some n"
    and c: "c < 16384" "held_block r n (block_of r c)" and s: "slots r \<noteq> []"
    and at: "piece_at r' (slot_of r c) = v"
    and other: "\<And>i. i < length (slots r) \<Longrightarrow> i \<noteq> slot_of r c \<Longrightarrow> piece_at r' i = piece_at r i"
  shows "view r' = (view r)(c := v)"
proof
  fix x
  have hb: "held_block r' n (block_of r' x) = held_block r n (block_of r x)" "slot_of r' x = slot_of r x"
    using sp by (simp_all add: same_params_def held_block_def behind_def)
  show "view r' x = ((view r)(c := v)) x"
  proof (cases "x < 16384 \<and> held_block r n (block_of r x)")
    case False
    then have "x \<noteq> c" using c by auto
    then show ?thesis using False hb n by (auto simp: view_def held_piece_def)
  next
    case True
    then have x: "view r' x = piece_at r' (slot_of r x)" "view r x = piece_at r (slot_of r x)"
      using hb n by (simp_all add: view_def held_piece_def)
    show ?thesis
    proof (cases "x = c")
      case False
      then have "slot_of r x \<noteq> slot_of r c" using held_slot_inj [OF inv n(1) _ c(1) _ c(2)] True by blast
      then show ?thesis using x other [OF piece_at_range [OF inv s, of x]] False by simp
    qed (use x at in simp)
  qed
qed

lemma with_slots_view:
  assumes "rbuf_inv r" and "newest r = Some n"
  shows "view (with_slots r) = view r"
proof
  fix x
  note w = with_slots_spec [OF assms]
  have "held_block (with_slots r) n (block_of (with_slots r) x) = held_block r n (block_of r x)"
    "slot_of (with_slots r) x = slot_of r x"
    using w(2) by (simp_all add: same_params_def held_block_def behind_def)
  then show "view (with_slots r) x = view r x"
    using w(3,5) assms(2) by (simp add: view_def held_piece_def)
qed

lemma same_params_trans: "same_params r r1 \<Longrightarrow> same_params r1 r2 \<Longrightarrow> same_params r r2"
  by (simp add: same_params_def)

lemma receive_in_time:
  assumes c: "c = drop_bit 2 dgid" "c < 16384" and adv: "advance c r = (True, r1)"
    and inv: "rbuf_inv r1" and n: "newest r1 = Some n" and h: "held_block r1 n (block_of r1 c)"
  obtains res r' where "receive_piece data dgid r = (res, r')" and "rbuf_inv r'" and "same_params r1 r'"
    and "newest r' = Some n" and "(res, view r') = reassemble (view r1) c (dgid AND 3 = 2) data"
proof -
  define r2 where "r2 = with_slots r1"
  note w = with_slots_spec [OF inv n, folded r2_def]
  have v2: "view r2 = view r1" using with_slots_view [OF inv n] by (simp add: r2_def)
  have sp: "block_shift r2 = block_shift r1" "bufsize r2 = bufsize r1" using w(2) by (simp_all add: same_params_def)
  have h2: "held_block r2 n (block_of r2 c)" using h w(2) by (simp add: same_params_def held_block_def behind_def)
  have at: "view r1 c = piece_at r2 (slot_of r2 c)" using view_held [OF c(2) w(3) h2] v2 by simp
  let ?f = "dgid AND 3 = 2"
  show thesis
  proof (cases "slots r2 ! slot_of r2 c = 0")
    case True
    obtain k r3 where t: "take_piece r2 = (k, r3)" by fastforce
    let ?r = "r3\<lparr>pieces := (pieces r3)[k := (pieces r3 ! k)\<lparr>p_data := data, p_first := ?f\<rparr>],
       slots := (slots r3)[slot_of r2 c := (k + 1) mod 65536],
       held := (held r3)[half_of r2 c := held r3 ! half_of r2 c + 1]\<rparr>"
    note st = store_spec [OF w(1,3,4) True t, where data = data and first = ?f]
    have "receive_piece data dgid r = (None, ?r)"
      using adv True t c(1) unfolding receive_piece_def with_slots_def [symmetric] Let_def
      by (simp add: r2_def [symmetric])
    moreover have "view ?r = (view r1)(c \<mapsto> (?f, data))"
      using view_update [OF w(1) st(2) w(3) st(3) c(2) h2 w(4) st(4)] st(5) unfolding v2 by blast
    moreover have "view r1 c = None" using at True by (simp add: piece_at_def)
    ultimately show thesis
      by (intro that [OF _ st(1) same_params_trans [OF w(2) st(2)] st(3)]) (auto simp: reassemble_def)
  next
    case False
    let ?p = "pieces r2 ! (slots r2 ! slot_of r2 c - 1)"
    have vc: "view r1 c = Some (p_first ?p, p_data ?p)" using at False w(4) by (simp add: piece_at_def)
    show thesis
    proof (cases "p_first ?p = ?f")
      case True
      have "receive_piece data dgid r = (None, r2)"
        using adv False True c(1) unfolding receive_piece_def with_slots_def [symmetric] Let_def
        by (simp add: r2_def [symmetric])
      then show thesis using that [OF _ w(1,2,3)] vc True v2 by (simp add: reassemble_def)
    next
      case nf: False
      let ?r = "(release_piece (slots r2 ! slot_of r2 c - 1) r2)\<lparr>slots := (slots r2)[slot_of r2 c := 0],
         held := (held r2)[half_of r2 c := held r2 ! half_of r2 c - 1]\<rparr>"
      note st = pair_spec [OF w(1,3,4) False]
      have "receive_piece data dgid r = (Some (if p_first ?p then p_data ?p @ data else data @ p_data ?p), ?r)"
        using adv False nf c(1) unfolding receive_piece_def with_slots_def [symmetric] Let_def
        by (simp add: r2_def [symmetric] release_piece_def)
      moreover have "view ?r = (view r1)(c := None)"
        using view_update [OF w(1) st(2) w(3) st(3) c(2) h2 w(4) st(4)] st(5) unfolding v2 by blast
      ultimately show thesis
        using vc nf by (intro that [OF _ st(1) same_params_trans [OF w(2) st(2)] st(3)]) (auto simp: reassemble_def)
    qed
  qed
qed

lemma advance_view:
  assumes "rbuf_inv r" and "c < 16384"
  obtains r' n where "advance c r = (\<not> late r c, r')" and "rbuf_inv r'" and "same_params r r'"
    and "newest r' = Some n" and "new_newest r c = Some n" and "view r' = keep_blocks r n (view r)"
    and "\<not> late r c \<longrightarrow> held_block r n (block_of r c)" and "late r c \<longrightarrow> r' = r"
proof -
  obtain r' n where a: "advance c r = (\<not> late r c, r')" "rbuf_inv r'" "same_params r r'"
    "newest r' = Some n" "new_newest r c = Some n"
    "\<forall>x<16384. held_piece r' x = (if held_block r n (block_of r x) then held_piece r x else None)"
    "\<not> late r c \<longrightarrow> held_block r n (block_of r c)" "late r c \<longrightarrow> r' = r"
    by (rule advance_spec [OF assms])
  have "view r' = keep_blocks r n (view r)"
    using a(6) by (auto simp: fun_eq_iff view_def keep_blocks_def)
  then show thesis using that a by blast
qed

lemma receive_spec:
  assumes inv: "rbuf_inv r" and d: "dgid < 65536" and c: "c = drop_bit 2 dgid"
  obtains res r' where "receive_piece data dgid r = (res, r')" and "rbuf_inv r'" and "same_params r r'"
    and "newest r' = new_newest r c"
    and "if late r c then res = None \<and> view r' = view r
         else \<exists>n. new_newest r c = Some n \<and> held_block r n (block_of r c) \<and>
           (res, view r') = reassemble (keep_blocks r n (view r)) c (dgid AND 3 = 2) data"
proof -
  have c4: "c < 16384" using d by (simp add: c drop_bit_eq_div)
  obtain r1 n where a: "advance c r = (\<not> late r c, r1)" "rbuf_inv r1" "same_params r r1"
    "newest r1 = Some n" "new_newest r c = Some n" "view r1 = keep_blocks r n (view r)"
    "\<not> late r c \<longrightarrow> held_block r n (block_of r c)" "late r c \<longrightarrow> r1 = r"
    by (rule advance_view [OF inv c4])
  show thesis
  proof (cases "late r c")
    case True
    then have "receive_piece data dgid r = (None, r1)" using a(1) c by (simp add: receive_piece_def Let_def)
    then show thesis using that [OF _ a(2,3)] a True by simp
  next
    case False
    have adv: "advance c r = (True, r1)" using a(1) False by simp
    have h: "held_block r1 n (block_of r1 c)"
      using a(3,7) False by (simp add: same_params_def held_block_def behind_def)
    obtain res r' where "receive_piece data dgid r = (res, r')" "rbuf_inv r'" "same_params r1 r'"
      "newest r' = Some n" "(res, view r') = reassemble (view r1) c (dgid AND 3 = 2) data"
      by (rule receive_in_time [OF c c4 adv a(2) a(4) h])
    then show thesis using that same_params_trans [OF a(3)] a False by auto
  qed
qed

text \<open>The two operations that change the buffer.\<close>

datatype rb_op = RObserve nat | RReceive bytes nat

fun rb_step :: "rb_op \<Rightarrow> rbuf \<Rightarrow> rbuf option" where
  "rb_step (RObserve dgid) r = Some (observe dgid r)"
| "rb_step (RReceive data dgid) r = Some (snd (receive_piece data dgid r))"

fun rb_id :: "rb_op \<Rightarrow> nat" where
  "rb_id (RObserve dgid) = dgid"
| "rb_id (RReceive data dgid) = dgid"

definition rb_ok :: "rb_op \<Rightarrow> rbuf \<Rightarrow> bool" where
  "rb_ok x r \<longleftrightarrow> rb_id x < 65536"

lemma rb_step_spec:
  assumes inv: "rbuf_inv r" and ok: "rb_ok x r"
  obtains r' where "rb_step x r = Some r'" and "rbuf_inv r'" and "same_params r r'"
    and "newest r' = new_newest r (drop_bit 2 (rb_id x))"
    and "\<And>c n. new_newest r (drop_bit 2 (rb_id x)) = Some n \<Longrightarrow> c \<noteq> drop_bit 2 (rb_id x) \<Longrightarrow> view r' c = keep_blocks r n (view r) c"
proof (cases x)
  case (RObserve dgid)
  have c4: "drop_bit 2 dgid < 16384" using ok RObserve by (simp add: rb_ok_def drop_bit_eq_div)
  obtain r' n where "advance (drop_bit 2 dgid) r = (\<not> late r (drop_bit 2 dgid), r')" "rbuf_inv r'"
    "same_params r r'" "newest r' = Some n" "new_newest r (drop_bit 2 dgid) = Some n"
    "view r' = keep_blocks r n (view r)"
    by (rule advance_view [OF inv c4])
  then show thesis using that RObserve by (simp add: observe_def)
next
  case (RReceive data dgid)
  have d: "dgid < 65536" using ok RReceive by (simp add: rb_ok_def)
  let ?c = "drop_bit 2 dgid"
  obtain res r' where r: "receive_piece data dgid r = (res, r')" "rbuf_inv r'" "same_params r r'"
    "newest r' = new_newest r ?c"
    "if late r ?c then res = None \<and> view r' = view r
         else \<exists>n. new_newest r ?c = Some n \<and> held_block r n (block_of r ?c) \<and>
           (res, view r') = reassemble (keep_blocks r n (view r)) ?c (dgid AND 3 = 2) data"
    by (rule receive_spec [OF inv d refl])
  have "view r' c = keep_blocks r n (view r) c" if n: "new_newest r ?c = Some n" and "c \<noteq> ?c" for c n
  proof (cases "late r ?c")
    case True
    then have "newest r = Some n" using n by (auto simp: late_def new_newest_def split: option.splits)
    then show ?thesis using r(5) True by (simp add: keep_blocks_def view_def held_piece_def)
  next
    case False
    then have "(res, view r') = reassemble (keep_blocks r n (view r)) ?c (dgid AND 3 = 2) data" using r(5) n by auto
    then show ?thesis
      using \<open>c \<noteq> ?c\<close> by (auto simp: reassemble_def split: option.splits prod.splits if_splits)
  qed
  then show thesis using that r RReceive by simp
qed

interpretation rbuf_sys: op_system rb_step rb_ok rbuf_inv
proof
  fix r x
  assume "rbuf_inv r" "rb_ok x r"
  then show "\<exists>r'. rb_step x r = Some r' \<and> rbuf_inv r'" by (rule rb_step_spec) blast
qed

lemma rbuf_ctor_params:
  assumes "5 \<le> s" "s \<le> 12"
  shows "params_ok (rbuf_ctor (2 ^ Suc s) limit)" and "block_shift (rbuf_ctor (2 ^ Suc s) limit) = s"
proof -
  have cz: "countr_zero (nat (2 ^ Suc s div 2)) = s"
    using countr_zero_exp [of s] by (simp add: nat_power_eq)
  have e: "(16384 :: int) = 2 ^ s * 2 ^ (14 - s)" using assms by (simp flip: power_add)
  have "drop_bit s (16384 :: int) = 2 ^ (14 - s)"
    unfolding drop_bit_eq_div e by (rule nonzero_mult_div_cancel_left) simp
  then show "params_ok (rbuf_ctor (2 ^ Suc s) limit)" "block_shift (rbuf_ctor (2 ^ Suc s) limit) = s"
    using assms cz unfolding params_ok_def rbuf_ctor_def Let_def by simp_all
qed

lemma rbuf_ctor_inv:
  assumes "5 \<le> s" "s \<le> 12"
  shows "rbuf_inv (rbuf_ctor (2 ^ Suc s) limit)" and "view (rbuf_ctor (2 ^ Suc s) limit) = (\<lambda>_. None)"
proof -
  have "pool_inv [] [] NO_PIECE" by (auto simp: pool_inv_def used_def intro: exI [of _ "[]"])
  moreover have "slots (rbuf_ctor b l) = []" "pieces (rbuf_ctor b l) = []" "free_head (rbuf_ctor b l) = NO_PIECE"
    "newest (rbuf_ctor b l) = None" "held (rbuf_ctor b l) = [0, 0]" for b l
    by (simp_all add: rbuf_ctor_def Let_def)
  ultimately show "rbuf_inv (rbuf_ctor (2 ^ Suc s) limit)" "view (rbuf_ctor (2 ^ Suc s) limit) = (\<lambda>_. None)"
    using rbuf_ctor_params(1) [OF assms]
    by (auto simp: rbuf_inv_def full_slots_def nth_Cons' view_def held_piece_def fun_eq_iff)
qed

section \<open>A piece is kept while its block is held\<close>

lemma block_near:
  assumes p: "params_ok r" and c: "c < 16384" and x: "x < 16384"
    and d: "(int x - int c) mod 16384 \<le> 2 ^ block_shift r"
  shows "(block_of r x - block_of r c) mod nblocks r \<le> 1"
proof -
  let ?s = "2 ^ block_shift r :: int" and ?N = "nblocks r"
  define k where "k = (int x - int c) mod 16384"
  have k: "0 \<le> k" "k \<le> ?s" using d by (simp_all add: k_def)
  have e: "(16384 :: int) = ?s * ?N" using p by (simp add: params_ok_def flip: power_add)
  obtain j where j: "int x = int c + k + 16384 * j"
    using div_mult_mod_eq [of "int x - int c" 16384] by (intro that [of "(int x - int c) div 16384"]) (simp add: k_def)
  have bl: "block_of r y = int y div ?s" for y by (simp add: drop_bit_eq_div zdiv_int)
  have "int x div ?s = (int c + k) div ?s + ?N * j"
    unfolding j e using div_mult_self2 [of ?s "int c + k" "?N * j"] by (simp add: mult.assoc)
  then have "(block_of r x - block_of r c) mod ?N = ((int c + k) div ?s - int c div ?s + ?N * j) mod ?N"
    unfolding bl by (simp add: algebra_simps)
  also have "\<dots> = ((int c + k) div ?s - int c div ?s) mod ?N" by simp
  finally have m: "(block_of r x - block_of r c) mod ?N = ((int c + k) div ?s - int c div ?s) mod ?N" .
  have "(int c + k) div ?s \<le> (int c + ?s) div ?s" "int c div ?s \<le> (int c + k) div ?s"
    using k by (auto intro: zdiv_mono1)
  moreover have "(int c + ?s) div ?s = int c div ?s + 1" by (rule div_add_self2) simp
  ultimately have "0 \<le> (int c + k) div ?s - int c div ?s" "(int c + k) div ?s - int c div ?s \<le> 1" by linarith+
  then show ?thesis unfolding m using nblocks_facts(1) [OF p] by (simp add: mod_pos_pos_trivial)
qed

definition holds_piece :: "rbuf \<Rightarrow> nat \<Rightarrow> bool \<times> bytes \<Rightarrow> bool" where
  "holds_piece r c v \<longleftrightarrow> rbuf_inv r \<and> view r c = Some v \<and>
     (\<exists>n. newest r = Some n \<and> (n - block_of r c) mod nblocks r \<le> 1)"

lemma holds_step:
  assumes h: "holds_piece r c v" and ok: "rb_ok x r" and ne: "drop_bit 2 (rb_id x) \<noteq> c"
    and near: "(block_of r (drop_bit 2 (rb_id x)) - block_of r c) mod nblocks r \<le> 1"
  shows "\<exists>r'. rb_step x r = Some r' \<and> holds_piece r' c v \<and> same_params r r'"
proof -
  let ?x = "drop_bit 2 (rb_id x)"
  have inv: "rbuf_inv r" and v: "view r c = Some v" using h by (simp_all add: holds_piece_def)
  have p: "params_ok r" using inv by (simp add: rbuf_inv_def)
  obtain n where n: "newest r = Some n" "(n - block_of r c) mod nblocks r \<le> 1"
    using h by (auto simp: holds_piece_def)
  obtain n' where n': "new_newest r ?x = Some n'" "(n' - block_of r c) mod nblocks r \<le> 1"
    using n near by (auto simp: new_newest_def)
  obtain r' where r': "rb_step x r = Some r'" "rbuf_inv r'" "same_params r r'" "newest r' = new_newest r ?x"
    and vw: "\<And>c n. new_newest r ?x = Some n \<Longrightarrow> c \<noteq> ?x \<Longrightarrow> view r' c = keep_blocks r n (view r) c"
    using rb_step_spec [OF inv ok] by metis
  have "view r' c = Some v"
    using vw [OF n'(1)] ne v n'(2) by (auto simp: keep_blocks_def held_block_def behind_mod [OF p])
  then show ?thesis
    using r' n' by (auto simp: holds_piece_def same_params_def)
qed

lemma holds_run:
  assumes "holds_piece r c v" and "c < 16384"
    and "\<forall>x\<in>set xs. rb_id x < 65536 \<and> drop_bit 2 (rb_id x) \<noteq> c \<and>
      (int (drop_bit 2 (rb_id x)) - int c) mod 16384 \<le> bufsize r div 2"
  shows "\<exists>r'. run_ops rb_step xs r = Some r' \<and> holds_piece r' c v \<and> same_params r r'"
  using assms
proof (induction xs arbitrary: r)
  case Nil
  then show ?case by (simp add: same_params_def)
next
  case (Cons x xs)
  have p: "params_ok r" using Cons.prems(1) by (simp add: holds_piece_def rbuf_inv_def)
  have "rb_id x < 65536" using Cons.prems(3) by simp
  then have "drop_bit 2 (rb_id x) < 16384" by (simp add: drop_bit_eq_div)
  then have "(block_of r (drop_bit 2 (rb_id x)) - block_of r c) mod nblocks r \<le> 1"
    using Cons.prems(2,3) p by (intro block_near) (auto simp: params_ok_def)
  then obtain r1 where r1: "rb_step x r = Some r1" "holds_piece r1 c v" "same_params r r1"
    using holds_step [OF Cons.prems(1), of x] Cons.prems(3) by (auto simp: rb_ok_def)
  have "bufsize r1 = bufsize r" using r1(3) by (simp add: same_params_def)
  then obtain r' where "run_ops rb_step xs r1 = Some r'" "holds_piece r' c v" "same_params r1 r'"
    using Cons.IH [OF r1(2) Cons.prems(2)] Cons.prems(3) by auto
  then show ?case using r1 same_params_trans by auto
qed

lemma receive_holds:
  assumes inv: "rbuf_inv r" and d: "dgid < 65536" and c: "c = drop_bit 2 dgid"
    and empty: "view r c = None" and new: "new_newest r c = Some (block_of r c)" and nl: "\<not> late r c"
  shows "holds_piece (snd (receive_piece data dgid r)) c (dgid AND 3 = 2, data)"
    and "same_params r (snd (receive_piece data dgid r))" and "fst (receive_piece data dgid r) = None"
proof -
  obtain res r' where r: "receive_piece data dgid r = (res, r')" "rbuf_inv r'" "same_params r r'"
    "newest r' = new_newest r c"
    "if late r c then res = None \<and> view r' = view r
         else \<exists>n. new_newest r c = Some n \<and> held_block r n (block_of r c) \<and>
           (res, view r') = reassemble (keep_blocks r n (view r)) c (dgid AND 3 = 2) data"
    by (rule receive_spec [OF inv d c])
  have "res = None" "view r' c = Some (dgid AND 3 = 2, data)"
    using r(5) nl new empty by (auto simp: reassemble_def keep_blocks_def)
  moreover have "(block_of r c - block_of r' c) mod nblocks r' \<le> 1" using r(3) by (simp add: same_params_def)
  ultimately show "holds_piece (snd (receive_piece data dgid r)) c (dgid AND 3 = 2, data)"
    "same_params r (snd (receive_piece data dgid r))" "fst (receive_piece data dgid r) = None"
    using r new by (auto simp: holds_piece_def)
qed

lemma holds_receive:
  assumes h: "holds_piece r c (f, data)" and d: "dgid < 65536" and c: "c = drop_bit 2 dgid"
    and o: "(dgid AND 3 = 2) \<noteq> f"
  shows "fst (receive_piece data' dgid r) = Some (if f then data @ data' else data' @ data)"
proof -
  have inv: "rbuf_inv r" and v: "view r c = Some (f, data)" using h by (simp_all add: holds_piece_def)
  have p: "params_ok r" using inv by (simp add: rbuf_inv_def)
  obtain n where n: "newest r = Some n" "(n - block_of r c) mod nblocks r \<le> 1"
    using h by (auto simp: holds_piece_def)
  have hb: "held_block r n (block_of r c)" using n(2) by (simp add: held_block_def behind_mod [OF p])
  have nl: "\<not> late r c" "new_newest r c = Some n" using hb n(1) by (simp_all add: late_def new_newest_def)
  show ?thesis
    by (rule receive_spec [OF inv d c, of data'])
      (use nl v hb o in \<open>auto simp: reassemble_def keep_blocks_def split: if_splits\<close>)
qed

lemma split_ids:
  fixes base :: nat
  assumes "base < 65536" and "base AND 3 = 0"
  shows "base OR 2 < 65536" "base OR 3 < 65536" "drop_bit 2 (base OR 2) = drop_bit 2 base"
    "drop_bit 2 (base OR 3) = drop_bit 2 base" "(base OR 2) AND 3 = 2" "(base OR 3) AND 3 = 3"
proof -
  have m: "x AND 3 = x mod 4" for x :: nat using nat_and_mask [of x 2] by simp
  obtain k where k: "base = 4 * k" using assms(2) unfolding m by (auto simp: mod_eq_0_iff_dvd)
  have "base AND 2 = (base AND 3) AND 2" by (simp add: and.assoc)
  then have "base AND 2 = 0" using assms(2) by simp
  with assms(2) have o: "base OR 2 = base + 2" "base OR 3 = base + 3"
    using disjunctive_add_eq_or [of base 2] disjunctive_add_eq_or [of base 3] by simp_all
  show "base OR 2 < 65536" "base OR 3 < 65536" "drop_bit 2 (base OR 2) = drop_bit 2 base"
    "drop_bit 2 (base OR 3) = drop_bit 2 base" "(base OR 2) AND 3 = 2" "(base OR 3) AND 3 = 3"
    unfolding o m using assms(1) k by (simp_all add: drop_bit_eq_div) presburger+
qed

section \<open>Properties\<close>

text \<open>
  The reassembly buffer's data structure stays sound and bounded. For every buffer size the
  options allow, after any sequence of received and observed datagrams the slots, the pool and its
  free list are consistent (every pool index is in use by exactly one slot or free exactly once), the
  pool never exceeds the buffer size, and \<open>datagrams_stored\<close> is the number of occupied slots.
\<close>

theorem rbuf_sound:
  assumes "5 \<le> s" "s \<le> 12" and "ops_ok rb_step rb_ok ops (rbuf_ctor (2 ^ Suc s) limit)"
  shows "\<exists>r. run_ops rb_step ops (rbuf_ctor (2 ^ Suc s) limit) = Some r \<and> rbuf_inv r \<and>
    length (pieces r) \<le> length (slots r) \<and>
    datagrams_stored r = int (card {i. i < length (slots r) \<and> slots r ! i \<noteq> 0})"
proof -
  obtain r where r: "run_ops rb_step ops (rbuf_ctor (2 ^ Suc s) limit) = Some r" and inv: "rbuf_inv r"
    using rbuf_sys.run_inv [OF rbuf_ctor_inv(1) [OF assms(1,2)] assms(3)] by blast
  have p: "params_ok r" using inv by (simp add: rbuf_inv_def)
  have "i div 2 ^ block_shift r < 2" if "i < length (slots r)" for i
  proof -
    have "slots r \<noteq> []" using that by auto
    then have "i < 2 * 2 ^ block_shift r" using that inv by (simp add: rbuf_inv_def)
    then show ?thesis by (rule less_mult_imp_div_less)
  qed
  then have "{i. i < length (slots r) \<and> slots r ! i \<noteq> 0} = full_slots r 0 \<union> full_slots r 1"
    by (fastforce simp: full_slots_def less_2_cases_iff)
  moreover have "full_slots r 0 \<inter> full_slots r 1 = {}" by (auto simp: full_slots_def)
  ultimately have "card {i. i < length (slots r) \<and> slots r ! i \<noteq> 0} = card (full_slots r 0) + card (full_slots r 1)"
    by (simp add: card_Un_disjoint)
  then have "datagrams_stored r = int (card {i. i < length (slots r) \<and> slots r ! i \<noteq> 0})"
    using inv by (simp add: datagrams_stored_def rbuf_inv_def)
  then show ?thesis using r inv by (auto simp: rbuf_inv_def pool_inv_def)
qed

theorem rbuf_sound_witness:
  "\<exists>r. run_ops rb_step [RReceive [1] 6, RReceive [2] 11, RObserve 400, RReceive [3] 7] (rbuf_ctor (2 ^ Suc 5) 128)
     = Some r \<and> rbuf_inv r \<and> length (pieces r) \<le> length (slots r) \<and>
     datagrams_stored r = int (card {i. i < length (slots r) \<and> slots r ! i \<noteq> 0})"
  by (rule rbuf_sound) (simp_all add: rb_ok_def)

text \<open>
  C22: receiving a piece implements the reassembly specification on the map of held pieces: a late
  piece changes nothing, the newest block moves as documented and exactly the pieces of the blocks no
  longer held are forgotten, a piece without its other half is stored, a duplicate is dropped, and
  the two halves of one datagram give its data in the right order and are forgotten.
\<close>

theorem rbuf_receive_refines:
  assumes "rbuf_inv r" and "dgid < 65536" and "c = drop_bit 2 dgid"
  shows "\<exists>res r'. receive_piece data dgid r = (res, r') \<and> rbuf_inv r' \<and> newest r' = new_newest r c \<and>
    (if late r c then res = None \<and> view r' = view r
     else \<exists>n. new_newest r c = Some n \<and>
       (res, view r') = reassemble (keep_blocks r n (view r)) c (dgid AND 3 = 2) data)"
  by (rule receive_spec [OF assms, of data]) (auto split: if_splits)

theorem rbuf_receive_refines_witness:
  "\<exists>res r'. receive_piece [9] 6 (rbuf_ctor (2 ^ Suc 5) 128) = (res, r') \<and> rbuf_inv r' \<and> newest r' = Some 0"
proof -
  have inv: "rbuf_inv (rbuf_ctor (2 ^ Suc 5) 128)" by (rule rbuf_ctor_inv) simp_all
  have n: "new_newest (rbuf_ctor (2 ^ Suc 5) 128) 1 = Some 0"
    using rbuf_ctor_params(2) [of 5 128] by (simp add: new_newest_def) (simp add: rbuf_ctor_def Let_def)
  show ?thesis using rbuf_receive_refines [OF inv, of 6 1 "[9]"] n by (auto simp: drop_bit_eq_div)
qed

text \<open>
  C11: the two halves of a split datagram are reassembled, in either order, if the datagrams received
  in between are at most half the buffer size ahead of it, whatever they are (whole datagrams, and
  pieces of other datagrams, complete or not).
\<close>

theorem rbuf_reassembles:
  assumes "rbuf_inv r" and "base < 65536" and "base AND 3 = 0" and "c = drop_bit 2 base"
    and "view r c = None" and "new_newest r c = Some (block_of r c)" and "\<not> late r c"
    and "\<forall>x\<in>set xs. rb_id x < 65536 \<and> drop_bit 2 (rb_id x) \<noteq> c \<and>
      (int (drop_bit 2 (rb_id x)) - int c) mod 16384 \<le> bufsize r div 2"
  shows "(\<exists>r'. run_ops rb_step (RReceive d1 (base OR 2) # xs) r = Some r' \<and>
      fst (receive_piece d2 (base OR 3) r') = Some (d1 @ d2)) \<and>
    (\<exists>r'. run_ops rb_step (RReceive d2 (base OR 3) # xs) r = Some r' \<and>
      fst (receive_piece d1 (base OR 2) r') = Some (d1 @ d2))"
proof -
  note ids = split_ids [OF assms(2,3), folded assms(4)]
  have c: "c < 16384" using assms(2,4) by (simp add: drop_bit_eq_div)
  have *: "\<exists>r'. run_ops rb_step (RReceive d dgid # xs) r = Some r' \<and> holds_piece r' c (dgid AND 3 = 2, d)"
    if d: "dgid < 65536" "c = drop_bit 2 dgid" for d dgid
  proof -
    note rh = receive_holds [OF assms(1) d assms(5-7), of d]
    have "\<forall>x\<in>set xs. rb_id x < 65536 \<and> drop_bit 2 (rb_id x) \<noteq> c \<and>
        (int (drop_bit 2 (rb_id x)) - int c) mod 16384 \<le> bufsize (snd (receive_piece d dgid r)) div 2"
      using assms(8) rh(2) by (simp add: same_params_def)
    then show ?thesis using holds_run [OF rh(1) c] by auto
  qed
  show ?thesis
    using * [OF ids(1) ids(3) [symmetric], of d1] * [OF ids(2) ids(4) [symmetric], of d2]
      holds_receive [OF _ ids(2) ids(4) [symmetric]] holds_receive [OF _ ids(1) ids(3) [symmetric]] ids(5,6)
    by fastforce
qed

theorem rbuf_reassembles_witness:
  "\<exists>r'. run_ops rb_step (RReceive [1] (4 OR 2) # [RReceive [9] 10, RObserve 16]) (rbuf_ctor (2 ^ Suc 5) 128) = Some r' \<and>
     fst (receive_piece [2] (4 OR 3) r') = Some [1, 2]"
proof -
  let ?r = "rbuf_ctor (2 ^ Suc 5) 128"
  have inv: "rbuf_inv ?r" "view ?r = (\<lambda>_. None)" by (rule rbuf_ctor_inv; simp)+
  have n: "newest ?r = None" "bufsize ?r = 64" by (simp_all add: rbuf_ctor_def Let_def)
  show ?thesis
    using rbuf_reassembles [OF inv(1), of 4 1 "[RReceive [9] 10, RObserve 16]" "[1]" "[2]"] inv(2) n
    by (simp add: new_newest_def late_def drop_bit_eq_div del: run_ops.simps)
qed

text \<open>
  \<open>completes\<close> predicts \<open>receive\<close> exactly: it is true if and only if receiving the piece would
  deliver a reassembled datagram.
\<close>

theorem rbuf_completes_exact:
  assumes "rbuf_inv r" and "dgid < 65536"
  shows "completes dgid r \<longleftrightarrow> fst (receive_piece data dgid r) \<noteq> None"
proof -
  let ?c = "drop_bit 2 dgid"
  have c: "?c < 16384" using assms(2) by (simp add: drop_bit_eq_div)
  have comp: "completes dgid r \<longleftrightarrow> (\<exists>f d. view r ?c = Some (f, d) \<and> f \<noteq> (dgid AND 3 = 2))"
    using c by (auto simp: completes_def view_def held_piece_def piece_at_def Let_def split: option.splits)
  obtain res r' where r: "receive_piece data dgid r = (res, r')"
    "if late r ?c then res = None \<and> view r' = view r
         else \<exists>n. new_newest r ?c = Some n \<and> held_block r n (block_of r ?c) \<and>
           (res, view r') = reassemble (keep_blocks r n (view r)) ?c (dgid AND 3 = 2) data"
    by (rule receive_spec [OF assms refl, of data])
  show ?thesis
  proof (cases "late r ?c")
    case True
    then have "view r ?c = None" by (auto simp: late_def view_def held_piece_def split: option.splits)
    then show ?thesis using r True comp by simp
  next
    case False
    then obtain n where "(res, view r') = reassemble (keep_blocks r n (view r)) ?c (dgid AND 3 = 2) data"
      "held_block r n (block_of r ?c)" using r(2) by auto
    then show ?thesis
      unfolding comp using r(1)
      by (auto simp: reassemble_def keep_blocks_def split: option.splits if_splits)
  qed
qed

theorem rbuf_completes_exact_witness:
  "completes 6 (rbuf_ctor (2 ^ Suc 5) 128) \<longleftrightarrow> fst (receive_piece [1] 6 (rbuf_ctor (2 ^ Suc 5) 128)) \<noteq> None"
  by (rule rbuf_completes_exact) (rule rbuf_ctor_inv, simp_all)

end
