(* ===== verification/Text_Util.thy ===== *)
theory Text_Util
  imports Quic_Prelude
begin

text \<open>
  Numbers as text: the decimal digits of a number, digits as characters, the printing of an unsigned
  integer, and \<open>parse_int\<close> of \<open>utils.hpp\<close>.
\<close>

section \<open>Decimal digits\<close>

fun digits10 :: "nat \<Rightarrow> nat list" where
  "digits10 n = (if n < 10 then [n] else digits10 (n div 10) @ [n mod 10])"

declare digits10.simps [simp del]

definition undigits10 :: "nat list \<Rightarrow> nat" where
  "undigits10 ds = foldl (\<lambda>v d. 10 * v + d) 0 ds"

lemma undigits10_simps [simp]:
  "undigits10 [] = 0" "undigits10 (ds @ [d]) = 10 * undigits10 ds + d"
  by (simp_all add: undigits10_def)

lemma undigits10_digits10 [simp]: "undigits10 (digits10 n) = n"
proof (induction n rule: digits10.induct)
  case (1 n)
  show ?case
  proof (cases "n < 10")
    case True
    then have "digits10 n = [] @ [n]" by (simp add: digits10.simps)
    then show ?thesis by (simp only: undigits10_simps)
  next
    case False
    then have "digits10 n = digits10 (n div 10) @ [n mod 10]" by (subst digits10.simps) simp
    then show ?thesis using 1 False by simp
  qed
qed

lemma digits10_less: "d \<in> set (digits10 n) \<Longrightarrow> d < 10"
proof (induction n rule: digits10.induct)
  case (1 n)
  then show ?case by (subst (asm) (2) digits10.simps) (auto split: if_splits)
qed

lemma digits10_nonempty [simp]: "digits10 n \<noteq> []"
  by (subst digits10.simps) simp

lemma length_digits10_le: "n < 10 ^ k \<Longrightarrow> 0 < k \<Longrightarrow> length (digits10 n) \<le> k"
proof (induction k arbitrary: n)
  case (Suc k)
  show ?case
  proof (cases "n < 10")
    case True
    then show ?thesis by (simp add: digits10.simps)
  next
    case False
    then have k: "0 < k" using Suc.prems(1) by (cases k) auto
    have "n div 10 < 10 ^ k" using Suc.prems(1) by (simp add: less_mult_imp_div_less)
    then have "length (digits10 (n div 10)) \<le> k" using Suc.IH k by simp
    then show ?thesis using False by (subst digits10.simps) simp
  qed
qed simp

text \<open>The representation of a number other than zero has no leading zero.\<close>

lemma hd_digits10: "0 < n \<Longrightarrow> hd (digits10 n) \<noteq> 0"
proof (induction n rule: digits10.induct)
  case (1 n)
  show ?case
  proof (cases "n < 10")
    case True
    then show ?thesis using 1 by (simp add: digits10.simps)
  next
    case False
    then have "digits10 n = digits10 (n div 10) @ [n mod 10]" by (subst digits10.simps) simp
    then show ?thesis using 1 False by simp
  qed
qed

lemma undigits10_bound: "\<forall>d\<in>set ds. d < 10 \<Longrightarrow> undigits10 ds < 10 ^ length ds"
proof (induction ds rule: rev_induct)
  case (snoc d ds)
  then have "undigits10 ds < 10 ^ length ds" "d < 10" by simp_all
  then have "10 * undigits10 ds + d < 10 * 10 ^ length ds" by linarith
  then show ?case by simp
qed simp

section \<open>Digits as characters and as bytes\<close>

definition is_digit :: "char \<Rightarrow> bool" where
  "is_digit c \<longleftrightarrow> 48 \<le> (of_char c :: nat) \<and> (of_char c :: nat) \<le> 57"

definition digit_char :: "nat \<Rightarrow> char" where
  "digit_char d = char_of (48 + d)"

definition digit_of_char :: "char \<Rightarrow> nat" where
  "digit_of_char c = of_char c - 48"

definition dec_string :: "nat \<Rightarrow> string" where
  "dec_string n = map digit_char (digits10 n)"

lemma digit_char_facts:
  assumes "d < 10"
  shows "is_digit (digit_char d)" and "digit_of_char (digit_char d) = d"
  using assms by (simp_all add: is_digit_def digit_char_def digit_of_char_def)

lemma dec_string_digits: "\<forall>c\<in>set (dec_string n). is_digit c"
  using digits10_less digit_char_facts(1) by (auto simp: dec_string_def)

lemma dec_string_nonempty [simp]: "dec_string n \<noteq> []"
  by (simp add: dec_string_def)

lemma dec_string_value: "undigits10 (map digit_of_char (dec_string n)) = n"
proof -
  have "map (digit_of_char \<circ> digit_char) (digits10 n) = map id (digits10 n)"
    using digits10_less by (intro map_cong) (auto simp: digit_char_facts)
  then show ?thesis by (simp add: dec_string_def)
qed

text \<open>
  \<open>parse_int\<close> in base 10 for an unsigned type with largest value \<open>maxv\<close>: \<open>std::from_chars\<close> reads the
  longest prefix of digits and fails if there is none or if its value is out of range; the whole
  string has to be consumed.
\<close>

definition from_chars :: "nat \<Rightarrow> string \<Rightarrow> (nat \<times> string) option" where
  "from_chars maxv s =
     (let ds = takeWhile is_digit s; v = undigits10 (map digit_of_char ds)
      in if ds = [] \<or> v > maxv then None else Some (v, dropWhile is_digit s))"

definition parse_int :: "nat \<Rightarrow> string \<Rightarrow> nat option" where
  "parse_int maxv s = (case from_chars maxv s of Some (v, []) \<Rightarrow> Some v | _ \<Rightarrow> None)"

lemma parse_int_dec_string: "n \<le> maxv \<Longrightarrow> parse_int maxv (dec_string n) = Some n"
proof -
  assume n: "n \<le> maxv"
  have "takeWhile is_digit (dec_string n) = dec_string n" "dropWhile is_digit (dec_string n) = []"
    using dec_string_digits [of n] by simp_all
  note * = this
  show ?thesis
    unfolding parse_int_def from_chars_def * Let_def using n by (simp add: dec_string_value)
qed

end
