(* ===== verification/Io_Result.thy ===== *)
theory Io_Result
  imports Text_Util
begin

text \<open>
  Error codes and results, \<open>result.hpp\<close> and \<open>result.cpp\<close>. The numeric values of \<open>errno\<close> codes and of
  ngtcp2's codes come from system headers, so they are the fields of a record that is passed in.
\<close>

section \<open>Error codes\<close>

definition ERROR_BASE :: nat where
  "ERROR_BASE = 777000000"

definition STREAM_ERROR_CONNECTION_CLOSED :: nat where
  "STREAM_ERROR_CONNECTION_CLOSED = ERROR_BASE + 1"

definition STREAM_ERROR_EXCEPTION :: nat where
  "STREAM_ERROR_EXCEPTION = ERROR_BASE + 100"

definition BTREQ_ERROR_EXCEPTION :: nat where
  "BTREQ_ERROR_EXCEPTION = ERROR_BASE + 105"

definition DATAGRAM_ERROR_EXCEPTION :: nat where
  "DATAGRAM_ERROR_EXCEPTION = ERROR_BASE + 200"

definition CONN_WRITE_CLOSE_FAIL :: nat where
  "CONN_WRITE_CLOSE_FAIL = ERROR_BASE + 1000"

definition CONN_SEND_CLOSE_FAIL :: nat where
  "CONN_SEND_CLOSE_FAIL = ERROR_BASE + 1001"

definition CONN_SEND_FAIL :: nat where
  "CONN_SEND_FAIL = ERROR_BASE + 1002"

definition CONN_IDLE_CLOSED :: nat where
  "CONN_IDLE_CLOSED = ERROR_BASE + 1003"

definition CONN_EARLY_DATA_REJECTED :: nat where
  "CONN_EARLY_DATA_REJECTED = ERROR_BASE + 1004"

definition CONN_STATELESS_RESET :: nat where
  "CONN_STATELESS_RESET = ERROR_BASE + 1005"

definition CONN_MTU_EXCEEDED :: nat where
  "CONN_MTU_EXCEEDED = ERROR_BASE + 1006"

lemmas error_code_defs =
  ERROR_BASE_def STREAM_ERROR_CONNECTION_CLOSED_def STREAM_ERROR_EXCEPTION_def BTREQ_ERROR_EXCEPTION_def
  DATAGRAM_ERROR_EXCEPTION_def CONN_WRITE_CLOSE_FAIL_def CONN_SEND_CLOSE_FAIL_def CONN_SEND_FAIL_def
  CONN_IDLE_CLOSED_def CONN_EARLY_DATA_REJECTED_def CONN_STATELESS_RESET_def CONN_MTU_EXCEEDED_def

definition quic_strerror :: "nat \<Rightarrow> string" where
  "quic_strerror e =
     (if e = 0 then ''No error''
      else if e = DATAGRAM_ERROR_EXCEPTION then ''Error - datagram exception''
      else if e = STREAM_ERROR_EXCEPTION then ''Error - stream exception''
      else if e = BTREQ_ERROR_EXCEPTION then ''Error - BTRequestStream exception''
      else if e = STREAM_ERROR_CONNECTION_CLOSED then ''Error - stream connection closed''
      else if e = CONN_WRITE_CLOSE_FAIL then ''Error - Failed to write connection close''
      else if e = CONN_SEND_CLOSE_FAIL then ''Error - Failed to send connection close''
      else if e = CONN_SEND_FAIL then ''Error - Failed to send packet''
      else if e = CONN_IDLE_CLOSED then ''Connection closed by idle timeout''
      else if e = CONN_MTU_EXCEEDED then ''Connection closed because the path can no longer carry its packets''
      else ''Application error code '' @ dec_string e)"

section \<open>The result of a system call\<close>

record os_codes =
  EAGAIN :: int
  EWOULDBLOCK :: int
  EMSGSIZE :: int
  ENOBUFS :: int
  ENETUNREACH :: int
  EHOSTUNREACH :: int
  ENETDOWN :: int
  NGTCP2_ERR_STREAM_DATA_BLOCKED :: int

record io_result =
  error_code :: int
  res_is_ngtcp2 :: bool

definition io_result_ok :: io_result where
  "io_result_ok = \<lparr>error_code = 0, res_is_ngtcp2 = False\<rparr>"

definition io_result_errno :: "int \<Rightarrow> io_result" where
  "io_result_errno errno_val = \<lparr>error_code = errno_val, res_is_ngtcp2 = False\<rparr>"

definition io_result_ngtcp2 :: "int \<Rightarrow> io_result" where
  "io_result_ngtcp2 err = \<lparr>error_code = err, res_is_ngtcp2 = True\<rparr>"

definition success :: "io_result \<Rightarrow> bool" where
  "success r \<longleftrightarrow> error_code r = 0"

definition failure :: "io_result \<Rightarrow> bool" where
  "failure r \<longleftrightarrow> \<not> success r"

definition blocked :: "os_codes \<Rightarrow> io_result \<Rightarrow> bool" where
  "blocked os r \<longleftrightarrow>
     (if res_is_ngtcp2 r then error_code r = NGTCP2_ERR_STREAM_DATA_BLOCKED os
      else error_code r = EAGAIN os \<or> error_code r = EWOULDBLOCK os)"

definition too_big :: "os_codes \<Rightarrow> io_result \<Rightarrow> bool" where
  "too_big os r \<longleftrightarrow> (if res_is_ngtcp2 r then False else error_code r = EMSGSIZE os)"

definition no_buffers :: "os_codes \<Rightarrow> io_result \<Rightarrow> bool" where
  "no_buffers os r \<longleftrightarrow> (if res_is_ngtcp2 r then False else error_code r = ENOBUFS os)"

definition unreachable :: "os_codes \<Rightarrow> io_result \<Rightarrow> bool" where
  "unreachable os r \<longleftrightarrow>
     (if res_is_ngtcp2 r then False
      else error_code r = ENETUNREACH os \<or> error_code r = EHOSTUNREACH os \<or> error_code r = ENETDOWN os)"

text \<open>
  What POSIX says of the codes: they are not zero, and those of different meaning differ (\<open>EAGAIN\<close> and
  \<open>EWOULDBLOCK\<close> may be the same).
\<close>

definition posix_codes :: "os_codes \<Rightarrow> bool" where
  "posix_codes os \<longleftrightarrow>
     0 \<notin> {EAGAIN os, EWOULDBLOCK os, EMSGSIZE os, ENOBUFS os, ENETUNREACH os, EHOSTUNREACH os, ENETDOWN os} \<and>
     distinct [EAGAIN os, EMSGSIZE os, ENOBUFS os, ENETUNREACH os, EHOSTUNREACH os, ENETDOWN os] \<and>
     EWOULDBLOCK os \<notin> {EMSGSIZE os, ENOBUFS os, ENETUNREACH os, EHOSTUNREACH os, ENETDOWN os}"

text \<open>The four kinds of failure a send is classified by exclude each other.\<close>

lemma send_failures_exclusive:
  assumes "posix_codes os"
  shows "too_big os r \<Longrightarrow> \<not> blocked os r \<and> \<not> no_buffers os r \<and> \<not> unreachable os r"
    and "no_buffers os r \<Longrightarrow> \<not> blocked os r \<and> \<not> too_big os r \<and> \<not> unreachable os r"
    and "unreachable os r \<Longrightarrow> \<not> blocked os r \<and> \<not> too_big os r \<and> \<not> no_buffers os r"
  using assms
  by (auto simp: too_big_def no_buffers_def unreachable_def blocked_def posix_codes_def split: if_splits)

lemma success_no_failure:
  assumes "posix_codes os" and "success r" and "\<not> res_is_ngtcp2 r"
  shows "\<not> blocked os r" and "\<not> too_big os r" and "\<not> no_buffers os r" and "\<not> unreachable os r"
  using assms by (auto simp: success_def too_big_def no_buffers_def unreachable_def blocked_def posix_codes_def)

section \<open>The error a connection or stream is closed with\<close>

text \<open>
  A code is a \<open>uint64_t\<close>; an ngtcp2 code is a (negative) \<open>int\<close>, which is converted to it and back.
\<close>

record io_error =
  io_code :: nat
  err_is_ngtcp2 :: bool

definition io_error_int :: "int \<Rightarrow> io_error" where
  "io_error_int e = \<lparr>io_code = nat (e mod 2 ^ 64), err_is_ngtcp2 = True\<rparr>"

definition io_error_unsigned :: "nat \<Rightarrow> io_error" where
  "io_error_unsigned e = \<lparr>io_code = e mod 2 ^ 32, err_is_ngtcp2 = True\<rparr>"

definition io_error_u64 :: "nat \<Rightarrow> io_error" where
  "io_error_u64 e = \<lparr>io_code = e, err_is_ngtcp2 = False\<rparr>"

definition ngtcp2_code :: "io_error \<Rightarrow> int" where
  "ngtcp2_code err = (let r = int (io_code err) mod 2 ^ 32 in if r \<ge> 2 ^ 31 then r - 2 ^ 32 else r)"

definition io_strerror :: "(int \<Rightarrow> string) \<Rightarrow> io_error \<Rightarrow> string" where
  "io_strerror ngtcp2_strerror err =
     (if err_is_ngtcp2 err then ngtcp2_strerror (ngtcp2_code err) else quic_strerror (io_code err))"

section \<open>Properties\<close>

text \<open>
  Two of the library's own codes have no message: they are reported as application errors.
\<close>

lemma quic_strerror_missing:
  "quic_strerror CONN_EARLY_DATA_REJECTED = ''Application error code 777001004'' \<and>
   quic_strerror CONN_STATELESS_RESET = ''Application error code 777001005''"
  by (simp add: quic_strerror_def error_code_defs dec_string_def digit_char_def digits10.simps char_of_def bit_0)

text \<open>
  An ngtcp2 error code survives being stored as a 64-bit code: reading it back gives the same
  (negative) \<open>int\<close>, it is recognised as an ngtcp2 code, and it is described by ngtcp2's message.
\<close>

theorem io_error_ngtcp2_roundtrip:
  assumes "- (2 ^ 31) \<le> e" and "e < 2 ^ 31"
  shows "ngtcp2_code (io_error_int e) = e \<and> err_is_ngtcp2 (io_error_int e) \<and>
    io_strerror ngtcp2_strerror (io_error_int e) = ngtcp2_strerror e \<and> io_code (io_error_int e) < 2 ^ 64"
proof -
  have "e mod 2 ^ 64 mod 2 ^ 32 = (e mod 2 ^ 32 :: int)" by (simp add: mod_mod_cancel)
  moreover have "e mod 2 ^ 32 = (if e < 0 then e + 2 ^ 32 else e)"
  proof (cases "e < 0")
    case True
    have "e mod 2 ^ 32 = (e + 2 ^ 32) mod 2 ^ 32" by simp
    also have "\<dots> = e + 2 ^ 32" using True assms by (intro mod_pos_pos_trivial) simp_all
    finally show ?thesis using True by simp
  next
    case False
    then show ?thesis using assms by (simp add: mod_pos_pos_trivial)
  qed
  ultimately have *: "ngtcp2_code (io_error_int e) = e"
    using assms by (simp add: ngtcp2_code_def io_error_int_def Let_def)
  moreover have "nat (e mod 2 ^ 64) < 2 ^ 64" by (simp add: nat_less_iff)
  ultimately show ?thesis by (simp add: io_strerror_def) (simp add: io_error_int_def)
qed

theorem io_error_ngtcp2_roundtrip_witness:
  "ngtcp2_code (io_error_int (- 230)) = - 230 \<and> io_code (io_error_int (- 230)) = 18446744073709551386"
  using io_error_ngtcp2_roundtrip [of "- 230" "\<lambda>_. []"] by (simp add: io_error_int_def)

end
