(* ===== verification/Options.thy ===== *)
theory Options
  imports Io_Result
begin

unbundle bit_operations_syntax

text \<open>
  The options an application passes to endpoints and connections (\<open>opt.hpp\<close>) that check or transform
  their arguments, with the size constants of \<open>utils.hpp\<close> they rest on. A constructor that throws is a
  sum: \<open>Inl\<close> is the exception.
\<close>

datatype opt_error = OutOfRange | InvalidOption | RuntimeError

section \<open>UDP payload sizes\<close>

definition MIN_UDP_PAYLOAD :: nat where "MIN_UDP_PAYLOAD = 1200"

definition MAX_PMTUD_UDP_PAYLOAD :: nat where "MAX_PMTUD_UDP_PAYLOAD = 1472"

definition MAX_IPV6_UDP_PAYLOAD :: nat where "MAX_IPV6_UDP_PAYLOAD = 1452"

definition DEFAULT_PMTUD_PROBES :: "nat list" where
  "DEFAULT_PMTUD_PROBES = [1452, 1472, 1372, 1444, 1406, 1342, 1324, 1232]"

text \<open>The object is the list of sizes to probe.\<close>

type_synonym max_udp_payload = "nat list"

definition max_udp_payload_of :: "nat \<Rightarrow> opt_error + max_udp_payload" where
  "max_udp_payload_of mx =
     (if mx < MIN_UDP_PAYLOAD then Inl InvalidOption
      else Inr (filter (\<lambda>sz. sz \<le> mx) DEFAULT_PMTUD_PROBES))"

fun check_probes :: "nat list \<Rightarrow> opt_error option" where
  "check_probes [] = None"
| "check_probes (sz # rest) =
     (if sz \<le> MIN_UDP_PAYLOAD \<or> sz > MAX_PMTUD_UDP_PAYLOAD then Some InvalidOption else check_probes rest)"

definition max_udp_payload_probes :: "nat list \<Rightarrow> opt_error + max_udp_payload" where
  "max_udp_payload_probes probes =
     (case check_probes probes of Some err \<Rightarrow> Inl err | None \<Rightarrow> Inr probes)"

definition probes_max :: "max_udp_payload \<Rightarrow> nat" where
  "probes_max probes = foldl max MIN_UDP_PAYLOAD probes"

definition max_udp_payload_minimum :: "opt_error + max_udp_payload" where
  "max_udp_payload_minimum = max_udp_payload_of MIN_UDP_PAYLOAD"

text \<open>The two factories subtract in \<open>size_t\<close>.\<close>

definition max_udp_payload_ipv4 :: "nat \<Rightarrow> opt_error + max_udp_payload" where
  "max_udp_payload_ipv4 link_mtu = max_udp_payload_of (sz_sub link_mtu 28)"

definition max_udp_payload_ipv6 :: "nat \<Rightarrow> opt_error + max_udp_payload" where
  "max_udp_payload_ipv6 link_mtu = max_udp_payload_of (sz_sub link_mtu 48)"

section \<open>Datagrams\<close>

datatype Splitting = NONE | ACTIVE

record dgram_options =
  split_packets :: bool
  mode :: Splitting
  opt_bufsize :: int
  dgram_queue_limit_opt :: "nat option"
  dgram_reorder_limit :: "int option"

definition enable_datagrams :: dgram_options where
  "enable_datagrams =
     \<lparr>split_packets = False, mode = NONE, opt_bufsize = 512, dgram_queue_limit_opt = None,
      dgram_reorder_limit = None\<rparr>"

definition enable_datagrams_split :: "Splitting \<Rightarrow> dgram_options" where
  "enable_datagrams_split m = enable_datagrams\<lparr>split_packets := True, mode := m\<rparr>"

text \<open>\<open>std::has_single_bit\<close> of an unsigned number.\<close>

definition has_single_bit :: "nat \<Rightarrow> bool" where
  "has_single_bit n \<longleftrightarrow> n \<noteq> 0 \<and> n AND (n - 1) = 0"

definition enable_datagrams_bufsize :: "Splitting \<Rightarrow> int \<Rightarrow> opt_error + dgram_options" where
  "enable_datagrams_bufsize m b =
     (if b < 64 \<or> b > 8192 \<or> \<not> has_single_bit (nat b) then Inl OutOfRange
      else Inr (enable_datagrams\<lparr>split_packets := True, mode := m, opt_bufsize := b\<rparr>))"

definition queue_limit :: "nat \<Rightarrow> dgram_options \<Rightarrow> dgram_options" where
  "queue_limit limit opts =
     (if limit = 0 then opts\<lparr>dgram_queue_limit_opt := Some (SIZE_MOD - 1)\<rparr>
      else opts\<lparr>dgram_queue_limit_opt := Some limit\<rparr>)"

definition reorder_limit :: "int \<Rightarrow> dgram_options \<Rightarrow> opt_error + dgram_options" where
  "reorder_limit limit opts =
     (if limit < opt_bufsize opts \<or> limit > 8192 then Inl OutOfRange
      else Inr (opts\<lparr>dgram_reorder_limit := Some limit\<rparr>))"

section \<open>Static secret and manual routing\<close>

definition SECRET_MIN_SIZE :: nat where "SECRET_MIN_SIZE = 16"

definition static_secret :: "bytes \<Rightarrow> opt_error + bytes" where
  "static_secret s = (if length s < SECRET_MIN_SIZE then Inl InvalidOption else Inr s)"

text \<open>A send handler is identified by a number; \<open>None\<close> is an empty function.\<close>

definition manual_routing :: "nat option \<Rightarrow> opt_error + nat option" where
  "manual_routing cb = (if cb = None then Inl RuntimeError else Inr cb)"

section \<open>Properties\<close>

lemma check_probes_None:
  "check_probes probes = None \<longleftrightarrow> (\<forall>sz\<in>set probes. MIN_UDP_PAYLOAD < sz \<and> sz \<le> MAX_PMTUD_UDP_PAYLOAD)"
  by (induction probes) auto

lemma foldl_max: "foldl max (a :: nat) xs = Max (insert a (set xs))"
proof (induction xs arbitrary: a)
  case (Cons x xs)
  have "insert a (set (x # xs)) = insert a (insert x (set xs))" by simp
  moreover have "Max (insert (max a x) (set xs)) = Max (insert a (insert x (set xs)))"
    by (cases "set xs = {}") (simp_all add: max.assoc)
  ultimately show ?case using Cons by simp
qed simp

text \<open>
  Every \<open>max_udp_payload\<close> that can be constructed, from a maximum or from a list of probes, only has
  sizes above the QUIC minimum of 1200 and at most 1472, which is the size of a packet slot in the send
  batch; its largest size is therefore between the two bounds.
\<close>

theorem max_udp_payload_wf:
  assumes "max_udp_payload_of mx = Inr p \<or> max_udp_payload_probes probes = Inr p"
  shows "list_all (\<lambda>sz. 1200 < sz \<and> sz \<le> 1472) p \<and> 1200 \<le> probes_max p \<and> probes_max p \<le> 1472"
proof -
  have p: "\<forall>sz\<in>set p. 1200 < sz \<and> sz \<le> 1472"
    using assms
  proof
    assume "max_udp_payload_of mx = Inr p"
    then have "set p \<subseteq> set DEFAULT_PMTUD_PROBES" by (auto simp: max_udp_payload_of_def split: if_splits)
    then show ?thesis by (auto simp: DEFAULT_PMTUD_PROBES_def)
  next
    assume "max_udp_payload_probes probes = Inr p"
    then show ?thesis
      by (simp add: max_udp_payload_probes_def check_probes_None MIN_UDP_PAYLOAD_def MAX_PMTUD_UDP_PAYLOAD_def
          split: option.splits)
  qed
  have "probes_max p \<in> insert 1200 (set p)"
    unfolding probes_max_def foldl_max MIN_UDP_PAYLOAD_def by (rule Max_in) simp_all
  then have "1200 \<le> probes_max p \<and> probes_max p \<le> 1472" using p by auto
  then show ?thesis using p by (simp add: list_all_iff)
qed

theorem max_udp_payload_wf_witness:
  "max_udp_payload_of 1400 = Inr [1372, 1342, 1324, 1232] \<and>
   list_all (\<lambda>sz. 1200 < sz \<and> sz \<le> 1472) [1372, 1342, 1324, 1232::nat] \<and>
   probes_max [1372, 1342, 1324, 1232] = 1372"
proof -
  have e: "max_udp_payload_of 1400 = Inr [1372, 1342, 1324, 1232]"
    by (simp add: max_udp_payload_of_def DEFAULT_PMTUD_PROBES_def MIN_UDP_PAYLOAD_def)
  show ?thesis
    using max_udp_payload_wf [of 1400 "[1372, 1342, 1324, 1232]" "[]"] e
    by (simp add: probes_max_def MIN_UDP_PAYLOAD_def)
qed

text \<open>
  The factory for a link MTU below the header size does not report the error: the subtraction wraps
  around and all the default sizes are probed.
\<close>

lemma max_udp_payload_ipv4_wraps:
  "link_mtu < 28 \<Longrightarrow> max_udp_payload_ipv4 link_mtu = Inr DEFAULT_PMTUD_PROBES"
  by (simp add: max_udp_payload_ipv4_def sz_sub_def max_udp_payload_of_def DEFAULT_PMTUD_PROBES_def
      MIN_UDP_PAYLOAD_def)

end
