(* ===== verification/Datagrams.thy ===== *)
theory Datagrams
  imports Dgram_Queue_Correct Rotating_Buffer_Correct Options
begin

unbundle bit_operations_syntax

text \<open>
  The datagram channel: the endpoint settings that configure it, the class \<open>Datagrams\<close>
  that owns the send queue and the reassembly buffer, and \<open>Connection::recv_datagram\<close>, which feeds
  the buffer. Reading and writing a 16-bit integer in network order is done by oxenc, so the two
  functions are parameters (\<open>load\<close> and \<open>big\<close>), and so is the fail_rc code that ngtcp2 defines.
\<close>

section \<open>Options\<close>

text \<open>The datagram settings of an endpoint, and how the option sets them.\<close>

record ep_dgram_opts =
  ep_datagrams :: bool
  ep_packet_splitting :: bool
  ep_policy :: Splitting
  ep_rbufsize :: int
  ep_dgram_reorder_limit :: int
  ep_dgram_queue_limit :: nat

definition handle_ep_opt_datagrams :: "dgram_options \<Rightarrow> ep_dgram_opts" where
  "handle_ep_opt_datagrams dc =
     \<lparr>ep_datagrams = True, ep_packet_splitting = split_packets dc, ep_policy = mode dc,
      ep_rbufsize = opt_bufsize dc,
      ep_dgram_reorder_limit =
        (case dgram_reorder_limit dc of Some l \<Rightarrow> l | None \<Rightarrow> min (2 * opt_bufsize dc) 8192),
      ep_dgram_queue_limit = (case dgram_queue_limit_opt dc of Some l \<Rightarrow> l | None \<Rightarrow> 0)\<rparr>"

section \<open>The channel\<close>

datatype dgram_call = DgramPacketIoReady | DgramCheckEstablished | DgramCallback bytes | DgramCloseConnection nat

record dgrams =
  dg_conn :: bool
  dgram_data_cb :: bool
  dgram_queue_limit :: nat
  dgram_drop_count :: nat
  next_dgram_counter :: nat
  recv_buffer :: rbuf
  send_buffer :: dqueue
  dg_splitting :: bool
  dg_out :: "dgram_call list"

definition dgrams_ctor :: "bool \<Rightarrow> nat \<Rightarrow> ep_dgram_opts \<Rightarrow> dgrams" where
  "dgrams_ctor cb limit ep =
     \<lparr>dg_conn = True, dgram_data_cb = cb,
      dgram_queue_limit = (if limit \<noteq> 0 then limit else 2000000),
      dgram_drop_count = 0, next_dgram_counter = 0,
      recv_buffer = rbuf_ctor (ep_rbufsize ep) (ep_dgram_reorder_limit ep),
      send_buffer = queue_ctor (ep_packet_splitting ep), dg_splitting = ep_packet_splitting ep, dg_out = []\<rparr>"

definition dgrams_unsent_impl :: "dgrams \<Rightarrow> nat" where
  "dgrams_unsent_impl d = pending_bytes (send_buffer d)"

definition dgrams_is_empty_impl :: "dgrams \<Rightarrow> bool" where
  "dgrams_is_empty_impl d = queue_empty (send_buffer d)"

definition dgrams_has_unsent_impl :: "dgrams \<Rightarrow> bool" where
  "dgrams_has_unsent_impl d = (\<not> dgrams_is_empty_impl d)"

definition set_split_datagram_lookahead :: "int \<Rightarrow> dgrams \<Rightarrow> dgrams" where
  "set_split_datagram_lookahead n d =
     d\<lparr>send_buffer := (send_buffer d)\<lparr>split_lookahead := (if n \<ge> 0 then nat n else DEFAULT_SPLIT_LOOKAHEAD)\<rparr>\<rparr>"

definition dgrams_send_impl :: "bytes \<Rightarrow> keep_alive \<Rightarrow> dgrams \<Rightarrow> dgrams" where
  "dgrams_send_impl data keep d =
     (if \<not> dg_conn d then d
      else if dgrams_unsent_impl d > dgram_queue_limit d
      then d\<lparr>dgram_drop_count := sz_add (dgram_drop_count d) 1\<rparr>
      else let base_dgid = push_bit 2 (next_dgram_counter d);
               d = d\<lparr>next_dgram_counter := (next_dgram_counter d + 1) mod 16384\<rparr>;
               d = d\<lparr>send_buffer := emplace data (base_dgid mod 65536) keep (send_buffer d)\<rparr>
           in d\<lparr>dg_out := dg_out d @ [DgramPacketIoReady]\<rparr>)"

definition get_split_datagram_lookahead :: "dgrams \<Rightarrow> int" where
  "get_split_datagram_lookahead d =
     (let r = int (split_lookahead (send_buffer d)) mod 2 ^ 32 in if r \<ge> 2 ^ 31 then r - 2 ^ 32 else r)"

definition dgrams_early_data_begin :: "dgrams \<Rightarrow> dgrams option" where
  "dgrams_early_data_begin d = map_option (\<lambda>q. d\<lparr>send_buffer := q\<rparr>) (early_data_begin (send_buffer d))"

definition dgrams_early_data_retry :: "dgrams \<Rightarrow> dgrams" where
  "dgrams_early_data_retry d = d\<lparr>send_buffer := early_data_retry (send_buffer d)\<rparr>"

definition dgrams_early_data_end :: "bool \<Rightarrow> dgrams \<Rightarrow> dgrams" where
  "dgrams_early_data_end acc d = d\<lparr>send_buffer := early_data_end acc (send_buffer d)\<rparr>"

definition dgrams_is_closing_impl :: "dgrams \<Rightarrow> bool" where
  "dgrams_is_closing_impl d = False"

definition dgrams_pending :: "nat \<Rightarrow> bool \<Rightarrow> dgrams \<Rightarrow> (prepared option \<times> dgrams) option" where
  "dgrams_pending max_piece prefer_small d =
     (case fetch max_piece prefer_small (send_buffer d) of
        None \<Rightarrow> None
      | Some (p, q) \<Rightarrow> Some (p, d\<lparr>send_buffer := q\<rparr>))"

definition confirm_datagram_sent :: "dgrams \<Rightarrow> dgrams option" where
  "confirm_datagram_sent d = map_option (\<lambda>q. d\<lparr>send_buffer := q\<rparr>) (confirm_sent (send_buffer d))"

text \<open>
  The two debugging fields of the connection that \<open>to_buffer\<close> uses are passed in: whether packets that
  would complete a datagram are dropped, and the counter it then bumps.
\<close>

definition to_buffer :: "bool \<Rightarrow> nat \<Rightarrow> bytes \<Rightarrow> nat \<Rightarrow> dgrams \<Rightarrow> bytes option \<times> nat \<times> dgrams" where
  "to_buffer drop_enabled counter data dgid d =
     (if drop_enabled \<and> completes dgid (recv_buffer d) then (None, counter + 1, d)
      else let (res, rb) = receive_piece data dgid (recv_buffer d)
           in (res, counter, d\<lparr>recv_buffer := rb\<rparr>))"

text \<open>
  The part of \<open>recv_datagram\<close> that hands a datagram to the callback; \<open>throws\<close> is whether it throws and
  \<open>fail_rc\<close> is ngtcp2's code for a failed callback (\<open>NGTCP2_ERR_CALLBACK_FAILURE\<close>).
\<close>

definition deliver_datagram :: "int \<Rightarrow> (bytes \<Rightarrow> bool) \<Rightarrow> bytes \<Rightarrow> dgrams \<Rightarrow> int \<times> dgrams" where
  "deliver_datagram fail_rc throws data d =
     (if \<not> dgram_data_cb d then (0, d)
      else let d = d\<lparr>dg_out := dg_out d @ [DgramCallback data]\<rparr>
           in if throws data
              then (fail_rc,
                    d\<lparr>dg_out := dg_out d @ [DgramCloseConnection DATAGRAM_ERROR_EXCEPTION]\<rparr>)
              else (0, d))"

definition recv_datagram ::
    "int \<Rightarrow> (bytes \<Rightarrow> nat) \<Rightarrow> (bytes \<Rightarrow> bool) \<Rightarrow> bool \<Rightarrow> bool \<Rightarrow> nat \<Rightarrow> bytes \<Rightarrow> dgrams \<Rightarrow> int \<times> nat \<times> dgrams" where
  "recv_datagram fail_rc load throws hook_called drop_enabled counter data d =
     (let d = (if \<not> hook_called then d\<lparr>dg_out := dg_out d @ [DgramCheckEstablished]\<rparr> else d)
      in if \<not> dg_splitting d
         then let (rc, d) = deliver_datagram fail_rc throws data d in (rc, counter, d)
         else if length data < 2 then (0, counter, d)
         else let dgid = load (take 2 data); data = drop 2 data
              in if dgid mod 4 = 0
                 then let d = d\<lparr>recv_buffer := observe dgid (recv_buffer d)\<rparr>;
                          (rc, d) = deliver_datagram fail_rc throws data d
                      in (rc, counter, d)
                 else case to_buffer drop_enabled counter data dgid d of
                        (None, counter, d) \<Rightarrow> (0, counter, d)
                      | (Some whole, counter, d) \<Rightarrow>
                          let (rc, d) = deliver_datagram fail_rc throws whole d in (rc, counter, d))"

end
