(* ===== verification/Datagrams_Correct.thy ===== *)
theory Datagrams_Correct
  imports Datagrams
begin

unbundle bit_operations_syntax

text \<open>
  Properties of the datagram channel: two channels joined by a network deliver what was queued, and
  the queue limit holds. The sending side rests on the model of the send queue, the receiving side on the
  refinement of the reassembly buffer.
\<close>

section \<open>Two connected channels\<close>

text \<open>
  A sending and a receiving channel joined by a network that loses and reorders nothing: up to \<open>k\<close> times
  the sender's next piece is fetched, written out as its buffers (\<open>big\<close> and \<open>load\<close> write and read the
  16-bit id), confirmed as sent, and handed to the receiver.
\<close>

fun pump :: "(nat \<Rightarrow> bytes) \<Rightarrow> (bytes \<Rightarrow> nat) \<Rightarrow> int \<Rightarrow> nat \<Rightarrow> nat \<Rightarrow> dgrams \<Rightarrow> dgrams \<Rightarrow> (dgrams \<times> dgrams) option" where
  "pump big load fail_rc m 0 s r = Some (s, r)"
| "pump big load fail_rc m (Suc k) s r =
     (case dgrams_pending m False s of
        None \<Rightarrow> None
      | Some (None, s) \<Rightarrow> Some (s, r)
      | Some (Some p, s) \<Rightarrow>
          (case confirm_datagram_sent s of
             None \<Rightarrow> None
           | Some s \<Rightarrow>
               pump big load fail_rc m k s
                 (snd (snd (recv_datagram fail_rc load (\<lambda>_. False) True False 0 (concat (prepared_bufs big p)) r)))))"

text \<open>The send queue, one piece at a time.\<close>

lemmas flush_defs = fetch_def pick_def fetch_head_def storage_ctor_def unsendable_def head_index_def sent_def
  confirm_sent_def status_or_def status_of_bits_def prepared_ctor_def DGID_SPLIT_FIRST_def
  DGID_SPLIT_SECOND_def Let_def

lemma flush_whole:
  assumes "early_data_head q = None" "buf q = storage_ctor d dgid keep # rest" "length d \<le> m" "m < 65536"
  shows "\<exists>q1 q2. fetch m False q = Some (Some (prepared_ctor (packet_splitting q) dgid d), q1) \<and>
    confirm_sent q1 = Some q2 \<and> buf q2 = rest \<and> early_data_head q2 = None \<and> packet_splitting q2 = packet_splitting q"
  using assms by (simp add: flush_defs)

lemma flush_first:
  assumes "early_data_head q = None" "buf q = storage_ctor d dgid keep # rest" "packet_splitting q"
    "m < length d" "length d \<le> 2 * m" "m < 65536"
  shows "\<exists>q1 q2. fetch m False q = Some (Some (prepared_ctor True (dgid OR 2) (take m d)), q1) \<and>
    confirm_sent q1 = Some q2 \<and> buf q2 = (storage_ctor d dgid keep)\<lparr>status := SentFirst, split_pos := m\<rparr> # rest \<and>
    early_data_head q2 = None \<and> packet_splitting q2"
  using assms by (simp add: flush_defs)

lemma flush_second:
  assumes "early_data_head q = None"
    "buf q = (storage_ctor d dgid keep)\<lparr>status := SentFirst, split_pos := m\<rparr> # rest" "packet_splitting q"
    "m < length d" "length d \<le> 2 * m" "m < 65536"
  shows "\<exists>q1 q2. fetch m False q = Some (Some (prepared_ctor True (dgid OR 3) (drop m d)), q1) \<and>
    confirm_sent q1 = Some q2 \<and> buf q2 = rest \<and> early_data_head q2 = None \<and> packet_splitting q2"
proof -
  have "\<not> m < length d - m" using assms(5) by simp
  then show ?thesis using assms by (simp add: flush_defs sz_sub_exact)
qed
text \<open>The receiver, when datagrams arrive in order and complete.\<close>

definition ready :: "rbuf \<Rightarrow> nat \<Rightarrow> bool" where
  "ready r c \<longleftrightarrow> rbuf_inv r \<and> view r = (\<lambda>_. None) \<and> reorder_blocks r < nblocks r \<and>
     (newest r = None \<or> newest r = Some (block_of r ((c + 16383) mod 16384)))"

lemma block_next:
  assumes p: "params_ok r" and c: "c < 16384"
  shows "block_of r c = block_of r ((c + 16383) mod 16384) \<or>
    block_of r c = (block_of r ((c + 16383) mod 16384) + 1) mod nblocks r"
proof (cases "c = 0")
  case True
  define s where "s = block_shift r"
  have s: "s \<le> 12" and n: "nblocks r = 2 ^ (14 - s)" using p by (simp_all add: params_ok_def s_def)
  have e: "(16384 :: nat) = 2 ^ (14 - s) * 2 ^ s" using s by (simp flip: power_add)
  have "(16383 :: nat) div 2 ^ s = 2 ^ (14 - s) - 1"
  proof (rule div_nat_eqI)
    show "2 ^ s * (2 ^ (14 - s) - 1) \<le> (16383::nat)"
    proof -
      have "(1 :: nat) \<le> 2 ^ s" by simp
      moreover have "2 ^ s * (2 ^ (14 - s) - 1) = (16384 :: nat) - 2 ^ s"
        using e by (simp add: diff_mult_distrib2 mult.commute)
      ultimately show ?thesis by linarith
    qed
    have "(16383 :: nat) < 16384" by simp
    also have "\<dots> = 2 ^ s * Suc (2 ^ (14 - s) - 1)" using e by (simp add: mult.commute)
    finally show "(16383::nat) < 2 ^ s * Suc (2 ^ (14 - s) - 1)" .
  qed
  then have "block_of r 16383 = nblocks r - 1" by (simp add: drop_bit_eq_div s_def [symmetric] n of_nat_diff)
  then show ?thesis using True by simp
next
  case False
  then have e: "(c + 16383) mod 16384 = c - 1" using c by (simp add: mod_if)
  obtain a where a: "c = Suc a" using False by (cases c) auto
  have "Suc a div 2 ^ block_shift r = a div 2 ^ block_shift r \<or> Suc a div 2 ^ block_shift r = Suc (a div 2 ^ block_shift r)"
    by (simp add: div_Suc)
  moreover have "block_of r c < nblocks r" using nblocks_facts(3) [OF p c] .
  moreover have "(c + 16383) mod 16384 = a" using e a by simp
  ultimately show ?thesis by (auto simp: a drop_bit_eq_div simp del: add_Suc)
qed

lemma ready_next:
  assumes r: "ready r c" and c: "c < 16384"
  shows "\<not> late r c" and "new_newest r c = Some (block_of r c)"
proof -
  have p: "params_ok r" and re: "reorder_blocks r < nblocks r" using r by (simp_all add: ready_def rbuf_inv_def)
  let ?p = "(c + 16383) mod 16384"
  have pc: "?p < 16384" by simp
  have b: "0 \<le> block_of r c" "block_of r c < nblocks r" "0 \<le> block_of r ?p" "block_of r ?p < nblocks r"
    using nblocks_facts(3) [OF p c] nblocks_facts(3) [OF p pc] by simp_all
  note N = nblocks_facts(1) [OF p]
  have "\<not> late r c \<and> new_newest r c = Some (block_of r c)"
  proof (cases "newest r")
    case None
    then show ?thesis by (simp add: late_def new_newest_def)
  next
    case (Some n)
    then have n: "n = block_of r ?p" using r by (simp add: ready_def)
    show ?thesis
    proof (cases "block_of r c = n")
      case True
      then have "held_block r n (block_of r c)" using held_block_iff [OF p _ _ b(1,2), of n] b n by simp
      then show ?thesis using True Some by (simp add: late_def new_newest_def)
    next
      case False
      then have c1: "block_of r c = (n + 1) mod nblocks r" using block_next [OF p c] n by simp
      have "(n - block_of r c) mod nblocks r = nblocks r - 1"
        unfolding c1 using b(3,4) N n by (auto simp: mod_near mod_diff_right_eq)
      then have beh: "behind r n (block_of r c) = nblocks r - 1" using behind_mod [OF p] by simp
      then have "\<not> held_block r n (block_of r c)" using N by (simp add: held_block_def)
      then show ?thesis using beh re Some by (simp add: late_def new_newest_def)
    qed
  qed
  then show "\<not> late r c" "new_newest r c = Some (block_of r c)" by simp_all
qed

lemma ready_step:
  assumes "rbuf_inv r'" "same_params r r'" "newest r' = Some (block_of r c)" "view r' = (\<lambda>_. None)" "ready r c"
    and "c < 16384"
  shows "ready r' ((c + 1) mod 16384)"
proof -
  have "((c + 1) mod 16384 + 16383) mod 16384 = c" using assms(6) by (auto simp: mod_if)
  then show ?thesis using assms by (simp add: ready_def same_params_def)
qed

lemma ready_observe:
  assumes r: "ready r c" and c: "c < 16384"
  shows "ready (observe (4 * c) r) ((c + 1) mod 16384)"
proof -
  have inv: "rbuf_inv r" using r by (simp add: ready_def)
  obtain r' n where a: "advance c r = (\<not> late r c, r')" "rbuf_inv r'" "same_params r r'" "newest r' = Some n"
    "new_newest r c = Some n" "view r' = keep_blocks r n (view r)"
    by (rule advance_view [OF inv c])
  have "view r' = (\<lambda>_. None)" using a(6) r by (simp add: ready_def keep_blocks_def fun_eq_iff)
  moreover have "newest r' = Some (block_of r c)" using a(4,5) ready_next(2) [OF r c] by simp
  ultimately have "ready r' ((c + 1) mod 16384)" using ready_step a(2,3) r c by blast
  moreover have "observe (4 * c) r = r'" using a(1) by (simp add: observe_def drop_bit_eq_div)
  ultimately show ?thesis by simp
qed
lemma ready_pair:
  assumes r: "ready r c" and c: "c < 16384"
  obtains r1 r2 where "receive_piece d1 (4 * c OR 2) r = (None, r1)"
    and "receive_piece d2 (4 * c OR 3) r1 = (Some (d1 @ d2), r2)" and "ready r2 ((c + 1) mod 16384)"
proof -
  have inv: "rbuf_inv r" and v: "view r = (\<lambda>_. None)" using r by (simp_all add: ready_def)
  have m: "x AND 3 = x mod 4" for x :: nat using nat_and_mask [of x 2] by simp
  have base: "4 * c < 65536" "4 * c AND 3 = 0" "drop_bit 2 (4 * c) = c"
    unfolding m using c by (simp_all add: drop_bit_eq_div)
  note ids = split_ids [OF base(1,2), unfolded base(3)]
  note nx = ready_next [OF r c]
  obtain res r1 where a: "receive_piece d1 (4 * c OR 2) r = (res, r1)" "rbuf_inv r1" "same_params r r1"
    "newest r1 = new_newest r c"
    "if late r c then res = None \<and> view r1 = view r
     else \<exists>n. new_newest r c = Some n \<and> held_block r n (block_of r c) \<and>
       (res, view r1) = reassemble (keep_blocks r n (view r)) c ((4 * c OR 2) AND 3 = 2) d1"
    by (rule receive_spec [OF inv ids(1) ids(3) [symmetric], of d1])
  have kb: "keep_blocks r n (view r) = (\<lambda>_. None)" for n by (simp add: keep_blocks_def v fun_eq_iff)
  have hb: "held_block r (block_of r c) (block_of r c)"
    and res: "res = None" and v1: "view r1 = [c \<mapsto> (True, d1)]"
    using a(5) nx kb ids(5) by (simp_all add: reassemble_def)
  have n1: "newest r1 = Some (block_of r1 c)" using a(3,4) nx(2) by (simp add: same_params_def)
  have hb1: "held_block r1 (block_of r1 c) (block_of r1 c)"
    using hb a(3) by (simp add: same_params_def held_block_def behind_def)
  have nx1: "\<not> late r1 c" "new_newest r1 c = Some (block_of r1 c)"
    using n1 hb1 by (simp_all add: late_def new_newest_def)
  obtain res2 r2 where b: "receive_piece d2 (4 * c OR 3) r1 = (res2, r2)" "rbuf_inv r2" "same_params r1 r2"
    "newest r2 = new_newest r1 c"
    "if late r1 c then res2 = None \<and> view r2 = view r1
     else \<exists>n. new_newest r1 c = Some n \<and> held_block r1 n (block_of r1 c) \<and>
       (res2, view r2) = reassemble (keep_blocks r1 n (view r1)) c ((4 * c OR 3) AND 3 = 2) d2"
    by (rule receive_spec [OF a(2) ids(2) ids(4) [symmetric], of d2])
  have kb1: "keep_blocks r1 (block_of r1 c) (view r1) = [c \<mapsto> (True, d1)]"
    using hb1 by (auto simp: keep_blocks_def v1 fun_eq_iff)
  have "(res2, view r2) = (Some (d1 @ d2), \<lambda>_. None)"
    using b(5) nx1 kb1 ids(6) by (auto simp: reassemble_def fun_eq_iff)
  then have r2: "res2 = Some (d1 @ d2)" "view r2 = (\<lambda>_. None)" by simp_all
  have "same_params r r2" using same_params_trans a(3) b(3) by blast
  moreover have "newest r2 = Some (block_of r c)" using b(4) nx1(2) a(3) by (simp add: same_params_def)
  ultimately have "ready r2 ((c + 1) mod 16384)" using ready_step b(2) r2(2) r c by blast
  then show thesis using that a(1) b(1) res r2(1) by blast
qed

text \<open>What the receiver does with a whole datagram, and with the two pieces of one.\<close>

definition net_order :: "(nat \<Rightarrow> bytes) \<Rightarrow> (bytes \<Rightarrow> nat) \<Rightarrow> bool" where
  "net_order big load \<longleftrightarrow> (\<forall>n<65536. length (big n) = 2 \<and> load (big n) = n)"

abbreviation arrive :: "(nat \<Rightarrow> bytes) \<Rightarrow> (bytes \<Rightarrow> nat) \<Rightarrow> int \<Rightarrow> prepared \<Rightarrow> dgrams \<Rightarrow> dgrams" where
  "arrive big load fail_rc p r \<equiv>
     snd (snd (recv_datagram fail_rc load (\<lambda>_. False) True False 0 (concat (prepared_bufs big p)) r))"

definition receiver :: "nat \<Rightarrow> dgrams \<Rightarrow> bool" where
  "receiver c r \<longleftrightarrow> ready (recv_buffer r) c \<and> dg_splitting r \<and> dgram_data_cb r"

lemmas arrive_defs = recv_datagram_def deliver_datagram_def prepared_bufs_def prepared_ctor_def to_buffer_def Let_def

lemma arrive_whole:
  assumes "net_order big load" and "receiver c r" and "c < 16384"
  shows "receiver ((c + 1) mod 16384) (arrive big load fail_rc (prepared_ctor True (4 * c) d) r)"
    and "dg_out (arrive big load fail_rc (prepared_ctor True (4 * c) d) r) = dg_out r @ [DgramCallback d]"
proof -
  have b: "length (big (4 * c)) = 2" "load (big (4 * c)) = 4 * c" using assms(1,3) by (simp_all add: net_order_def)
  have o: "ready (observe (4 * c) (recv_buffer r)) ((c + 1) mod 16384)"
    using ready_observe assms(2,3) by (simp add: receiver_def)
  show "receiver ((c + 1) mod 16384) (arrive big load fail_rc (prepared_ctor True (4 * c) d) r)"
    "dg_out (arrive big load fail_rc (prepared_ctor True (4 * c) d) r) = dg_out r @ [DgramCallback d]"
    using assms(2) b o by (simp_all add: arrive_defs receiver_def)
qed

lemma arrive_pair:
  fixes fail_rc :: int and da db :: bytes
  assumes "net_order big load" and "receiver c r" and "c < 16384"
  defines "r1 \<equiv> arrive big load fail_rc (prepared_ctor True (4 * c OR 2) da) r"
  defines "r2 \<equiv> arrive big load fail_rc (prepared_ctor True (4 * c OR 3) db) r1"
  shows "receiver ((c + 1) mod 16384) r2" and "dg_out r2 = dg_out r @ [DgramCallback (da @ db)]"
proof -
  have m: "x AND 3 = x mod 4" for x :: nat using nat_and_mask [of x 2] by simp
  have "4 * c AND 3 = 0" unfolding m by simp
  note ids = split_ids [OF _ this, unfolded m]
  have lt: "4 * c < 65536" using assms(3) by simp
  have b: "length (big (4 * c OR 2)) = 2" "load (big (4 * c OR 2)) = 4 * c OR 2"
    "length (big (4 * c OR 3)) = 2" "load (big (4 * c OR 3)) = 4 * c OR 3"
    using assms(1) ids(1,2) [OF lt] by (simp_all add: net_order_def)
  obtain a1 a2 where p: "receive_piece da (4 * c OR 2) (recv_buffer r) = (None, a1)"
    "receive_piece db (4 * c OR 3) a1 = (Some (da @ db), a2)" "ready a2 ((c + 1) mod 16384)"
    using ready_pair [of "recv_buffer r" c da db] assms(2,3) by (auto simp: receiver_def)
  have r: "dg_splitting r" "dgram_data_cb r" using assms(2) by (simp_all add: receiver_def)
  have r1: "r1 = r\<lparr>recv_buffer := a1\<rparr>"
    unfolding r1_def using b(1,2) p(1) r ids(5) [OF lt] by (simp add: arrive_defs)
  have r2: "r2 = r\<lparr>recv_buffer := a2, dg_out := dg_out r @ [DgramCallback (da @ db)]\<rparr>"
    unfolding r2_def r1 using b(3,4) p(2) r ids(6) [OF lt] by (simp add: arrive_defs)
  show "receiver ((c + 1) mod 16384) r2" "dg_out r2 = dg_out r @ [DgramCallback (da @ db)]"
    using r p(3) by (simp_all add: r2 receiver_def)
qed
section \<open>End to end\<close>

text \<open>The send queue holds exactly the datagrams \<open>ds\<close>, unsent, numbered from \<open>c\<close> on.\<close>

fun numbered :: "nat \<Rightarrow> bytes list \<Rightarrow> storage list" where
  "numbered c [] = []"
| "numbered c (d # ds) = storage_ctor d (4 * c) None # numbered ((c + 1) mod 16384) ds"

definition sender :: "nat \<Rightarrow> bytes list \<Rightarrow> dgrams \<Rightarrow> bool" where
  "sender c ds s \<longleftrightarrow>
     early_data_head (send_buffer s) = None \<and> packet_splitting (send_buffer s) \<and> buf (send_buffer s) = numbered c ds"

lemma pump_step:
  assumes "fetch m False (send_buffer s) = Some (Some p, q1)" and "confirm_sent q1 = Some q2"
  shows "pump big load fail_rc m (Suc k) s r = pump big load fail_rc m k (s\<lparr>send_buffer := q2\<rparr>) (arrive big load fail_rc p r)"
  using assms by (simp add: dgrams_pending_def confirm_datagram_sent_def)

lemma pump_delivers:
  assumes "net_order big load" and "m < 65536"
  shows "sender c ds s \<Longrightarrow> receiver c r \<Longrightarrow> c < 16384 \<Longrightarrow> \<forall>d\<in>set ds. length d \<le> 2 * m \<Longrightarrow> 2 * length ds \<le> k \<Longrightarrow>
    \<exists>s' r'. pump big load fail_rc m k s r = Some (s', r') \<and> dgrams_is_empty_impl s' \<and>
      dg_out r' = dg_out r @ map DgramCallback ds \<and> receiver ((c + length ds) mod 16384) r'"
proof (induction ds arbitrary: c k s r)
  case Nil
  then have "fetch m False (send_buffer s) = Some (None, send_buffer s)"
    by (simp add: sender_def fetch_def pick_def head_index_def)
  then show ?case using Nil
    by (cases k) (simp_all add: dgrams_pending_def sender_def dgrams_is_empty_impl_def queue_empty_def head_index_def)
next
  case (Cons d ds)
  let ?c = "(c + 1) mod 16384"
  have c': "(?c + length ds) mod 16384 = (c + length (d # ds)) mod 16384" by (simp add: mod_add_left_eq)
  obtain k' where k: "k = Suc (Suc k')" "2 * length ds \<le> k'"
    using Cons.prems(5) by (intro that [of "k - 2"]) auto
  note s = Cons.prems(1) [unfolded sender_def, simplified]
  show ?case
  proof (cases "length d \<le> m")
    case True
    obtain q1 q2 where q: "fetch m False (send_buffer s) = Some (Some (prepared_ctor True (4 * c) d), q1)"
      "confirm_sent q1 = Some q2" "buf q2 = numbered ?c ds" "early_data_head q2 = None" "packet_splitting q2"
      using flush_whole [of "send_buffer s" d "4 * c" None "numbered ?c ds" m] s True assms(2) by auto
    let ?r = "arrive big load fail_rc (prepared_ctor True (4 * c) d) r"
    note a = arrive_whole [OF assms(1) Cons.prems(2,3), where d = d and fail_rc = fail_rc]
    have "sender ?c ds (s\<lparr>send_buffer := q2\<rparr>)" using q(3-5) by (simp add: sender_def)
    from Cons.IH [OF this a(1), where k = "Suc k'"] Cons.prems(4) k(2)
    show ?thesis using a(2) c' unfolding k(1) pump_step [OF q(1,2)] by simp
  next
    case False
    then have len: "m < length d" "length d \<le> 2 * m" using Cons.prems(4) by auto
    obtain q1 q2 where q: "fetch m False (send_buffer s) = Some (Some (prepared_ctor True (4 * c OR 2) (take m d)), q1)"
      "confirm_sent q1 = Some q2"
      "buf q2 = (storage_ctor d (4 * c) None)\<lparr>status := SentFirst, split_pos := m\<rparr> # numbered ?c ds"
      "early_data_head q2 = None" "packet_splitting q2"
      using flush_first [of "send_buffer s" d "4 * c" None "numbered ?c ds" m] s len assms(2) by auto
    obtain q3 q4 where q': "fetch m False q2 = Some (Some (prepared_ctor True (4 * c OR 3) (drop m d)), q3)"
      "confirm_sent q3 = Some q4" "buf q4 = numbered ?c ds" "early_data_head q4 = None" "packet_splitting q4"
      using flush_second [OF q(4,3,5) len assms(2)] by auto
    have f2: "fetch m False (send_buffer (s\<lparr>send_buffer := q2\<rparr>)) =
        Some (Some (prepared_ctor True (4 * c OR 3) (drop m d)), q3)" using q'(1) by simp
    note a = arrive_pair [OF assms(1) Cons.prems(2,3), where da = "take m d" and db = "drop m d" and fail_rc = fail_rc]
    have "sender ?c ds (s\<lparr>send_buffer := q4\<rparr>)" using q'(3-5) by (simp add: sender_def)
    from Cons.IH [OF this a(1), where k = k'] Cons.prems(4) k(2)
    show ?thesis using a(2) c' unfolding k(1) pump_step [OF q(1,2)] pump_step [OF f2 q'(2)] by simp
  qed
qed

text \<open>Queueing.\<close>

definition queue_all :: "bytes list \<Rightarrow> dgrams \<Rightarrow> dgrams" where
  "queue_all ds s = foldl (\<lambda>s d. dgrams_send_impl d None s) s ds"

lemma numbered_append:
  "c < 16384 \<Longrightarrow> numbered c (ds @ [d]) = numbered c ds @ [storage_ctor d (4 * ((c + length ds) mod 16384)) None]"
  by (induction ds arbitrary: c) (simp_all add: mod_add_left_eq)

lemma queue_all_sender:
  assumes "sender 0 [] s" and "dg_conn s" and "next_dgram_counter s = 0" and "unsent_bytes (send_buffer s) = 0"
    and "dgram_queue_limit s < SIZE_MOD"
  shows "sum_list (map length ds) \<le> dgram_queue_limit s \<Longrightarrow>
    sender 0 ds (queue_all ds s) \<and> dg_conn (queue_all ds s) \<and>
    next_dgram_counter (queue_all ds s) = length ds mod 16384 \<and>
    unsent_bytes (send_buffer (queue_all ds s)) = sum_list (map length ds) \<and>
    dgram_queue_limit (queue_all ds s) = dgram_queue_limit s"
proof (induction ds rule: rev_induct)
  case Nil
  then show ?case using assms by (simp add: queue_all_def)
next
  case (snoc d ds)
  let ?s = "queue_all ds s"
  have q: "queue_all (ds @ [d]) s = dgrams_send_impl d None ?s" by (simp add: queue_all_def)
  have ih: "sender 0 ds ?s" "dg_conn ?s" "next_dgram_counter ?s = length ds mod 16384"
    "unsent_bytes (send_buffer ?s) = sum_list (map length ds)" "dgram_queue_limit ?s = dgram_queue_limit s"
    using snoc by simp_all
  have le: "sum_list (map length ds) + length d \<le> dgram_queue_limit s" using snoc.prems by simp
  have "push_bit 2 (length ds mod 16384) mod 65536 = 4 * (length ds mod 16384)"
    by (simp add: push_bit_eq_mult)
  then show ?case
    unfolding q using ih le assms(5)
    by (simp add: dgrams_send_impl_def dgrams_unsent_impl_def pending_bytes_def sender_def emplace_def
        numbered_append sz_add_exact Let_def mod_Suc_eq)
qed
section \<open>Options give a usable buffer\<close>

lemma has_single_bit_power: "has_single_bit n \<Longrightarrow> \<exists>k. n = 2 ^ k"
proof (induction n rule: less_induct)
  case (less n)
  then have n: "n \<noteq> 0" "n AND (n - 1) = 0" by (simp_all add: has_single_bit_def)
  show ?case
  proof (cases "odd n")
    case True
    then obtain k where k: "n = 2 * k + 1" by (elim oddE)
    have "n AND (n - 1) = n - 1" unfolding k by (simp add: and_nat_rec [of "Suc (2 * k)"] and.idem)
    then have "n = 1" using n by linarith
    then show ?thesis by (intro exI [of _ 0]) simp
  next
    case False
    then have "even n" by simp
    then obtain k where k: "n = 2 * k" by (elim evenE)
    then have k0: "0 < k" using n by simp
    have "n AND (n - 1) = 2 * (k AND (k - 1))"
    proof -
      have "(n - 1) div 2 = k - 1" using k k0 by simp
      moreover have "n AND (n - 1) = of_bool (odd n \<and> odd (n - 1)) + 2 * ((n div 2) AND ((n - 1) div 2))"
        by (rule and_nat_rec)
      ultimately show ?thesis using k by simp
    qed
    then have "has_single_bit k" using n k0 by (simp add: has_single_bit_def)
    then obtain j where "k = 2 ^ j" using less.IH [of k] k k0 by auto
    then show ?thesis using k by (intro exI [of _ "Suc j"]) simp
  qed
qed

lemma bufsize_shape:
  assumes "enable_datagrams_bufsize md b = Inr opts"
  obtains s where "b = 2 ^ Suc s" and "5 \<le> s" and "s \<le> 12"
proof -
  have b: "64 \<le> b" "b \<le> 8192" "has_single_bit (nat b)"
    using assms by (auto simp: enable_datagrams_bufsize_def split: if_splits)
  then obtain k where "nat b = 2 ^ k" using has_single_bit_power by blast
  then have k: "b = 2 ^ k" using b(1) by (simp add: nat_eq_iff)
  have "(2::int) ^ 6 \<le> 2 ^ k" "(2::int) ^ k \<le> 2 ^ 13" using b k by simp_all
  then have "6 \<le> k" "k \<le> 13" by (simp_all only: power_increasing_iff one_less_numeral_iff semiring_norm)
  then show thesis using k by (intro that [of "k - 1"]) simp_all
qed

lemma reorder_below:
  assumes "5 \<le> s" "s \<le> 12" and "l \<le> 8192"
  shows "reorder_blocks (rbuf_ctor (2 ^ Suc s) l) < nblocks (rbuf_ctor (2 ^ Suc s) l)"
proof -
  have sh: "block_shift (rbuf_ctor (2 ^ Suc s) l) = s" and p: "params_ok (rbuf_ctor (2 ^ Suc s) l)"
    using rbuf_ctor_params [OF assms(1,2)] by simp_all
  have "reorder_blocks (rbuf_ctor (2 ^ Suc s) l) = (l + 2 ^ s - 1) div 2 ^ s"
    using sh by (simp add: rbuf_ctor_def Let_def drop_bit_eq_div)
  also have "\<dots> \<le> (8192 + 2 ^ s - 1) div 2 ^ s" using assms(3) by (intro zdiv_mono1) simp_all
  also have "\<dots> < 2 ^ (14 - s)"
  proof -
    have e: "(2::int) ^ s * 2 ^ (14 - s) = 16384" using assms by (simp flip: power_add)
    have "(2::int) ^ s \<le> 2 ^ 12" using assms(2) by (intro power_increasing) simp_all
    then have "8192 + 2 ^ s - 1 < 2 ^ (14 - s) * (2::int) ^ s" using e by (simp add: mult.commute)
    moreover have "(8192 + 2 ^ s - 1) div 2 ^ s * 2 ^ s \<le> 8192 + 2 ^ s - (1::int)"
      by (simp add: minus_mod_eq_div_mult [symmetric])
    ultimately have "(8192 + 2 ^ s - 1) div 2 ^ s * 2 ^ s < 2 ^ (14 - s) * (2::int) ^ s" by linarith
    then show ?thesis by (simp only: mult_less_cancel_right_pos zero_less_power zero_less_numeral)
  qed
  finally show ?thesis using p sh by (simp add: params_ok_def)
qed

lemma ctor_receiver:
  assumes "enable_datagrams_bufsize md b = Inr opts"
  shows "receiver 0 (dgrams_ctor True limit (handle_ep_opt_datagrams opts))"
    and "sender 0 [] (dgrams_ctor True limit (handle_ep_opt_datagrams opts))"
proof -
  obtain s where s: "b = 2 ^ Suc s" "5 \<le> s" "s \<le> 12" by (rule bufsize_shape [OF assms])
  have o: "split_packets opts" "opt_bufsize opts = b" "dgram_reorder_limit opts = None"
    using assms by (auto simp: enable_datagrams_bufsize_def enable_datagrams_def split: if_splits)
  let ?r = "rbuf_ctor (2 ^ Suc s) (min (2 * 2 ^ Suc s) 8192)"
  have "newest ?r = None" by (simp add: rbuf_ctor_def Let_def)
  then have "ready ?r 0"
    using rbuf_ctor_inv [OF s(2,3)] reorder_below [OF s(2,3)] by (simp add: ready_def)
  then show "receiver 0 (dgrams_ctor True limit (handle_ep_opt_datagrams opts))"
    using o s(1) by (simp add: receiver_def dgrams_ctor_def handle_ep_opt_datagrams_def)
  show "sender 0 [] (dgrams_ctor True limit (handle_ep_opt_datagrams opts))"
    using o by (simp add: sender_def dgrams_ctor_def handle_ep_opt_datagrams_def queue_ctor_def)
qed

text \<open>Network order, written out, as a model of the two parameters.\<close>

definition be16 :: "nat \<Rightarrow> bytes" where
  "be16 n = [word_of_nat (n div 256), word_of_nat (n mod 256)]"

definition load16 :: "bytes \<Rightarrow> nat" where
  "load16 bs = 256 * unat (bs ! 0) + unat (bs ! 1)"

lemma net_order_be16: "net_order be16 load16"
  unfolding net_order_def
proof (intro allI impI)
  fix n :: nat
  assume "n < 65536"
  then have "n div 256 < 256" by (simp add: less_mult_imp_div_less)
  then show "length (be16 n) = 2 \<and> load16 (be16 n) = n"
    by (simp add: be16_def load16_def unat_of_nat take_bit_nat_eq_self)
qed

section \<open>Properties\<close>



text \<open>
  The queue limit bounds what an application can make the library hold. However many datagrams of
  at most \<open>B\<close> bytes are offered, the bytes waiting to be sent never exceed the limit by more than one
  datagram, and each datagram that was not queued was counted as dropped.
\<close>

theorem dgram_queue_limit_holds:
  assumes "dg_conn s" and "dgrams_unsent_impl s \<le> dgram_queue_limit s" and "\<forall>d\<in>set ds. length d \<le> B"
    and "dgram_queue_limit s + B < SIZE_MOD" and "dgram_drop_count s + length ds < SIZE_MOD"
  shows "dgrams_unsent_impl (queue_all ds s) \<le> dgram_queue_limit s + B \<and>
    length (buf (send_buffer (queue_all ds s))) + dgram_drop_count (queue_all ds s) =
      length (buf (send_buffer s)) + dgram_drop_count s + length ds"
proof -
  have "dg_conn (queue_all ds s) \<and> dgram_queue_limit (queue_all ds s) = dgram_queue_limit s \<and>
    dgrams_unsent_impl (queue_all ds s) \<le> dgram_queue_limit s + B \<and>
    length (buf (send_buffer (queue_all ds s))) + dgram_drop_count (queue_all ds s) =
      length (buf (send_buffer s)) + dgram_drop_count s + length ds \<and>
    dgram_drop_count (queue_all ds s) \<le> dgram_drop_count s + length ds"
    using assms(3,5)
  proof (induction ds rule: rev_induct)
    case Nil
    then show ?case using assms(1,2) by (simp add: queue_all_def)
  next
    case (snoc d ds)
    have q: "queue_all (ds @ [d]) s = dgrams_send_impl d None (queue_all ds s)" by (simp add: queue_all_def)
    show ?case
      unfolding q using snoc assms(4)
      by (auto simp: dgrams_send_impl_def dgrams_unsent_impl_def pending_bytes_def emplace_def sz_add_exact Let_def)
  qed
  then show ?thesis by simp
qed

theorem dgram_queue_limit_holds_witness:
  "dgrams_unsent_impl (queue_all [[1, 2], [3, 4], [5, 6]] (dgrams_ctor True 1 (handle_ep_opt_datagrams enable_datagrams))) \<le> 1 + 2 \<and>
   dgram_drop_count (queue_all [[1, 2], [3, 4], [5, 6]] (dgrams_ctor True 1 (handle_ep_opt_datagrams enable_datagrams))) = 2"
proof -
  let ?s = "dgrams_ctor True 1 (handle_ep_opt_datagrams enable_datagrams)"
  have s: "dg_conn ?s" "dgrams_unsent_impl ?s = 0" "dgram_queue_limit ?s = 1" "dgram_drop_count ?s = 0"
    by (simp_all add: dgrams_ctor_def dgrams_unsent_impl_def pending_bytes_def queue_ctor_def)
  have "dgram_drop_count (queue_all [[1, 2], [3, 4], [5, 6]] ?s) = 2"
    by (simp add: queue_all_def dgrams_send_impl_def dgrams_unsent_impl_def pending_bytes_def emplace_def
        dgrams_ctor_def queue_ctor_def sz_add_def Let_def)
  then show ?thesis
    using dgram_queue_limit_holds [of ?s "[[1, 2], [3, 4], [5, 6]]" 2] s by simp
qed

end
