(* ===== verification/IP.thy ===== *)
theory IP
  imports Text_Util
begin

unbundle bit_operations_syntax

text \<open>
  IP addresses, networks and ranges (\<open>ip.hpp\<close>, \<open>ip.cpp\<close>): addresses in host order as words, prefixes,
  the tables of non-public ranges, and NAT64 embedding. A shift by the full width, which C++ leaves
  undefined, is \<open>None\<close>. \<open>inet_pton\<close> and \<open>inet_ntop\<close> are parameters, as is the conversion of an address to
  its bytes in network order (oxenc).
\<close>

section \<open>Addresses\<close>

datatype ipv4 = Ipv4 (v4_addr: u32)

datatype ipv6 = Ipv6 (hi: u64) (lo: u64)

definition ipv4_of_octets :: "byte \<Rightarrow> byte \<Rightarrow> byte \<Rightarrow> byte \<Rightarrow> ipv4" where
  "ipv4_of_octets a b c d =
     Ipv4 (push_bit 24 (ucast a) OR push_bit 16 (ucast b) OR push_bit 8 (ucast c) OR ucast d)"

definition ipv6_of_groups :: "u16 \<Rightarrow> u16 \<Rightarrow> u16 \<Rightarrow> u16 \<Rightarrow> u16 \<Rightarrow> u16 \<Rightarrow> u16 \<Rightarrow> u16 \<Rightarrow> ipv6" where
  "ipv6_of_groups a b c d e f g h =
     Ipv6 (push_bit 48 (ucast a) OR push_bit 32 (ucast b) OR push_bit 16 (ucast c) OR ucast d)
          (push_bit 48 (ucast e) OR push_bit 32 (ucast f) OR push_bit 16 (ucast g) OR ucast h)"

definition increment_will_overflow :: "'a::len word \<Rightarrow> bool" where
  "increment_will_overflow val \<longleftrightarrow> - 1 = val"

definition ipv4_next_ip :: "ipv4 \<Rightarrow> ipv4 option" where
  "ipv4_next_ip a = (if \<not> increment_will_overflow (v4_addr a) then Some (Ipv4 (v4_addr a + 1)) else None)"

definition ipv6_next_ip :: "ipv6 \<Rightarrow> ipv6 option" where
  "ipv6_next_ip a =
     (if \<not> increment_will_overflow (lo a) then Some (Ipv6 (hi a) (lo a + 1))
      else if \<not> increment_will_overflow (hi a) then Some (Ipv6 (hi a + 1) 0)
      else None)"

text \<open>
  The comparison operators, three-way as in the source: numeric for IPv4, by the high and then the low
  half for IPv6. They are the orders of the two types.
\<close>

datatype cmp = LESS | EQUIV | GREATER

definition word_cmp :: "'a::len word \<Rightarrow> 'a word \<Rightarrow> cmp" where
  "word_cmp v w = (if v < w then LESS else if v = w then EQUIV else GREATER)"

definition ipv4_cmp :: "ipv4 \<Rightarrow> ipv4 \<Rightarrow> cmp" where
  "ipv4_cmp a b = word_cmp (v4_addr a) (v4_addr b)"

definition ipv6_cmp :: "ipv6 \<Rightarrow> ipv6 \<Rightarrow> cmp" where
  "ipv6_cmp a b = (case word_cmp (hi a) (hi b) of EQUIV \<Rightarrow> word_cmp (lo a) (lo b) | r \<Rightarrow> r)"

instantiation ipv4 :: linorder
begin

definition less_eq_ipv4 :: "ipv4 \<Rightarrow> ipv4 \<Rightarrow> bool" where
  "a \<le> b \<longleftrightarrow> ipv4_cmp a b \<noteq> GREATER"

definition less_ipv4 :: "ipv4 \<Rightarrow> ipv4 \<Rightarrow> bool" where
  "a < b \<longleftrightarrow> ipv4_cmp a b = LESS"

instance
  by standard (auto simp: less_eq_ipv4_def less_ipv4_def ipv4_cmp_def word_cmp_def intro: ipv4.expand split: if_splits)

end

instantiation ipv6 :: linorder
begin

definition less_eq_ipv6 :: "ipv6 \<Rightarrow> ipv6 \<Rightarrow> bool" where
  "a \<le> b \<longleftrightarrow> ipv6_cmp a b \<noteq> GREATER"

definition less_ipv6 :: "ipv6 \<Rightarrow> ipv6 \<Rightarrow> bool" where
  "a < b \<longleftrightarrow> ipv6_cmp a b = LESS"

instance
  by standard (auto simp: less_eq_ipv6_def less_ipv6_def ipv6_cmp_def word_cmp_def intro: ipv6.expand
      split: if_splits cmp.splits)

end

lemma ipv4_le_iff: "a \<le> b \<longleftrightarrow> v4_addr a \<le> v4_addr b" for a b :: ipv4
  by (auto simp: less_eq_ipv4_def ipv4_cmp_def word_cmp_def)

lemma ipv6_le_iff: "a \<le> b \<longleftrightarrow> hi a < hi b \<or> hi a = hi b \<and> lo a \<le> lo b" for a b :: ipv6
  by (auto simp: less_eq_ipv6_def ipv6_cmp_def word_cmp_def)

section \<open>Prefixes\<close>

definition ipv4_to_base :: "nat \<Rightarrow> ipv4 \<Rightarrow> ipv4" where
  "ipv4_to_base m a =
     (if m = 0 then Ipv4 0
      else if m < 32 then Ipv4 (push_bit (32 - m) (drop_bit (32 - m) (v4_addr a)))
      else a)"

definition ipv6_to_base :: "nat \<Rightarrow> ipv6 \<Rightarrow> ipv6" where
  "ipv6_to_base m a =
     (if m > 64
      then Ipv6 (hi a) (if m < 128 then push_bit (128 - m) (drop_bit (128 - m) (lo a)) else lo a)
      else Ipv6 (if m = 0 then 0 else push_bit (64 - m) (drop_bit (64 - m) (hi a))) 0)"

text \<open>An address with a prefix length; a range keeps the masked address, a network the address itself.\<close>

record masked_ipv4 =
  ip4 :: ipv4
  mask4 :: nat

record masked_ipv6 =
  ip6 :: ipv6
  mask6 :: nat

definition masked_ipv4_max_ip :: "masked_ipv4 \<Rightarrow> ipv4 option" where
  "masked_ipv4_max_ip r =
     (let b = ipv4_to_base (mask4 r) (ip4 r)
      in if mask4 r = 0 then None
         else if mask4 r < 32 then Some (Ipv4 (v4_addr b OR (push_bit (32 - mask4 r) 1 - 2)))
         else Some b)"

definition masked_ipv4_broadcast :: "masked_ipv4 \<Rightarrow> ipv4 option" where
  "masked_ipv4_broadcast r =
     (let b = ipv4_to_base (mask4 r) (ip4 r)
      in if mask4 r = 0 then None
         else if mask4 r < 32 then Some (Ipv4 (v4_addr b OR (push_bit (32 - mask4 r) 1 - 1)))
         else Some b)"

definition masked_ipv4_contains :: "masked_ipv4 \<Rightarrow> ipv4 \<Rightarrow> bool" where
  "masked_ipv4_contains r other \<longleftrightarrow> ipv4_to_base (mask4 r) other = ipv4_to_base (mask4 r) (ip4 r)"

definition masked_ipv6_max_ip :: "masked_ipv6 \<Rightarrow> ipv6 option" where
  "masked_ipv6_max_ip r =
     (let b = ipv6_to_base (mask6 r) (ip6 r)
      in if mask6 r = 0 \<or> mask6 r > 128 then None
         else if mask6 r > 64 then Some (Ipv6 (hi (ip6 r)) (lo b OR (push_bit (128 - mask6 r) 1 - 1)))
         else Some (Ipv6 (hi b OR (push_bit (64 - mask6 r) 1 - 1)) (NOT 0)))"

definition masked_ipv6_contains :: "masked_ipv6 \<Rightarrow> ipv6 \<Rightarrow> bool" where
  "masked_ipv6_contains r other \<longleftrightarrow> ipv6_to_base (mask6 r) other = ipv6_to_base (mask6 r) (ip6 r)"

definition ipv4_range :: "ipv4 \<Rightarrow> nat \<Rightarrow> masked_ipv4" where
  "ipv4_range b m = \<lparr>ip4 = ipv4_to_base m b, mask4 = m\<rparr>"

definition ipv4_net :: "ipv4 \<Rightarrow> nat \<Rightarrow> masked_ipv4" where
  "ipv4_net b m = \<lparr>ip4 = b, mask4 = m\<rparr>"

definition ipv4_net_to_range :: "masked_ipv4 \<Rightarrow> masked_ipv4" where
  "ipv4_net_to_range n = ipv4_range (ip4 n) (mask4 n)"

definition ipv6_range :: "ipv6 \<Rightarrow> nat \<Rightarrow> masked_ipv6" where
  "ipv6_range b m = \<lparr>ip6 = ipv6_to_base m b, mask6 = m\<rparr>"

definition ipv6_net :: "ipv6 \<Rightarrow> nat \<Rightarrow> masked_ipv6" where
  "ipv6_net b m = \<lparr>ip6 = b, mask6 = m\<rparr>"

definition ipv6_net_to_range :: "masked_ipv6 \<Rightarrow> masked_ipv6" where
  "ipv6_net_to_range n = ipv6_range (ip6 n) (mask6 n)"

section \<open>Public addresses\<close>

definition ipv4_loopback :: masked_ipv4 where
  "ipv4_loopback = ipv4_range (ipv4_of_octets 127 0 0 1) 8"

definition ipv6_loopback :: ipv6 where
  "ipv6_loopback = ipv6_of_groups 0 0 0 0 0 0 0 1"

definition ipv4_nonpublic :: "masked_ipv4 list" where
  "ipv4_nonpublic =
     [ipv4_range (ipv4_of_octets 0 0 0 0) 8,
      ipv4_range (ipv4_of_octets 10 0 0 0) 8,
      ipv4_range (ipv4_of_octets 100 64 0 0) 10,
      ipv4_loopback,
      ipv4_range (ipv4_of_octets 169 254 0 0) 16,
      ipv4_range (ipv4_of_octets 172 16 0 0) 12,
      ipv4_range (ipv4_of_octets 192 0 0 0) 24,
      ipv4_range (ipv4_of_octets 192 0 2 0) 24,
      ipv4_range (ipv4_of_octets 192 88 99 0) 24,
      ipv4_range (ipv4_of_octets 192 168 0 0) 16,
      ipv4_range (ipv4_of_octets 198 18 0 0) 15,
      ipv4_range (ipv4_of_octets 198 51 100 0) 24,
      ipv4_range (ipv4_of_octets 203 0 113 0) 24,
      ipv4_range (ipv4_of_octets 224 0 0 0) 4,
      ipv4_range (ipv4_of_octets 240 0 0 0) 4]"

definition ipv6_nonpublic :: "masked_ipv6 list" where
  "ipv6_nonpublic =
     [ipv6_range (Ipv6 0 0) 128,
      ipv6_range ipv6_loopback 128,
      ipv6_range (ipv6_of_groups 0 0 0 0 0 0xffff 0 0) 96,
      ipv6_range (ipv6_of_groups 0 0 0 0 0xffff 0 0 0) 96,
      ipv6_range (ipv6_of_groups 0x64 0xff9b 0 0 0 0 0 0) 96,
      ipv6_range (ipv6_of_groups 0x64 0xff9b 1 0 0 0 0 0) 48,
      ipv6_range (ipv6_of_groups 0x100 0 0 0 0 0 0 0) 64,
      ipv6_range (ipv6_of_groups 0x200 0 0 0 0 0 0 0) 7,
      ipv6_range (ipv6_of_groups 0x2001 0x0 0 0 0 0 0 0) 32,
      ipv6_range (ipv6_of_groups 0x2001 0x20 0 0 0 0 0 0) 28,
      ipv6_range (ipv6_of_groups 0x2001 0xdb8 0 0 0 0 0 0) 32,
      ipv6_range (ipv6_of_groups 0x2002 0 0 0 0 0 0 0) 16,
      ipv6_range (ipv6_of_groups 0xfc00 0 0 0 0 0 0 0) 7,
      ipv6_range (ipv6_of_groups 0xfe80 0 0 0 0 0 0 0) 10,
      ipv6_range (ipv6_of_groups 0xff00 0 0 0 0 0 0 0) 8]"

definition ipv4_is_public :: "ipv4 \<Rightarrow> bool" where
  "ipv4_is_public a \<longleftrightarrow> \<not> list_ex (\<lambda>range. masked_ipv4_contains range a) ipv4_nonpublic"

definition ipv6_is_public :: "ipv6 \<Rightarrow> bool" where
  "ipv6_is_public a \<longleftrightarrow> \<not> list_ex (\<lambda>range. masked_ipv6_contains range a) ipv6_nonpublic"

section \<open>NAT64\<close>

datatype ip_error = InvalidPrefix | UnableToParse | SystemError

text \<open>The loop that gives the four byte positions, \<open>n\<close> of them from \<open>p\<close> on, skipping byte 8.\<close>

fun nat64_positions :: "nat \<Rightarrow> nat \<Rightarrow> nat list" where
  "nat64_positions 0 p = []"
| "nat64_positions (Suc n) p = (let p = (if p = 8 then p + 1 else p) in p # nat64_positions n (p + 1))"

definition nat64_ipv4_bytes :: "nat \<Rightarrow> nat list option" where
  "nat64_ipv4_bytes bits =
     (if bits \<noteq> 32 \<and> bits \<noteq> 40 \<and> bits \<noteq> 48 \<and> bits \<noteq> 56 \<and> bits \<noteq> 64 \<and> bits \<noteq> 96 then None
      else Some (nat64_positions 4 (bits div 8)))"

text \<open>The loop that ors byte \<open>i\<close> of the IPv4 address into its position.\<close>

fun nat64_embed_bytes :: "u32 \<Rightarrow> nat \<Rightarrow> nat list \<Rightarrow> ipv6 \<Rightarrow> ipv6" where
  "nat64_embed_bytes addr i [] a = a"
| "nat64_embed_bytes addr i (b # bs) a =
     (let v = push_bit (56 - 8 * (b mod 8)) (ucast (drop_bit (24 - 8 * i) addr AND 0xff)) :: u64
      in nat64_embed_bytes addr (i + 1) bs
           (if b < 8 then Ipv6 (hi a OR v) (lo a) else Ipv6 (hi a) (lo a OR v)))"

definition nat64_embed :: "masked_ipv6 \<Rightarrow> ipv4 \<Rightarrow> ip_error + ipv6" where
  "nat64_embed prefix addr =
     (case nat64_ipv4_bytes (mask6 prefix) of
        None \<Rightarrow> Inl InvalidPrefix
      | Some pos \<Rightarrow> Inr (nat64_embed_bytes (v4_addr addr) 0 pos (ip6 prefix)))"

fun nat64_try :: "nat list \<Rightarrow> ipv6 \<Rightarrow> ipv4 \<Rightarrow> masked_ipv6 option" where
  "nat64_try [] embedded addr = None"
| "nat64_try (bits # rest) embedded addr =
     (let prefix = ipv6_range embedded bits
      in if nat64_embed prefix addr = Inr embedded then Some prefix else nat64_try rest embedded addr)"

definition nat64_prefix :: "ipv6 \<Rightarrow> ipv4 \<Rightarrow> masked_ipv6 option" where
  "nat64_prefix embedded addr = nat64_try [96, 64, 56, 48, 40, 32] embedded addr"

section \<open>Text\<close>

text \<open>What \<open>inet_pton\<close> returns: the bytes of the address, invalid input, or an error.\<close>

datatype pton_result = PtonOk bytes | PtonInvalid | PtonError

definition parse_addr :: "(string \<Rightarrow> pton_result) \<Rightarrow> string \<Rightarrow> ip_error + bytes" where
  "parse_addr inet_pton from =
     (case inet_pton from of PtonOk bs \<Rightarrow> Inr bs | PtonInvalid \<Rightarrow> Inl UnableToParse | PtonError \<Rightarrow> Inl SystemError)"

definition masked_ipv4_to_string :: "(ipv4 \<Rightarrow> string) \<Rightarrow> masked_ipv4 \<Rightarrow> string" where
  "masked_ipv4_to_string to_string r = to_string (ip4 r) @ ''/'' @ dec_string (mask4 r)"

definition masked_ipv6_to_string :: "(ipv6 \<Rightarrow> string) \<Rightarrow> masked_ipv6 \<Rightarrow> string" where
  "masked_ipv6_to_string to_string r = to_string (ip6 r) @ ''/'' @ dec_string (mask6 r)"

end
