(* ===== verification/IP_Correct.thy ===== *)
theory IP_Correct
  imports IP
begin

unbundle bit_operations_syntax

text \<open>
  Properties of IP ranges and of NAT64: the interface \<open>prefix_family\<close> of an address family with prefixes,
  interpreted for IPv4 and for IPv6, and the recovery of NAT64 prefixes.
\<close>

section \<open>Clearing and setting the low bits of a word\<close>

lemma unat_clear_low:
  fixes w :: "'a::len word"
  shows "unat (push_bit k (drop_bit k w)) = unat w div 2 ^ k * 2 ^ k"
proof -
  have "unat w div 2 ^ k * 2 ^ k \<le> unat w" by simp
  then have "unat w div 2 ^ k * 2 ^ k < 2 ^ LENGTH('a)" using unsigned_less [of w] by (rule le_less_trans)
  then show ?thesis
    by (simp only: unsigned_push_bit_eq unsigned_drop_bit_eq)
      (simp add: push_bit_eq_mult drop_bit_eq_div take_bit_nat_eq_self)
qed

lemma nat_set_low: "(a * 2 ^ k) OR (2 ^ k - 1) = a * 2 ^ k + (2 ^ k - 1 :: nat)"
proof -
  have "(a * 2 ^ k) AND (2 ^ k - 1) = (0 :: nat)"
  proof -
    have "(a * 2 ^ k) AND (2 ^ k - 1) = take_bit k (a * 2 ^ k)"
      by (simp add: take_bit_eq_mask mask_eq_exp_minus_1)
    then show ?thesis by (simp add: take_bit_eq_mod)
  qed
  then show ?thesis by (simp add: disjunctive_add_eq_or)
qed

lemma unat_set_low:
  fixes w :: "'a::len word"
  assumes "k < LENGTH('a)"
  shows "unat (push_bit k (drop_bit k w) OR (push_bit k 1 - 1)) = unat w div 2 ^ k * 2 ^ k + (2 ^ k - 1)"
proof -
  have "unat (push_bit k 1 - 1 :: 'a word) = 2 ^ k - 1"
  proof -
    have "(push_bit k 1 - 1 :: 'a word) = mask k" by (simp add: mask_eq_exp_minus_1)
    moreover have "unat (mask k :: 'a word) = 2 ^ k - 1"
      using assms by (simp only: unat_eq_nat_uint uint_mask_eq) (simp add: mask_eq_exp_minus_1 nat_diff_distrib' nat_power_eq)
    ultimately show ?thesis by simp
  qed
  then show ?thesis by (simp only: unsigned_or_eq unat_clear_low nat_set_low)
qed

section \<open>Families of prefixes\<close>

text \<open>
  An address family: addresses are numbered below \<open>2 ^ width\<close>, a prefix of \<open>m\<close> bits is given by its first
  address, and the last address of a prefix is known for \<open>m > 0\<close>. Then belonging to a prefix is lying in
  an interval, and prefixes are nested or disjoint.
\<close>

locale prefix_family =
  fixes width :: nat
    and val :: "'a \<Rightarrow> nat"
    and base :: "nat \<Rightarrow> 'a \<Rightarrow> 'a"
    and top_of :: "nat \<Rightarrow> 'a \<Rightarrow> 'a option"
  assumes val_inj: "val a = val b \<Longrightarrow> a = b"
    and val_base: "m \<le> width \<Longrightarrow> val (base m a) = val a div 2 ^ (width - m) * 2 ^ (width - m)"
    and val_top: "0 < m \<Longrightarrow> m \<le> width \<Longrightarrow>
      \<exists>t. top_of m a = Some t \<and> val t = val a div 2 ^ (width - m) * 2 ^ (width - m) + (2 ^ (width - m) - 1)"
begin

lemma base_eq_iff: "m \<le> width \<Longrightarrow> base m a = base m b \<longleftrightarrow> val a div 2 ^ (width - m) = val b div 2 ^ (width - m)"
  using val_inj [of "base m a" "base m b"] val_base [of m] by auto (metis mult_cancel_right power_not_zero zero_neq_numeral)

lemma div_interval: "x div n = y div n \<longleftrightarrow> y div n * n \<le> x \<and> x \<le> y div n * n + (n - 1)" if "0 < n" for x y n :: nat
proof
  assume e: "x div n = y div n"
  have "x = x div n * n + x mod n" "x mod n < n" using that by simp_all
  then show "y div n * n \<le> x \<and> x \<le> y div n * n + (n - 1)" unfolding e [symmetric] by linarith
next
  assume "y div n * n \<le> x \<and> x \<le> y div n * n + (n - 1)"
  then have "n * (y div n) \<le> x" "x < n * Suc (y div n)" using that by (auto simp: mult.commute)
  then show "x div n = y div n" by (rule div_nat_eqI)
qed

lemma in_prefix_iff:
  assumes "0 < m" "m \<le> width"
  shows "base m x = base m a \<longleftrightarrow> (\<exists>t. top_of m a = Some t \<and> val (base m a) \<le> val x \<and> val x \<le> val t)"
  using val_top [OF assms, of a] div_interval [of "2 ^ (width - m)" "val x" "val a"]
  by (auto simp: base_eq_iff [OF assms(2)] val_base [OF assms(2)])

lemma base_base: "m \<le> n \<Longrightarrow> n \<le> width \<Longrightarrow> base m (base n a) = base m a"
proof -
  assume mn: "m \<le> n" "n \<le> width"
  let ?p = "2 ^ (width - n) :: nat" and ?q = "2 ^ (n - m) :: nat"
  have "2 ^ (width - m) = ?p * ?q" using mn by (simp flip: power_add)
  moreover have "val a div ?p * ?p div (?p * ?q) = val a div (?p * ?q)"
    by (simp add: div_mult2_eq)
  ultimately show ?thesis using mn by (simp add: base_eq_iff val_base)
qed

lemma prefix_nested:
  assumes "m \<le> n" "n \<le> width"
  shows "base n x = base n a \<Longrightarrow> base m x = base m a"
  using base_base [OF assms, of x] base_base [OF assms, of a] by simp

end

definition v6_val :: "ipv6 \<Rightarrow> nat" where
  "v6_val a = unat (hi a) * 2 ^ 64 + unat (lo a)"

lemma v6_val_inj: "v6_val a = v6_val b \<Longrightarrow> a = b"
proof -
  assume e: "v6_val a = v6_val b"
  have l: "unat (lo x) < 2 ^ 64" for x using unsigned_less [of "lo x"] by simp
  have "v6_val x div 2 ^ 64 = unat (hi x)" "v6_val x mod 2 ^ 64 = unat (lo x)" for x
    using l [of x] by (simp_all add: v6_val_def)
  then have "hi a = hi b" "lo a = lo b" using e by (metis unsigned_word_eqI)+
  then show ?thesis by (simp add: ipv6.expand)
qed

lemma v6_order: "v6_val a \<le> v6_val b \<longleftrightarrow> a \<le> b"
proof -
  have l: "unat (lo x) < 2 ^ 64" for x using unsigned_less [of "lo x"] by simp
  show ?thesis
    using l [of a] l [of b] unfolding v6_val_def ipv6_le_iff word_less_nat_alt word_le_nat_alt
    by (auto simp: word_unat_eq_iff) 
qed

interpretation v4: prefix_family 32 "\<lambda>a. unat (v4_addr a)" ipv4_to_base
  "\<lambda>m a. masked_ipv4_broadcast (ipv4_net a m)"
proof unfold_locales
  show "a = b" if "unat (v4_addr a) = unat (v4_addr b)" for a b
    using that by (cases a; cases b) (simp add: word_unat_eq_iff)
  have lt: "unat (v4_addr a) < 2 ^ 32" for a using unsigned_less [of "v4_addr a"] by simp
  show "unat (v4_addr (ipv4_to_base m a)) = unat (v4_addr a) div 2 ^ (32 - m) * 2 ^ (32 - m)" if m: "m \<le> 32" for m a
  proof -
    consider "m = 0" | "0 < m" "m < 32" | "m = 32" using m by linarith
    then show ?thesis
      using lt [of a] by cases (simp_all add: ipv4_to_base_def unat_clear_low)
  qed
  show "\<exists>t. masked_ipv4_broadcast (ipv4_net a m) = Some t \<and>
      unat (v4_addr t) = unat (v4_addr a) div 2 ^ (32 - m) * 2 ^ (32 - m) + (2 ^ (32 - m) - 1)"
    if m: "0 < m" "m \<le> 32" for m a
  proof -
    consider "m < 32" | "m = 32" using m by linarith
    then show ?thesis
    proof cases
      case 1
      then show ?thesis
        using m unat_set_low [of "32 - m" "v4_addr a"]
        by (simp add: masked_ipv4_broadcast_def ipv4_net_def ipv4_to_base_def Let_def)
    qed (simp add: masked_ipv4_broadcast_def ipv4_net_def ipv4_to_base_def)
  qed
qed

lemma v6_high_div:
  assumes "m \<le> 64"
  shows "v6_val a div 2 ^ (128 - m) = unat (hi a) div 2 ^ (64 - m)"
proof -
  have "unat (lo a) < 2 ^ 64" using unsigned_less [of "lo a"] by simp
  then have "v6_val a div 2 ^ 64 = unat (hi a)" by (simp add: v6_val_def)
  moreover have "(2 :: nat) ^ (128 - m) = 2 ^ 64 * 2 ^ (64 - m)"
    using power_add [of "2::nat" 64 "64 - m"] assms by simp
  ultimately show ?thesis by (simp only: div_mult2_eq)
qed

lemma v6_low_div:
  assumes "64 \<le> m" "m \<le> 128"
  shows "v6_val a div 2 ^ (128 - m) * 2 ^ (128 - m) =
    unat (hi a) * 2 ^ 64 + unat (lo a) div 2 ^ (128 - m) * 2 ^ (128 - m)"
proof -
  have e: "(2 :: nat) ^ 64 = 2 ^ (m - 64) * 2 ^ (128 - m)"
    using power_add [of "2::nat" "m - 64" "128 - m"] assms by simp
  have "v6_val a div 2 ^ (128 - m) = (unat (lo a) + unat (hi a) * 2 ^ (m - 64) * 2 ^ (128 - m)) div 2 ^ (128 - m)"
    by (simp only: v6_val_def e mult.assoc add.commute)
  also have "\<dots> = unat (hi a) * 2 ^ (m - 64) + unat (lo a) div 2 ^ (128 - m)" by (rule div_mult_self1) simp
  finally show ?thesis unfolding e by (simp add: algebra_simps)
qed

lemma v6_val_base:
  assumes "m \<le> 128"
  shows "v6_val (ipv6_to_base m a) = v6_val a div 2 ^ (128 - m) * 2 ^ (128 - m)"
proof (cases "64 < m")
  case True
  then show ?thesis
    using assms v6_low_div [of m a]
    by (cases "m = 128") (simp_all add: ipv6_to_base_def v6_val_def unat_clear_low)
next
  case False
  have e: "(2 :: nat) ^ (128 - m) = 2 ^ (64 - m) * 2 ^ 64"
    using power_add [of "2::nat" "64 - m" 64] False by simp
  have "unat (hi a) < 2 ^ 64" using unsigned_less [of "hi a"] by simp
  then have z: "unat (hi a) div 2 ^ 64 = 0" by simp
  have "v6_val (ipv6_to_base m a) = unat (hi a) div 2 ^ (64 - m) * 2 ^ (64 - m) * 2 ^ 64"
    using False z by (cases "m = 0") (simp_all add: ipv6_to_base_def v6_val_def unat_clear_low)
  then show ?thesis using v6_high_div [of m a] False unfolding e by (simp add: mult.assoc)
qed

lemma top_of_halves:
  fixes p M d :: nat
  assumes "0 < p" "0 < M"
  shows "(d * p + (p - 1)) * M + (M - 1) = d * (p * M) + (p * M - 1)"
proof -
  obtain c k where "p = Suc c" "M = Suc k" using assms by (metis gr0_conv_Suc)
  then show ?thesis by (simp add: algebra_simps)
qed

lemma v6_max_val:
  assumes "0 < m" "m \<le> 128"
  shows "\<exists>t. masked_ipv6_max_ip (ipv6_net a m) = Some t \<and>
    v6_val t = v6_val a div 2 ^ (128 - m) * 2 ^ (128 - m) + (2 ^ (128 - m) - 1)"
proof (cases "64 < m")
  case True
  then have "unat (lo (ipv6_to_base m a) OR (push_bit (128 - m) 1 - 1)) =
      unat (lo a) div 2 ^ (128 - m) * 2 ^ (128 - m) + (2 ^ (128 - m) - 1)"
    using unat_set_low [of "128 - m" "lo a"] assms by (cases "m = 128") (simp_all add: ipv6_to_base_def)
  then show ?thesis
    using True assms v6_low_div [of m a]
    by (simp add: masked_ipv6_max_ip_def ipv6_net_def v6_val_def Let_def) (use one_le_power [of "2::nat" "128 - m"] in linarith)
next
  case False
  then have h: "unat (hi (ipv6_to_base m a) OR (push_bit (64 - m) 1 - 1)) =
      unat (hi a) div 2 ^ (64 - m) * 2 ^ (64 - m) + (2 ^ (64 - m) - 1)"
    using unat_set_low [of "64 - m" "hi a"] assms by (simp add: ipv6_to_base_def)
  have e: "(2 :: nat) ^ (128 - m) = 2 ^ (64 - m) * 2 ^ 64"
    using power_add [of "2::nat" "64 - m" 64] False by simp
  have n: "unat (NOT 0 :: u64) = 2 ^ 64 - 1" by (simp add: unsigned_minus_1_eq_mask mask_eq_exp_minus_1)
  let ?t = "Ipv6 (hi (ipv6_to_base m a) OR (push_bit (64 - m) 1 - 1)) (NOT 0)"
  have "v6_val ?t = v6_val a div 2 ^ (128 - m) * 2 ^ (128 - m) + (2 ^ (128 - m) - 1)"
    using v6_high_div [of m a, unfolded e] False
    by (simp only: v6_val_def [of ?t] ipv6.sel h n e top_of_halves zero_less_power zero_less_numeral not_less)
  then show ?thesis using False assms by (simp add: masked_ipv6_max_ip_def ipv6_net_def Let_def)
qed

interpretation v6: prefix_family 128 v6_val ipv6_to_base "\<lambda>m a. masked_ipv6_max_ip (ipv6_net a m)"
  by unfold_locales (rule v6_val_inj v6_val_base v6_max_val; assumption)+

text \<open>The ranges of the tables.\<close>

lemma ipv4_range_contains:
  assumes "0 < m" "m \<le> 32"
  shows "masked_ipv4_contains (ipv4_range a m) x \<longleftrightarrow>
    (\<exists>t. masked_ipv4_broadcast (ipv4_range a m) = Some t \<and> ip4 (ipv4_range a m) \<le> x \<and> x \<le> t)"
proof -
  have "ipv4_to_base m (ipv4_to_base m a) = ipv4_to_base m a" using v4.base_base [of m m a] assms by simp
  then have "masked_ipv4_contains (ipv4_range a m) x \<longleftrightarrow> ipv4_to_base m x = ipv4_to_base m a"
    and "masked_ipv4_broadcast (ipv4_range a m) = masked_ipv4_broadcast (ipv4_net a m)"
    by (simp_all add: masked_ipv4_contains_def ipv4_range_def ipv4_net_def masked_ipv4_broadcast_def Let_def)
  then show ?thesis
    using v4.in_prefix_iff [OF assms, of x a]
    by (simp add: ipv4_range_def ipv4_le_iff word_le_nat_alt)
qed

lemma ipv6_range_contains:
  assumes "0 < m" "m \<le> 128"
  shows "masked_ipv6_contains (ipv6_range a m) x \<longleftrightarrow>
    (\<exists>t. masked_ipv6_max_ip (ipv6_range a m) = Some t \<and> ip6 (ipv6_range a m) \<le> x \<and> x \<le> t)"
proof -
  have i: "ipv6_to_base m (ipv6_to_base m a) = ipv6_to_base m a" using v6.base_base [of m m a] assms by simp
  have h: "hi (ipv6_to_base m a) = hi a" if "64 < m" using that by (simp add: ipv6_to_base_def)
  have "masked_ipv6_contains (ipv6_range a m) x \<longleftrightarrow> ipv6_to_base m x = ipv6_to_base m a"
    and "masked_ipv6_max_ip (ipv6_range a m) = masked_ipv6_max_ip (ipv6_net a m)"
    using i h by (simp_all add: masked_ipv6_contains_def ipv6_range_def ipv6_net_def masked_ipv6_max_ip_def Let_def)
  then show ?thesis
    using v6.in_prefix_iff [OF assms, of x a] by (simp add: ipv6_range_def v6_order)
qed

section \<open>NAT64\<close>

lemma drop_low_byte:
  fixes w :: u32
  assumes "k + 8 \<le> n"
  shows "drop_bit n (push_bit k (ucast (w AND 0xff)) :: u64) = 0"
proof (rule bit_word_eqI)
  fix i :: nat
  assume "i < LENGTH(64)"
  have "\<not> bit (w AND 0xff) j" if "8 \<le> j" for j
  proof -
    have "(0xff :: u32) = mask 8" by (simp add: mask_eq_exp_minus_1)
    then show ?thesis using that by (simp only: bit_and_iff bit_mask_iff) simp
  qed
  then show "bit (drop_bit n (push_bit k (ucast (w AND 0xff)) :: u64)) i = bit (0 :: u64) i"
    using assms by (auto simp: bit_simps)
qed

text \<open>A byte at or after the prefix does not change the prefix.\<close>

lemma embed_byte_base:
  assumes "bits \<le> 8 * b" "b < 16" "v = push_bit (56 - 8 * (b mod 8)) (ucast (w AND 0xff :: u32))"
  shows "ipv6_to_base bits (if b < 8 then Ipv6 (hi a OR v) (lo a) else Ipv6 (hi a) (lo a OR v)) = ipv6_to_base bits a"
proof (cases "b < 8")
  case True
  then have "drop_bit (64 - bits) v = 0" "bits \<le> 64" unfolding assms(3) using assms(1) by (auto intro!: drop_low_byte)
  then show ?thesis using True by (simp add: ipv6_to_base_def drop_bit_or)
next
  case False
  have "drop_bit (128 - bits) v = 0" if "64 < bits"
    unfolding assms(3)
  proof (rule drop_low_byte)
    have "b mod 8 = b - 8" using False assms(2) by (simp add: mod_if)
    then show "56 - 8 * (b mod 8) + 8 \<le> 128 - bits" using that assms(1,2) False by linarith
  qed
  then show ?thesis using False assms(1,2) by (simp add: ipv6_to_base_def drop_bit_or)
qed

lemma embed_bytes_base:
  "\<forall>b\<in>set bs. bits \<le> 8 * b \<and> b < 16 \<Longrightarrow> ipv6_to_base bits (nat64_embed_bytes addr i bs a) = ipv6_to_base bits a"
proof (induction bs arbitrary: i a)
  case (Cons b bs)
  then show ?case
    using embed_byte_base [of bits b _ "drop_bit (24 - 8 * i) addr" a, OF _ _ refl]
    by (simp only: nat64_embed_bytes.simps Let_def list.set insert_iff ball_simps) simp
qed simp

lemma nat64_positions_4:
  "nat64_positions 4 4 = [4, 5, 6, 7]" "nat64_positions 4 5 = [5, 6, 7, 9]" "nat64_positions 4 6 = [6, 7, 9, 10]"
  "nat64_positions 4 7 = [7, 9, 10, 11]" "nat64_positions 4 8 = [9, 10, 11, 12]"
  "nat64_positions 4 12 = [12, 13, 14, 15]"
  by (simp_all add: eval_nat_numeral)

lemma embed_keeps_base:
  assumes "nat64_embed r addr = Inr a"
  shows "ipv6_to_base (mask6 r) a = ipv6_to_base (mask6 r) (ip6 r)"
proof -
  obtain pos where p: "nat64_ipv4_bytes (mask6 r) = Some pos"
    and a: "a = nat64_embed_bytes (v4_addr addr) 0 pos (ip6 r)"
    using assms by (auto simp: nat64_embed_def split: option.splits)
  have "\<forall>b\<in>set pos. mask6 r \<le> 8 * b \<and> b < 16"
    using p by (auto simp: nat64_ipv4_bytes_def nat64_positions_4 Let_def split: if_splits)
  then show ?thesis unfolding a by (rule embed_bytes_base)
qed

lemma embed_lengths: "nat64_embed r addr = Inr a \<Longrightarrow> mask6 r \<in> {96, 64, 56, 48, 40, 32}"
  by (auto simp: nat64_embed_def nat64_ipv4_bytes_def split: if_splits)

lemma nat64_try_some:
  "nat64_try ls e addr = Some q \<Longrightarrow> nat64_embed q addr = Inr e \<and> mask6 q \<in> set ls \<and> q = ipv6_range e (mask6 q)"
  by (induction ls) (auto simp: Let_def ipv6_range_def split: if_splits)

text \<open>The lengths are tried in decreasing order, so a length that fits is found or a longer one is.\<close>

lemma nat64_try_finds:
  "bits \<in> set ls \<Longrightarrow> sorted_wrt (>) ls \<Longrightarrow> nat64_embed (ipv6_range e bits) addr = Inr e \<Longrightarrow>
   \<exists>q. nat64_try ls e addr = Some q \<and> bits \<le> mask6 q"
  by (induction ls) (auto simp: Let_def ipv6_range_def less_imp_le)

section \<open>Properties\<close>

text \<open>
  C27: belonging to a range is lying between its first address and its last one, for both families and
  every prefix length from one bit to the full address; so an address is public exactly if it is
  outside the intervals of the table of non-public ranges.
\<close>

theorem ip_ranges_are_intervals:
  shows "(\<forall>m a x. 0 < m \<longrightarrow> m \<le> 32 \<longrightarrow> masked_ipv4_contains (ipv4_range a m) x =
      (\<exists>t. masked_ipv4_broadcast (ipv4_range a m) = Some t \<and> ip4 (ipv4_range a m) \<le> x \<and> x \<le> t)) \<and>
    (\<forall>m a x. 0 < m \<longrightarrow> m \<le> 128 \<longrightarrow> masked_ipv6_contains (ipv6_range a m) x =
      (\<exists>t. masked_ipv6_max_ip (ipv6_range a m) = Some t \<and> ip6 (ipv6_range a m) \<le> x \<and> x \<le> t)) \<and>
    (\<forall>x. ipv4_is_public x = list_all (\<lambda>r. \<exists>t. masked_ipv4_broadcast r = Some t \<and> (x < ip4 r \<or> t < x)) ipv4_nonpublic)"
proof -
  have pub: "\<forall>r\<in>set ipv4_nonpublic. \<exists>a m. r = ipv4_range a m \<and> 0 < m \<and> m \<le> 32"
    unfolding ipv4_nonpublic_def ipv4_loopback_def list.set ball_simps
    by (intro conjI TrueI; (rule exI)+; rule conjI, rule refl; simp)
  have "\<not> masked_ipv4_contains r x \<longleftrightarrow> (\<exists>t. masked_ipv4_broadcast r = Some t \<and> (x < ip4 r \<or> t < x))"
    if mem: "r \<in> set ipv4_nonpublic" for r x
  proof -
    obtain a m where r: "r = ipv4_range a m" "0 < m" "m \<le> 32" using pub mem by blast
    have "masked_ipv4_broadcast r \<noteq> None" using r by (simp add: masked_ipv4_broadcast_def ipv4_range_def Let_def)
    then show ?thesis using ipv4_range_contains [OF r(2,3), of a x] r(1) by (auto simp: not_le)
  qed
  then have "ipv4_is_public x = list_all (\<lambda>r. \<exists>t. masked_ipv4_broadcast r = Some t \<and> (x < ip4 r \<or> t < x)) ipv4_nonpublic" for x
    by (simp add: ipv4_is_public_def list_ex_iff list_all_iff)
  then show ?thesis using ipv4_range_contains ipv6_range_contains by blast
qed

theorem ip_ranges_are_intervals_witness:
  "\<not> ipv4_is_public (ipv4_of_octets 10 1 2 3) \<and> ipv4_is_public (ipv4_of_octets 9 9 9 9) \<and>
   masked_ipv4_contains (ipv4_range (ipv4_of_octets 10 0 0 0) 8) (ipv4_of_octets 10 1 2 3)"
proof -
  have "masked_ipv4_contains (ipv4_range (ipv4_of_octets 10 0 0 0) 8) (ipv4_of_octets 10 1 2 3)"
    using ip_ranges_are_intervals [THEN conjunct1, rule_format, of 8 "ipv4_of_octets 10 0 0 0" "ipv4_of_octets 10 1 2 3"]
    by (simp add: ipv4_range_def ipv4_of_octets_def masked_ipv4_broadcast_def ipv4_to_base_def ipv4_le_iff)
  moreover have "\<not> ipv4_is_public (ipv4_of_octets 10 1 2 3)" "ipv4_is_public (ipv4_of_octets 9 9 9 9)"
    by (simp_all add: ipv4_is_public_def ipv4_nonpublic_def ipv4_loopback_def masked_ipv4_contains_def ipv4_range_def
        ipv4_of_octets_def ipv4_to_base_def)
  ultimately show ?thesis by simp
qed

text \<open>
  NAT64 prefixes are recovered. If an IPv4 address is embedded after a prefix, then
  \<open>nat64_prefix\<close> finds a prefix at least as long after which the result embeds that address; a prefix of
  the same length is the original one. Embedding fails exactly for the lengths RFC 6052 does not have.
\<close>

theorem nat64_prefix_recovers:
  assumes "nat64_embed r addr = Inr a" and "r = ipv6_range p bits"
  shows "\<exists>q. nat64_prefix a addr = Some q \<and> nat64_embed q addr = Inr a \<and> bits \<le> mask6 q \<and>
      (mask6 q = bits \<longrightarrow> q = r) \<and> bits \<in> {32, 40, 48, 56, 64, 96}"
proof -
  have b: "bits \<in> {96, 64, 56, 48, 40, 32}" and m: "mask6 r = bits"
    using embed_lengths [OF assms(1)] by (simp_all add: assms(2) ipv6_range_def)
  have "ipv6_to_base bits (ipv6_to_base bits p) = ipv6_to_base bits p"
    using v6.base_base [of bits bits p] b by auto
  then have same: "ipv6_range a bits = r"
    using embed_keeps_base [OF assms(1)] by (simp add: assms(2) ipv6_range_def)
  obtain q where q: "nat64_prefix a addr = Some q" "bits \<le> mask6 q"
    using nat64_try_finds [of bits "[96, 64, 56, 48, 40, 32]" a addr] b assms(1) same
    by (auto simp: nat64_prefix_def simp del: nat64_try.simps)
  then have "nat64_embed q addr = Inr a" "q = ipv6_range a (mask6 q)"
    using nat64_try_some by (auto simp: nat64_prefix_def simp del: nat64_try.simps)
  then show ?thesis using q b same by auto
qed

theorem nat64_prefix_recovers_witness:
  "\<exists>a q. nat64_embed (ipv6_range (ipv6_of_groups 0x64 0xff9b 0 0 0 0 0 0) 96) (ipv4_of_octets 192 0 2 33) = Inr a \<and>
     a = ipv6_of_groups 0x64 0xff9b 0 0 0 0 0xc000 0x221 \<and>
     nat64_prefix a (ipv4_of_octets 192 0 2 33) = Some q \<and> 96 \<le> mask6 q"
proof -
  let ?r = "ipv6_range (ipv6_of_groups 0x64 0xff9b 0 0 0 0 0 0) 96" and ?a = "ipv6_of_groups 0x64 0xff9b 0 0 0 0 0xc000 0x221"
  have "nat64_embed ?r (ipv4_of_octets 192 0 2 33) = Inr ?a"
    by (simp add: nat64_embed_def nat64_ipv4_bytes_def nat64_positions_4 ipv6_range_def ipv6_to_base_def
        ipv4_of_octets_def ipv6_of_groups_def Let_def)
  then show ?thesis using nat64_prefix_recovers [OF _ refl] by blast
qed

text \<open>A full-width shift makes the last address of the prefix of length zero undefined.\<close>

lemma max_ip_of_everything: "masked_ipv4_broadcast (ipv4_range a 0) = None" "masked_ipv6_max_ip (ipv6_range b 0) = None"
  by (simp_all add: masked_ipv4_broadcast_def masked_ipv6_max_ip_def ipv4_range_def ipv6_range_def Let_def)

end
