(* ===== verification/Address.thy ===== *)
theory Address
  imports IP_Correct
begin

text \<open>
  Socket addresses and paths (\<open>address.hpp\<close>, \<open>address.cpp\<close>, \<open>path.hpp\<close>, \<open>path.cpp\<close>), on a system with
  dual-stack sockets. Addresses are kept as bytes in network order, as in a \<open>sockaddr\<close>; the conversions
  between host and network order (oxenc) and the system's text functions are the fields of a record that is
  passed in. A failed assertion is \<open>None\<close>. The flow label and scope of an IPv6 socket address are not read by this
  code and left out.
\<close>

record net_env =
  host_to_big16 :: "u16 \<Rightarrow> u16"
  big_to_host16 :: "u16 \<Rightarrow> u16"
  wr32 :: "u32 \<Rightarrow> bytes"
  rd32 :: "bytes \<Rightarrow> u32"
  wr64 :: "u64 \<Rightarrow> bytes"
  rd64 :: "bytes \<Rightarrow> u64"
  inet_pton4 :: "string \<Rightarrow> pton_result"
  inet_pton6 :: "string \<Rightarrow> pton_result"
  inet_ntop4 :: "bytes \<Rightarrow> string"
  inet_ntop6 :: "bytes \<Rightarrow> string"

section \<open>Data\<close>

text \<open>A socket address storage: its family, and the port and address fields of that family.\<close>

datatype sockaddr =
    SockUnspec
  | SockIn (sin_port: u16) (sin_addr: bytes)
  | SockIn6 (sin6_port: u16) (sin6_addr: bytes)

text \<open>The recorded length: zero, that of one of the two structures, or another one.\<close>

datatype socklen = LenZero | LenIn | LenIn6 | LenOther nat

record Address =
  sock_addr :: sockaddr
  sock_len :: socklen
  dual_stack :: bool

datatype addr_error =
    BadPort
  | MissingPort
  | NotAnIP
  | NeedsBrackets
  | LogicError
  | UnknownFamily
  | IpError ip_error

definition is_ipv4 :: "Address \<Rightarrow> bool" where
  "is_ipv4 a \<longleftrightarrow> sock_len a = LenIn \<and> is_SockIn (sock_addr a)"

definition is_ipv6 :: "Address \<Rightarrow> bool" where
  "is_ipv6 a \<longleftrightarrow> sock_len a = LenIn6 \<and> is_SockIn6 (sock_addr a)"

definition is_set :: "Address \<Rightarrow> bool" where
  "is_set a \<longleftrightarrow> is_ipv4 a \<or> is_ipv6 a"

section \<open>Construction\<close>

definition address_of_string :: "net_env \<Rightarrow> string \<Rightarrow> u16 \<Rightarrow> addr_error + Address" where
  "address_of_string env addr p =
     (if addr = [] \<or> CHR '':'' \<in> set addr
      then if addr \<noteq> []
           then case parse_addr (inet_pton6 env) addr of
                  Inl e \<Rightarrow> Inl (IpError e)
                | Inr bs \<Rightarrow> Inr \<lparr>sock_addr = SockIn6 (host_to_big16 env p) bs, sock_len = LenIn6, dual_stack = False\<rparr>
           else Inr \<lparr>sock_addr = SockIn6 (host_to_big16 env p) (replicate 16 0), sock_len = LenIn6, dual_stack = True\<rparr>
      else case parse_addr (inet_pton4 env) addr of
             Inl e \<Rightarrow> Inl (IpError e)
           | Inr bs \<Rightarrow> Inr \<lparr>sock_addr = SockIn (host_to_big16 env p) bs, sock_len = LenIn, dual_stack = False\<rparr>)"

definition address_of_ipv4 :: "net_env \<Rightarrow> ipv4 \<Rightarrow> u16 \<Rightarrow> Address" where
  "address_of_ipv4 env v4 p =
     \<lparr>sock_addr = SockIn (host_to_big16 env p) (wr32 env (v4_addr v4)), sock_len = LenIn, dual_stack = False\<rparr>"

definition address_of_ipv6 :: "net_env \<Rightarrow> ipv6 \<Rightarrow> u16 \<Rightarrow> Address" where
  "address_of_ipv6 env v6 p =
     \<lparr>sock_addr = SockIn6 (host_to_big16 env p) (wr64 env (hi v6) @ wr64 env (lo v6)), sock_len = LenIn6,
      dual_stack = False\<rparr>"

definition set_port :: "net_env \<Rightarrow> u16 \<Rightarrow> Address \<Rightarrow> addr_error + Address" where
  "set_port env p a =
     (case sock_addr a of
        SockIn6 _ bs \<Rightarrow> Inr (a\<lparr>sock_addr := SockIn6 (host_to_big16 env p) bs\<rparr>)
      | SockIn _ bs \<Rightarrow> Inr (a\<lparr>sock_addr := SockIn (host_to_big16 env p) bs\<rparr>)
      | SockUnspec \<Rightarrow> Inl UnknownFamily)"

text \<open>Setting the address keeps the port; the recorded length only changes with the family.\<close>

definition set_addr4 :: "bytes \<Rightarrow> Address \<Rightarrow> Address" where
  "set_addr4 bs a =
     (case sock_addr a of
        SockIn6 p _ \<Rightarrow> a\<lparr>sock_addr := SockIn p bs, sock_len := LenIn\<rparr>
      | SockIn p _ \<Rightarrow> a\<lparr>sock_addr := SockIn p bs\<rparr>
      | SockUnspec \<Rightarrow> a)"

definition set_addr6 :: "bytes \<Rightarrow> Address \<Rightarrow> Address" where
  "set_addr6 bs a =
     (case sock_addr a of
        SockIn p _ \<Rightarrow> a\<lparr>sock_addr := SockIn6 p bs, sock_len := LenIn6\<rparr>
      | SockIn6 p _ \<Rightarrow> a\<lparr>sock_addr := SockIn6 p bs\<rparr>
      | SockUnspec \<Rightarrow> a)"

section \<open>IPv4-mapped IPv6 addresses\<close>

definition ipv6_ipv4_mapped_prefix :: bytes where
  "ipv6_ipv4_mapped_prefix = [0, 0, 0, 0, 0, 0, 0, 0, 0, 0, 0xff, 0xff]"

definition map_ipv4_as_ipv6 :: "Address \<Rightarrow> addr_error + Address" where
  "map_ipv4_as_ipv6 a =
     (if \<not> is_ipv4 a then Inl LogicError
      else Inr (a\<lparr>sock_addr := SockIn6 (sin_port (sock_addr a)) (ipv6_ipv4_mapped_prefix @ sin_addr (sock_addr a)),
                  sock_len := LenIn6\<rparr>))"

definition is_ipv4_mapped_ipv6 :: "Address \<Rightarrow> bool" where
  "is_ipv4_mapped_ipv6 a \<longleftrightarrow> is_ipv6 a \<and> take 12 (sin6_addr (sock_addr a)) = ipv6_ipv4_mapped_prefix"

definition unmap_ipv4_from_ipv6 :: "Address \<Rightarrow> addr_error + Address" where
  "unmap_ipv4_from_ipv6 a =
     (if \<not> is_ipv4_mapped_ipv6 a then Inl LogicError
      else Inr (a\<lparr>sock_addr := SockIn (sin6_port (sock_addr a)) (take 4 (drop 12 (sin6_addr (sock_addr a)))),
                  sock_len := LenIn\<rparr>))"

section \<open>Queries\<close>

definition in4 :: "Address \<Rightarrow> (u16 \<times> bytes) option" where
  "in4 a = (if is_ipv4 a then Some (sin_port (sock_addr a), sin_addr (sock_addr a)) else None)"

definition in6 :: "Address \<Rightarrow> (u16 \<times> bytes) option" where
  "in6 a = (if is_ipv6 a then Some (sin6_port (sock_addr a), sin6_addr (sock_addr a)) else None)"

definition address_port :: "net_env \<Rightarrow> Address \<Rightarrow> u16 option" where
  "address_port env a =
     (if is_ipv4 a then Some (big_to_host16 env (sin_port (sock_addr a)))
      else if is_ipv6 a then Some (big_to_host16 env (sin6_port (sock_addr a)))
      else None)"

definition is_any_addr :: "Address \<Rightarrow> bool option" where
  "is_any_addr a =
     (if is_ipv4 a then map_option (\<lambda>(_, bs). list_all (\<lambda>b. b = 0) bs) (in4 a)
      else map_option (\<lambda>(_, bs). bs = replicate 16 0) (in6 a))"

definition is_any_port :: "Address \<Rightarrow> bool option" where
  "is_any_port a = map_option (\<lambda>(p, _). p = 0) (if is_ipv4 a then in4 a else in6 a)"

definition is_addressable :: "Address \<Rightarrow> bool option" where
  "is_addressable a =
     (case is_any_addr a of
        None \<Rightarrow> None
      | Some any \<Rightarrow> if any then Some False else map_option Not (is_any_port a))"

definition to_ipv4 :: "net_env \<Rightarrow> Address \<Rightarrow> ipv4 option" where
  "to_ipv4 env a = map_option (\<lambda>(_, bs). Ipv4 (rd32 env bs)) (in4 a)"

definition to_ipv6 :: "net_env \<Rightarrow> Address \<Rightarrow> ipv6 option" where
  "to_ipv6 env a = map_option (\<lambda>(_, bs). Ipv6 (rd64 env (take 8 bs)) (rd64 env (drop 8 bs))) (in6 a)"

definition is_public_ip :: "net_env \<Rightarrow> Address \<Rightarrow> bool option" where
  "is_public_ip env a =
     (case is_any_addr a of
        None \<Rightarrow> None
      | Some any \<Rightarrow>
          if any then Some False
          else if is_ipv4 a then map_option ipv4_is_public (to_ipv4 env a)
          else if is_ipv4_mapped_ipv6 a
          then (case unmap_ipv4_from_ipv6 a of
                  Inr u \<Rightarrow> map_option ipv4_is_public (to_ipv4 env u)
                | Inl _ \<Rightarrow> None)
          else if is_ipv6 a then map_option ipv6_is_public (to_ipv6 env a)
          else Some True)"

definition address_is_public :: "net_env \<Rightarrow> Address \<Rightarrow> bool option" where
  "address_is_public env a =
     (case is_any_port a of None \<Rightarrow> None | Some any \<Rightarrow> if any then Some False else is_public_ip env a)"

text \<open>The recursion of \<open>is_loopback\<close> is one level deep: an unmapped address is an IPv4 address.\<close>

definition is_loopback_ipv4 :: "net_env \<Rightarrow> Address \<Rightarrow> bool option" where
  "is_loopback_ipv4 env a =
     (case is_addressable a of
        None \<Rightarrow> None
      | Some ok \<Rightarrow>
          if \<not> ok then Some False
          else map_option (\<lambda>v4. masked_ipv4_contains ipv4_loopback v4) (to_ipv4 env a))"

definition is_loopback :: "net_env \<Rightarrow> Address \<Rightarrow> bool option" where
  "is_loopback env a =
     (case is_addressable a of
        None \<Rightarrow> None
      | Some ok \<Rightarrow>
          if \<not> ok then Some False
          else if is_ipv4 a then map_option (\<lambda>v4. masked_ipv4_contains ipv4_loopback v4) (to_ipv4 env a)
          else if is_ipv4_mapped_ipv6 a
          then (case unmap_ipv4_from_ipv6 a of Inr u \<Rightarrow> is_loopback_ipv4 env u | Inl _ \<Rightarrow> None)
          else if is_ipv6 a then map_option (\<lambda>v6. v6 = ipv6_loopback) (to_ipv6 env a)
          else Some False)"

section \<open>Comparison\<close>

text \<open>\<open>memcmp\<close> of two buffers of the same length.\<close>

fun memcmp :: "bytes \<Rightarrow> bytes \<Rightarrow> cmp" where
  "memcmp (b # bs) (c # cs) = (case word_cmp b c of EQUIV \<Rightarrow> memcmp bs cs | r \<Rightarrow> r)"
| "memcmp bs cs = EQUIV"

definition bool_cmp :: "bool \<Rightarrow> bool \<Rightarrow> cmp" where
  "bool_cmp p q = (if p = q then EQUIV else if q then LESS else GREATER)"

definition address_cmp :: "net_env \<Rightarrow> Address \<Rightarrow> Address \<Rightarrow> cmp" where
  "address_cmp env a b =
     (if is_ipv4 a \<and> is_ipv4 b
      then (case memcmp (sin_addr (sock_addr a)) (sin_addr (sock_addr b)) of
              EQUIV \<Rightarrow> word_cmp (big_to_host16 env (sin_port (sock_addr a))) (big_to_host16 env (sin_port (sock_addr b)))
            | r \<Rightarrow> r)
      else if is_ipv6 a \<and> is_ipv6 b
      then (case memcmp (sin6_addr (sock_addr a)) (sin6_addr (sock_addr b)) of
              EQUIV \<Rightarrow> word_cmp (big_to_host16 env (sin6_port (sock_addr a))) (big_to_host16 env (sin6_port (sock_addr b)))
            | r \<Rightarrow> r)
      else bool_cmp (is_ipv6 a) (is_ipv6 b))"

definition address_eq :: "net_env \<Rightarrow> Address \<Rightarrow> Address \<Rightarrow> bool" where
  "address_eq env a b \<longleftrightarrow> address_cmp env a b = EQUIV"

section \<open>Text\<close>

definition address_host :: "net_env \<Rightarrow> Address \<Rightarrow> string" where
  "address_host env a =
     (if is_ipv6 a then inet_ntop6 env (sin6_addr (sock_addr a)) else inet_ntop4 env (sin_addr (sock_addr a)))"

definition address_to_string :: "net_env \<Rightarrow> Address \<Rightarrow> string option" where
  "address_to_string env a =
     (case address_port env a of
        None \<Rightarrow> None
      | Some p \<Rightarrow>
          Some (if is_ipv6 a then ''['' @ address_host env a @ '']:'' @ dec_string (unat p)
                else address_host env a @ '':'' @ dec_string (unat p)))"

text \<open>The searches of \<open>std::string_view\<close>; \<open>None\<close> is \<open>npos\<close>.\<close>

fun find_first_not_of :: "(char \<Rightarrow> bool) \<Rightarrow> string \<Rightarrow> nat option" where
  "find_first_not_of P [] = None"
| "find_first_not_of P (c # cs) = (if P c then map_option Suc (find_first_not_of P cs) else Some 0)"

definition find_last_not_of :: "(char \<Rightarrow> bool) \<Rightarrow> string \<Rightarrow> nat option" where
  "find_last_not_of P s = map_option (\<lambda>i. length s - 1 - i) (find_first_not_of P (rev s))"

definition ipv4_char :: "char \<Rightarrow> bool" where
  "ipv4_char c \<longleftrightarrow> is_digit c \<or> c = CHR ''.''"

definition ip_char :: "char \<Rightarrow> bool" where
  "ip_char c \<longleftrightarrow> is_digit c \<or> c \<in> set ''abcdef:.''"

definition strip_brackets :: "string \<Rightarrow> string \<times> bool" where
  "strip_brackets s =
     (if s \<noteq> [] \<and> hd s = CHR ''['' \<and> last s = CHR '']'' then (butlast (tl s), True) else (s, False))"

text \<open>The first step of \<open>parse\<close>: the port, and what precedes it.\<close>

definition parse_port :: "string \<Rightarrow> u16 option \<Rightarrow> addr_error + (string \<times> u16)" where
  "parse_port addr default_port =
     (case find_last_not_of is_digit addr of
        Some p \<Rightarrow>
          if p + 2 \<le> length addr \<and> addr ! p = CHR '':''
          then case parse_int 65535 (drop (p + 1) addr) of
                 None \<Rightarrow> Inl BadPort
               | Some v \<Rightarrow> Inr (take p addr, word_of_nat v)
          else (case default_port of None \<Rightarrow> Inl MissingPort | Some d \<Rightarrow> Inr (addr, d))
      | None \<Rightarrow> (case default_port of None \<Rightarrow> Inl MissingPort | Some d \<Rightarrow> Inr (addr, d)))"

definition address_parse :: "net_env \<Rightarrow> string \<Rightarrow> u16 option \<Rightarrow> addr_error + Address" where
  "address_parse env addr default_port =
     (case parse_port addr default_port of
        Inl e \<Rightarrow> Inl e
      | Inr (addr, final_port) \<Rightarrow>
          let (addr, had_sq_brackets) = strip_brackets addr
          in if find_first_not_of ipv4_char addr \<noteq> None
             then if find_first_not_of ip_char addr \<noteq> None then Inl NotAnIP
                  else if \<not> had_sq_brackets then Inl NeedsBrackets
                  else address_of_string env addr final_port
             else address_of_string env addr final_port)"

section \<open>Remote addresses and paths\<close>

record RemoteAddress =
  remote_addr :: Address
  remote_pubkey :: bytes

definition remote_address_eq :: "net_env \<Rightarrow> RemoteAddress \<Rightarrow> RemoteAddress \<Rightarrow> bool" where
  "remote_address_eq env a b \<longleftrightarrow>
     address_eq env (remote_addr a) (remote_addr b) \<and> remote_pubkey a = remote_pubkey b"

text \<open>
  A path has two addresses and the lengths that ngtcp2 has recorded for them, which point into the
  addresses' storage.
\<close>

record Path =
  path_local :: Address
  path_remote :: Address
  ngtcp2_local_len :: socklen
  ngtcp2_remote_len :: socklen

definition path_ctor :: "Address \<Rightarrow> Address \<Rightarrow> Path" where
  "path_ctor l r =
     \<lparr>path_local = l, path_remote = r, ngtcp2_local_len = sock_len l, ngtcp2_remote_len = sock_len r\<rparr>"

definition path_assign :: "Path \<Rightarrow> Path" where
  "path_assign p = path_ctor (path_local p) (path_remote p)"

definition ngtcp2_lengths_match :: "Path \<Rightarrow> bool" where
  "ngtcp2_lengths_match p \<longleftrightarrow>
     ngtcp2_local_len p = sock_len (path_local p) \<and> ngtcp2_remote_len p = sock_len (path_remote p)"

definition set_new_remote :: "sockaddr \<Rightarrow> socklen \<Rightarrow> Path \<Rightarrow> Path" where
  "set_new_remote s n p =
     p\<lparr>path_remote := \<lparr>sock_addr = s, sock_len = n, dual_stack = False\<rparr>, ngtcp2_remote_len := n\<rparr>"

definition path_eq :: "net_env \<Rightarrow> Path \<Rightarrow> Path \<Rightarrow> bool" where
  "path_eq env p q \<longleftrightarrow>
     address_eq env (path_local p) (path_local q) \<and> address_eq env (path_remote p) (path_remote q)"

definition path_invert :: "Path \<Rightarrow> Path" where
  "path_invert p = path_ctor (path_remote p) (path_local p)"

end
