(* ===== verification/Address_Correct.thy ===== *)
theory Address_Correct
  imports Address
begin
text \<open>
  Properties of socket addresses: mapping to IPv6 and back, printing and parsing, the errors of the
  parser, and comparison.
\<close>

section \<open>Searching\<close>

lemma find_first_None: "find_first_not_of P s = None \<longleftrightarrow> list_all P s"
  by (induction s) auto

lemma find_first_append:
  "list_all P s \<Longrightarrow> find_first_not_of P t = Some i \<Longrightarrow> find_first_not_of P (s @ t) = Some (length s + i)"
  by (induction s) auto

lemma find_last_colon:
  assumes "list_all is_digit ds" and "\<not> is_digit c"
  shows "find_last_not_of is_digit (h @ c # ds) = Some (length h)"
proof -
  have "find_first_not_of is_digit (rev ds @ c # rev h) = Some (length (rev ds) + 0)"
    using assms by (intro find_first_append) simp_all
  then show ?thesis by (simp add: find_last_not_of_def)
qed

lemma colon_no_digit: "\<not> is_digit (CHR '':'')"
  by (simp add: is_digit_def)

lemma parse_port_split:
  assumes "list_all is_digit ds" and "ds \<noteq> []"
  shows "parse_port (h @ '':'' @ ds) d =
    (case parse_int 65535 ds of None \<Rightarrow> Inl BadPort | Some v \<Rightarrow> Inr (h, word_of_nat v))"
proof -
  have "find_last_not_of is_digit (h @ CHR '':'' # ds) = Some (length h)"
    by (rule find_last_colon [OF assms(1) colon_no_digit])
  moreover have "length h + 2 \<le> length (h @ CHR '':'' # ds)" using assms(2) by (cases ds) simp_all
  ultimately show ?thesis by (simp add: parse_port_def nth_append split: option.splits)
qed

lemma parse_port_printed:
  fixes p :: u16
  shows "parse_port (h @ '':'' @ dec_string (unat p)) d = Inr (h, p)"
proof -
  have "unat p < 2 ^ 16" using unsigned_less [of p] by simp
  then have "unat p \<le> 65535" by simp
  then show ?thesis
    using parse_port_split [of "dec_string (unat p)" h d] dec_string_digits [of "unat p"]
    by (simp add: parse_int_dec_string list_all_iff)
qed

section \<open>Mapped addresses\<close>

text \<open>An address as the constructors make it: family, length and number of bytes agree.\<close>

definition address_wf :: "Address \<Rightarrow> bool" where
  "address_wf a \<longleftrightarrow>
     (case sock_addr a of
        SockIn p bs \<Rightarrow> sock_len a = LenIn \<and> length bs = 4
      | SockIn6 p bs \<Rightarrow> sock_len a = LenIn6 \<and> length bs = 16
      | SockUnspec \<Rightarrow> False)"

lemma mapped_shape:
  assumes "is_ipv4 a" and "address_wf a"
  obtains p bs where "sock_addr a = SockIn p bs" and "sock_len a = LenIn" and "length bs = 4"
  using assms that by (cases "sock_addr a") (auto simp: is_ipv4_def address_wf_def)

lemma all_zero_4: "length bs = 4 \<Longrightarrow> list_all (\<lambda>b. b = 0) bs \<Longrightarrow> bs = [0, 0, 0, 0]"
  by (auto simp: numeral_eq_Suc length_Suc_conv)

lemma mapped_not_zero: "ipv6_ipv4_mapped_prefix @ bs \<noteq> replicate 16 0"
proof
  assume "ipv6_ipv4_mapped_prefix @ bs = replicate 16 0"
  then have "(ipv6_ipv4_mapped_prefix @ bs) ! 10 = (replicate 16 0 :: bytes) ! 10" by (rule arg_cong)
  then show False by (simp add: ipv6_ipv4_mapped_prefix_def)
qed

lemma zero_not_public: "\<not> ipv4_is_public (Ipv4 0)"
  by (simp add: ipv4_is_public_def ipv4_nonpublic_def masked_ipv4_contains_def ipv4_range_def ipv4_of_octets_def
      ipv4_to_base_def)

lemma zero_not_loopback: "\<not> masked_ipv4_contains ipv4_loopback (Ipv4 0)"
  by (simp add: ipv4_loopback_def masked_ipv4_contains_def ipv4_range_def ipv4_of_octets_def ipv4_to_base_def)

text \<open>
  Mapping an IPv4 address to IPv6 loses nothing. The result is an IPv4-mapped IPv6 address with the
  same port, mapping it back gives the original, and it is a public or a loopback address exactly if the
  original is. Only IPv4 addresses can be mapped, and only mapped ones unmapped. Of the conversion from
  network order it is only used that four zero bytes are the number zero.
\<close>

theorem map_unmap_roundtrip:
  assumes "is_ipv4 a" and "address_wf a" and "rd32 env [0, 0, 0, 0] = 0"
  shows "\<exists>b. map_ipv4_as_ipv6 a = Inr b \<and> address_wf b \<and> is_ipv6 b \<and> is_ipv4_mapped_ipv6 b \<and>
    unmap_ipv4_from_ipv6 b = Inr a \<and> address_port env b = address_port env a \<and>
    is_public_ip env b = is_public_ip env a \<and> is_loopback env b = is_loopback env a \<and>
    map_ipv4_as_ipv6 b = Inl LogicError \<and> unmap_ipv4_from_ipv6 a = Inl LogicError"
proof -
  obtain p bs where a: "sock_addr a = SockIn p bs" "sock_len a = LenIn" and l: "length bs = 4"
    by (rule mapped_shape [OF assms(1,2)])
  define b where "b = a\<lparr>sock_addr := SockIn6 p (ipv6_ipv4_mapped_prefix @ bs), sock_len := LenIn6\<rparr>"
  have m: "map_ipv4_as_ipv6 a = Inr b" "map_ipv4_as_ipv6 b = Inl LogicError" "unmap_ipv4_from_ipv6 a = Inl LogicError"
    using a by (simp_all add: b_def map_ipv4_as_ipv6_def unmap_ipv4_from_ipv6_def is_ipv4_mapped_ipv6_def is_ipv6_def is_ipv4_def)
  have b: "is_ipv6 b" "\<not> is_ipv4 b" "is_ipv4_mapped_ipv6 b" "address_wf b"
    using l by (simp_all add: b_def is_ipv6_def is_ipv4_def is_ipv4_mapped_ipv6_def address_wf_def ipv6_ipv4_mapped_prefix_def)
  have "a = a\<lparr>sock_addr := SockIn p bs, sock_len := LenIn\<rparr>" using a by simp
  then have u: "unmap_ipv4_from_ipv6 b = Inr a"
    using b(3) l by (simp add: unmap_ipv4_from_ipv6_def b_def ipv6_ipv4_mapped_prefix_def)
  have any: "is_any_addr b = Some False" "is_any_port b = Some (p = 0)"
    using b by (simp_all add: is_any_addr_def is_any_port_def in6_def b_def mapped_not_zero)
  have a4: "to_ipv4 env a = Some (Ipv4 (rd32 env bs))" "is_any_addr a = Some (list_all (\<lambda>b. b = 0) bs)"
    "is_any_port a = Some (p = 0)"
    using a assms(1) by (simp_all add: in4_def to_ipv4_def is_any_addr_def is_any_port_def)
  have z: "rd32 env bs = 0" if "list_all (\<lambda>b. b = 0) bs" using all_zero_4 [OF l that] assms(3) by simp
  have "address_port env b = address_port env a"
    using a assms(1) b by (simp add: b_def address_port_def)
  moreover have "is_public_ip env b = is_public_ip env a"
    using any a4 b(2,3) u assms(1) z zero_not_public by (auto simp: is_public_ip_def)
  moreover have "is_loopback env b = is_loopback env a"
    using any a4 b(2,3) u assms(1) by (auto simp: is_loopback_def is_loopback_ipv4_def is_addressable_def)
  ultimately show ?thesis using m b u by blast
qed

definition env_example :: net_env where
  "env_example =
     \<lparr>host_to_big16 = id, big_to_host16 = id, wr32 = (\<lambda>_. [9, 9, 9, 9]), rd32 = (\<lambda>bs. ucast (bs ! 0) + ucast (bs ! 1)),
      wr64 = (\<lambda>_. replicate 8 0), rd64 = (\<lambda>_. 0),
      inet_pton4 = (\<lambda>s. if s = ''9.9.9.9'' then PtonOk [9, 9, 9, 9] else PtonInvalid),
      inet_pton6 = (\<lambda>s. if s = ''::1'' then PtonOk (replicate 15 0 @ [1]) else PtonInvalid),
      inet_ntop4 = (\<lambda>_. ''9.9.9.9''), inet_ntop6 = (\<lambda>_. ''::1'')\<rparr>"

theorem map_unmap_roundtrip_witness:
  "\<exists>b. map_ipv4_as_ipv6 \<lparr>sock_addr = SockIn 80 [9, 9, 9, 9], sock_len = LenIn, dual_stack = False\<rparr> = Inr b \<and>
     unmap_ipv4_from_ipv6 b = Inr \<lparr>sock_addr = SockIn 80 [9, 9, 9, 9], sock_len = LenIn, dual_stack = False\<rparr>"
  using map_unmap_roundtrip [of "\<lparr>sock_addr = SockIn 80 [9, 9, 9, 9], sock_len = LenIn, dual_stack = False\<rparr>" env_example]
  by (auto simp: is_ipv4_def address_wf_def env_example_def)

section \<open>Printing and parsing\<close>

text \<open>
  What is documented of the system's text functions, for one address: \<open>inet_ntop\<close> prints an IPv4 address
  with digits and dots and an IPv6 address with lower-case hexadecimal digits, colons and dots, at least one
  of them a colon, and \<open>inet_pton\<close> reads it back.
\<close>

definition text_ok :: "net_env \<Rightarrow> Address \<Rightarrow> bool" where
  "text_ok env a \<longleftrightarrow>
     (case sock_addr a of
        SockIn p bs \<Rightarrow> inet_ntop4 env bs \<noteq> [] \<and> list_all ipv4_char (inet_ntop4 env bs) \<and>
          inet_pton4 env (inet_ntop4 env bs) = PtonOk bs \<and> host_to_big16 env (big_to_host16 env p) = p
      | SockIn6 p bs \<Rightarrow> CHR '':'' \<in> set (inet_ntop6 env bs) \<and> list_all ip_char (inet_ntop6 env bs) \<and>
          inet_pton6 env (inet_ntop6 env bs) = PtonOk bs \<and> host_to_big16 env (big_to_host16 env p) = p
      | SockUnspec \<Rightarrow> False)"

lemma no_bracket_4: "ipv4_char c \<Longrightarrow> c \<noteq> CHR ''[''"
  by (auto simp: ipv4_char_def is_digit_def)

lemma no_colon_4: "ipv4_char c \<Longrightarrow> c \<noteq> CHR '':''"
  by (auto simp: ipv4_char_def is_digit_def)

text \<open>
  C15: an address that is printed is parsed back to itself, port included and whatever default port is
  given, for IPv4 (host:port) and IPv6 ([host]:port).
\<close>

theorem address_print_parse:
  assumes "address_wf a" and "\<not> dual_stack a" and "text_ok env a"
  shows "\<exists>s. address_to_string env a = Some s \<and> address_parse env s d = Inr a"
proof (cases "sock_addr a")
  case SockUnspec
  then show ?thesis using assms(1) by (simp add: address_wf_def)
next
  case (SockIn p bs)
  let ?h = "inet_ntop4 env bs" and ?p = "big_to_host16 env p"
  have t: "?h \<noteq> []" "list_all ipv4_char ?h" "inet_pton4 env ?h = PtonOk bs" "host_to_big16 env ?p = p"
    and len: "sock_len a = LenIn" using assms(1,3) SockIn by (simp_all add: text_ok_def address_wf_def)
  have f: "is_ipv4 a" "\<not> is_ipv6 a" using SockIn len by (simp_all add: is_ipv4_def is_ipv6_def)
  then have s: "address_to_string env a = Some (?h @ '':'' @ dec_string (unat ?p))"
    using SockIn by (simp add: address_to_string_def address_port_def address_host_def)
  have "hd ?h \<noteq> CHR ''[''" using t(1,2) no_bracket_4 by (cases ?h) auto
  then have b: "strip_brackets ?h = (?h, False)" by (simp add: strip_brackets_def)
  have "CHR '':'' \<notin> set ?h" using t(2) no_colon_4 by (auto simp: list_all_iff)
  then have "address_of_string env ?h ?p = Inr \<lparr>sock_addr = SockIn p bs, sock_len = LenIn, dual_stack = False\<rparr>"
    using t by (simp add: address_of_string_def parse_addr_def)
  moreover have "a = \<lparr>sock_addr = SockIn p bs, sock_len = LenIn, dual_stack = False\<rparr>"
    using SockIn len assms(2) by simp
  ultimately have "address_parse env (?h @ '':'' @ dec_string (unat ?p)) d = Inr a"
    unfolding address_parse_def parse_port_printed using b t(2) by (simp add: find_first_None)
  then show ?thesis using s by simp
next
  case (SockIn6 p bs)
  let ?h = "inet_ntop6 env bs" and ?p = "big_to_host16 env p"
  have t: "CHR '':'' \<in> set ?h" "list_all ip_char ?h" "inet_pton6 env ?h = PtonOk bs" "host_to_big16 env ?p = p"
    and len: "sock_len a = LenIn6" using assms(1,3) SockIn6 by (simp_all add: text_ok_def address_wf_def)
  have f: "is_ipv6 a" using SockIn6 len by (simp add: is_ipv6_def)
  then have s: "address_to_string env a = Some ((''['' @ ?h @ '']'') @ '':'' @ dec_string (unat ?p))"
    using SockIn6 by (simp add: address_to_string_def address_port_def address_host_def is_ipv4_def)
  have b: "strip_brackets (''['' @ ?h @ '']'') = (?h, True)" by (simp add: strip_brackets_def butlast_append)
  have "\<not> list_all ipv4_char ?h" using t(1) no_colon_4 by (auto simp: list_all_iff)
  moreover have "address_of_string env ?h ?p = Inr \<lparr>sock_addr = SockIn6 p bs, sock_len = LenIn6, dual_stack = False\<rparr>"
    using t by (auto simp: address_of_string_def parse_addr_def)
  moreover have "a = \<lparr>sock_addr = SockIn6 p bs, sock_len = LenIn6, dual_stack = False\<rparr>"
    using SockIn6 len assms(2) by simp
  ultimately have "address_parse env ((''['' @ ?h @ '']'') @ '':'' @ dec_string (unat ?p)) d = Inr a"
    unfolding address_parse_def parse_port_printed using b t(2) by (simp add: find_first_None)
  then show ?thesis using s by simp
qed

theorem address_print_parse_witness:
  "\<exists>s. address_to_string env_example \<lparr>sock_addr = SockIn6 443 (replicate 15 0 @ [1]), sock_len = LenIn6, dual_stack = False\<rparr> = Some s \<and>
     address_parse env_example s None = Inr \<lparr>sock_addr = SockIn6 443 (replicate 15 0 @ [1]), sock_len = LenIn6, dual_stack = False\<rparr>"
  by (rule address_print_parse)
    (simp_all add: address_wf_def text_ok_def env_example_def ip_char_def is_digit_def)

text \<open>
  How parsing fails. Without a default, an address must end in a colon and a port; a port above 65535
  is rejected even with a default; other characters than those of an IP address are rejected; and an IPv6 address
  must be in brackets. A port by itself never makes an address valid: the rest must be accepted by the
  system's parser or be empty.
\<close>

theorem address_parse_errors:
  assumes "list_all is_digit ds"
  shows "address_parse env ds None = Inl MissingPort \<and>
    address_parse env (h @ '':'') None = Inl MissingPort \<and>
    (65535 < undigits10 (map digit_of_char ds) \<longrightarrow> address_parse env (h @ '':'' @ ds) d = Inl BadPort) \<and>
    (h \<noteq> [] \<and> hd h \<noteq> CHR ''['' \<and> \<not> list_all ip_char h \<longrightarrow>
       address_parse env (h @ '':'' @ dec_string (unat (p :: u16))) d = Inl NotAnIP) \<and>
    (h \<noteq> [] \<and> list_all ip_char h \<and> \<not> list_all ipv4_char h \<longrightarrow>
       address_parse env (h @ '':'' @ dec_string (unat p)) d = Inl NeedsBrackets)"
proof (intro conjI impI)
  have n: "find_last_not_of is_digit ds = None" using assms by (simp add: find_last_not_of_def find_first_None)
  show "address_parse env ds None = Inl MissingPort"
    by (simp add: address_parse_def parse_port_def n)
  have "find_last_not_of is_digit (h @ '':'') = Some (length h)"
    using find_last_colon [of "[]" "CHR '':''" h] colon_no_digit by simp
  then show "address_parse env (h @ '':'') None = Inl MissingPort"
    by (simp add: address_parse_def parse_port_def)
next
  assume big: "65535 < undigits10 (map digit_of_char ds)"
  then have "ds \<noteq> []" by auto
  have t: "takeWhile is_digit ds = ds" using assms by (simp add: list_all_iff)
  have "parse_int 65535 ds = None" unfolding parse_int_def from_chars_def t Let_def using big by simp
  then show "address_parse env (h @ '':'' @ ds) d = Inl BadPort"
    using parse_port_split [OF assms \<open>ds \<noteq> []\<close>, of h d] by (simp add: address_parse_def)
next
  assume "h \<noteq> [] \<and> hd h \<noteq> CHR ''['' \<and> \<not> list_all ip_char h"
  moreover then have "\<not> list_all ipv4_char h"
    by (auto simp: list_all_iff ip_char_def ipv4_char_def)
  ultimately show "address_parse env (h @ '':'' @ dec_string (unat p)) d = Inl NotAnIP"
    unfolding address_parse_def parse_port_printed by (simp add: strip_brackets_def find_first_None)
next
  assume h: "h \<noteq> [] \<and> list_all ip_char h \<and> \<not> list_all ipv4_char h"
  then have "hd h \<noteq> CHR ''[''" by (cases h) (auto simp: ip_char_def is_digit_def)
  then show "address_parse env (h @ '':'' @ dec_string (unat p)) d = Inl NeedsBrackets"
    unfolding address_parse_def parse_port_printed using h by (simp add: strip_brackets_def find_first_None)
qed

theorem address_parse_errors_witness:
  "address_parse env_example ''8080'' None = Inl MissingPort \<and> address_parse env_example ''9.9.9.9:'' None = Inl MissingPort \<and>
   address_parse env_example ''9.9.9.9:65536'' (Some 1) = Inl BadPort"
proof -
  have v: "undigits10 (map digit_of_char ''65536'') = 65536" by (simp add: undigits10_def digit_of_char_def)
  show ?thesis
    using address_parse_errors [of "''8080''" env_example "''9.9.9.9''" None 0]
      address_parse_errors [of "''65536''" env_example "''9.9.9.9''" "Some 1" 0] v
    by (simp add: is_digit_def)
qed

text \<open>Two addresses compare equal exactly if they have the same family, address and port.\<close>

lemma memcmp_equiv: "length bs = length cs \<Longrightarrow> memcmp bs cs = EQUIV \<longleftrightarrow> bs = cs"
  by (induction bs cs rule: list_induct2) (auto simp: word_cmp_def split: cmp.splits if_splits)

lemma memcmp_refl [simp]: "memcmp bs bs = EQUIV"
  by (simp add: memcmp_equiv)

lemma address_eq_iff:
  assumes "address_wf a" "address_wf b" and "\<And>p q. big_to_host16 env p = big_to_host16 env q \<Longrightarrow> p = q"
  shows "address_eq env a b \<longleftrightarrow> sock_addr a = sock_addr b"
  using assms
  by (cases "sock_addr a"; cases "sock_addr b")
    (auto simp: address_eq_def address_cmp_def is_ipv4_def is_ipv6_def address_wf_def word_cmp_def bool_cmp_def
      memcmp_equiv split: cmp.splits if_splits)

end
