(* ===== verification/Stream_Model.thy ===== *)
theory Stream_Model
  imports Quic_Prelude
begin

text \<open>
  The stream of \<open>include/oxen/quic/stream.hpp\<close> and \<open>src/stream.cpp\<close>: the state of class
  \<open>Stream\<close> and every operation on it, as the event loop thread runs them (the bodies that
  \<open>job_queue.call\<close> and \<open>job_queue.call_get\<close> wrap).

  The send side is a deque of caller-owned buffers with a cursor (\<open>current_buffer_index\<close>,
  \<open>current_buffer_offset\<close>): bytes before the cursor are in flight, bytes after it unsent. Calls
  that leave the stream (the application's callbacks, \<open>packet_io_ready\<close> of the connection, the two
  ngtcp2 calls) are appended to the list \<open>out\<close>, in the order they are made. A callback is
  represented by whether it is set. \<open>None\<close> is a failed \<open>assert\<close> (or an access the assert guards).
\<close>

section \<open>State\<close>

datatype stream_call =
    PacketIoReady
  | WatermarkAlarm
  | WatermarkClear
  | DataCallback bytes
  | CloseCallback nat
  | FinCallback
  | ShutdownStream int nat
  | ExtendMaxStreamOffset int nat
  | OnReady
  | OnUnready

record stream =
  user_buffers :: "(bytes \<times> keep_alive) list"
  unsent_size :: nat
  unacked_size :: nat
  acked_bytes :: nat
  current_buffer_index :: nat
  current_buffer_offset :: nat
  front_trimmed :: nat
  is_closing :: bool
  send_fin :: bool
  sent_fin :: bool
  received_fin :: bool
  ready :: bool
  paused :: bool
  notify :: bool
  had_notify :: bool
  stream_id :: int
  paused_offset :: nat
  data_callback :: bool
  close_callback :: bool
  fin_callback :: bool
  watermarking :: "(nat \<times> nat) option"
  watermark_alarm :: bool
  watermark_on_alarm :: bool
  watermark_on_clear :: bool
  conn :: bool
  out :: "stream_call list"

datatype stream_error = LogicError | InvalidArgument

definition APP_ERRCODE_MAX :: nat where
  "APP_ERRCODE_MAX = 2 ^ 62 - 1"

definition emit :: "stream_call \<Rightarrow> stream \<Rightarrow> stream" where
  "emit c s = s\<lparr>out := out s @ [c]\<rparr>"

section \<open>Construction\<close>

text \<open>The base constructor: the members' default initialisers, and a live connection.\<close>

definition stream_base_ctor :: stream where
  "stream_base_ctor =
     \<lparr>user_buffers = [], unsent_size = 0, unacked_size = 0, acked_bytes = 0,
      current_buffer_index = 0, current_buffer_offset = 0, front_trimmed = 0,
      is_closing = False, send_fin = False, sent_fin = False, received_fin = False,
      ready = False, paused = False, notify = False, had_notify = False, stream_id = - 2,
      paused_offset = 0, data_callback = False, close_callback = False, fin_callback = False,
      watermarking = None, watermark_alarm = False, watermark_on_alarm = False,
      watermark_on_clear = False, conn = True, out = []\<rparr>"

text \<open>The constructor options; the flag of a callback option is whether it is non-null.\<close>

datatype stream_opt = DataCb bool | CloseCb bool | StreamNotify | StreamFinCb bool

fun stream_handle_opt :: "stream_opt \<Rightarrow> stream \<Rightarrow> stream" where
  "stream_handle_opt (DataCb cb) s = s\<lparr>data_callback := cb\<rparr>"
| "stream_handle_opt (CloseCb cb) s = s\<lparr>close_callback := cb\<rparr>"
| "stream_handle_opt StreamNotify s = s\<lparr>notify := True, had_notify := True\<rparr>"
| "stream_handle_opt (StreamFinCb cb) s = s\<lparr>fin_callback := cb\<rparr>"

text \<open>The argument is whether the connection has a default data callback.\<close>

definition stream_set_default_callbacks :: "bool \<Rightarrow> stream \<Rightarrow> stream" where
  "stream_set_default_callbacks default_data s =
     (let s = (if \<not> data_callback s then s\<lparr>data_callback := default_data\<rparr> else s)
      in if \<not> close_callback s then s\<lparr>close_callback := True\<rparr> else s)"

definition stream_ctor :: "bool \<Rightarrow> stream_opt list \<Rightarrow> stream" where
  "stream_ctor default_data opts =
     stream_set_default_callbacks default_data (fold stream_handle_opt opts stream_base_ctor)"

section \<open>Watermarks\<close>

definition check_watermark :: "stream \<Rightarrow> stream" where
  "check_watermark s =
     (case watermarking s of
        None \<Rightarrow> s
      | Some (alarm_thresh, clear_thresh) \<Rightarrow>
          if watermark_alarm s
          then if unsent_size s \<le> clear_thresh
               then let s = s\<lparr>watermark_alarm := False\<rparr>
                    in if watermark_on_clear s then emit WatermarkClear s else s
               else s
          else if unsent_size s \<ge> alarm_thresh
               then let s = s\<lparr>watermark_alarm := True\<rparr>
                    in if watermark_on_alarm s then emit WatermarkAlarm s else s
               else s)"

definition check_watermark_if_enabled :: "stream \<Rightarrow> stream" where
  "check_watermark_if_enabled s = (if watermarking s \<noteq> None then check_watermark s else s)"

definition enable_watermarks :: "nat \<Rightarrow> bool \<Rightarrow> nat \<Rightarrow> bool \<Rightarrow> stream \<Rightarrow> stream_error + stream" where
  "enable_watermarks alarm on_alarm clear on_clear s =
     (if clear \<ge> alarm then Inl LogicError
      else if is_closing s \<or> send_fin s then Inr s
      else let s = (if watermarking s = None then s\<lparr>watermark_alarm := False\<rparr> else s);
               s = s\<lparr>watermarking := Some (alarm, clear),
                     watermark_on_alarm := on_alarm, watermark_on_clear := on_clear\<rparr>
           in Inr (check_watermark s))"

definition disable_watermarks :: "stream \<Rightarrow> stream" where
  "disable_watermarks s =
     (if watermarking s = None then s
      else s\<lparr>watermarking := None, watermark_alarm := False,
             watermark_on_alarm := False, watermark_on_clear := False\<rparr>)"

definition watermark_status :: "stream \<Rightarrow> bool option" where
  "watermark_status s = (if watermarking s = None then None else Some (watermark_alarm s))"

section \<open>Flow-control pause\<close>

definition stream_pause :: "stream \<Rightarrow> stream option" where
  "stream_pause s =
     (if \<not> paused s
      then if paused_offset s = 0 then Some (s\<lparr>paused := True\<rparr>) else None
      else Some s)"

definition stream_resume :: "stream \<Rightarrow> stream" where
  "stream_resume s =
     (if paused s
      then let s = s\<lparr>paused := False\<rparr>;
               s = (if conn s
                    then let s = (if paused_offset s \<noteq> 0
                                  then emit (ExtendMaxStreamOffset (stream_id s) (paused_offset s)) s
                                  else s)
                         in emit PacketIoReady s
                    else s)
           in s\<lparr>paused_offset := 0\<rparr>
      else s)"

section \<open>Accessors\<close>

definition retained_impl :: "stream \<Rightarrow> nat" where
  "retained_impl s = sz_add (sz_add (unacked_size s) (unsent_size s)) (front_trimmed s)"

definition get_stats :: "stream \<Rightarrow> nat \<times> nat \<times> nat \<times> nat" where
  "get_stats s = (acked_bytes s, unacked_size s, unsent_size s, retained_impl s)"

definition writable :: "stream \<Rightarrow> bool" where
  "writable s = (\<not> (is_closing s \<or> send_fin s \<or> sent_fin s))"

definition readable :: "stream \<Rightarrow> bool" where
  "readable s = (\<not> (is_closing s \<or> received_fin s))"

definition stream_unsent_impl :: "stream \<Rightarrow> nat" where
  "stream_unsent_impl s = unsent_size s"

definition stream_is_empty_impl :: "stream \<Rightarrow> bool" where
  "stream_is_empty_impl s = (user_buffers s = [])"

definition stream_has_unsent_impl :: "stream \<Rightarrow> bool" where
  "stream_has_unsent_impl s = (\<not> stream_is_empty_impl s)"

section \<open>FIN, close and readiness\<close>

definition stream_receive :: "bytes \<Rightarrow> stream \<Rightarrow> stream" where
  "stream_receive data s = (if data_callback s then emit (DataCallback data) s else s)"

definition on_fin :: "stream \<Rightarrow> stream" where
  "on_fin s = (let s = s\<lparr>received_fin := True\<rparr> in if fin_callback s then emit FinCallback s else s)"

definition stream_send_fin :: "stream \<Rightarrow> stream" where
  "stream_send_fin s = (let s = s\<lparr>send_fin := True\<rparr> in if conn s then emit PacketIoReady s else s)"

definition stream_close :: "nat \<Rightarrow> stream \<Rightarrow> stream_error + stream" where
  "stream_close app_err_code s =
     (if app_err_code > APP_ERRCODE_MAX then Inl InvalidArgument
      else let s = (if is_closing s then s
                    else let s = s\<lparr>send_fin := True, is_closing := True\<rparr>
                         in if conn s then emit (ShutdownStream (stream_id s) app_err_code) s else s);
               s = s\<lparr>data_callback := False\<rparr>
           in if \<not> conn s then Inr s else Inr (emit PacketIoReady s))"

text \<open>An exception from the close callback is caught and logged, so it does not show here.\<close>

definition stream_closed :: "nat \<Rightarrow> stream \<Rightarrow> stream" where
  "stream_closed app_code s =
     (let s = (if close_callback s then emit (CloseCallback app_code) s else s)
      in s\<lparr>conn := False, send_fin := True, is_closing := True\<rparr>)"

definition set_ready :: "bool \<Rightarrow> stream \<Rightarrow> stream" where
  "set_ready r s =
     (if ready s = r then s
      else let s = s\<lparr>ready := r\<rparr> in emit (if r then OnReady else OnUnready) s)"

text \<open>Replacing a callback; the flag is whether the new one is non-null.\<close>

definition set_data_callback :: "bool \<Rightarrow> stream \<Rightarrow> stream" where
  "set_data_callback cb s = s\<lparr>data_callback := cb\<rparr>"

definition set_close_callback :: "bool \<Rightarrow> stream \<Rightarrow> stream" where
  "set_close_callback cb s = s\<lparr>close_callback := cb\<rparr>"

definition set_fin_callback :: "bool \<Rightarrow> stream \<Rightarrow> stream" where
  "set_fin_callback cb s = s\<lparr>fin_callback := cb\<rparr>"

section \<open>The send buffer\<close>

definition append_buffer :: "bytes \<Rightarrow> keep_alive \<Rightarrow> stream \<Rightarrow> stream option" where
  "append_buffer buffer keep s =
     (if \<not> conn s then None
      else let s = s\<lparr>unsent_size := sz_add (unsent_size s) (length buffer),
                     user_buffers := user_buffers s @ [(buffer, keep)]\<rparr>;
               s = check_watermark_if_enabled s
           in Some (if ready s then emit PacketIoReady s else s))"

text \<open>The second argument is whether the connection is closing or draining.\<close>

definition stream_send_impl :: "bytes \<Rightarrow> bool \<Rightarrow> keep_alive \<Rightarrow> stream \<Rightarrow> stream option" where
  "stream_send_impl data conn_ended keep s =
     (if data = [] then Some s
      else if is_closing s \<or> send_fin s \<or> sent_fin s then Some s
      else if \<not> conn s \<or> conn_ended then Some s
      else append_buffer data keep s)"

text \<open>
  The loop of \<open>acknowledge\<close> that drops the buffers acked in full, over the variables it changes: the
  bytes left to acknowledge, the buffers, \<open>front_trimmed\<close> and \<open>current_buffer_index\<close>.
\<close>

fun acknowledge_loop :: "nat \<Rightarrow> (bytes \<times> keep_alive) list \<Rightarrow> nat \<Rightarrow> nat
    \<Rightarrow> (nat \<times> (bytes \<times> keep_alive) list \<times> nat \<times> nat) option" where
  "acknowledge_loop bytes [] trimmed idx = (if bytes \<noteq> 0 then None else Some (bytes, [], trimmed, idx))"
| "acknowledge_loop bytes ((front, keep) # rest) trimmed idx =
     (if bytes \<noteq> 0 \<and> bytes \<ge> length front
      then if idx > 0 then acknowledge_loop (bytes - length front) rest 0 (idx - 1) else None
      else Some (bytes, (front, keep) # rest, trimmed, idx))"

text \<open>The part of the front buffer that is acked when the loop is done.\<close>

fun acknowledge_trim :: "nat \<times> (bytes \<times> keep_alive) list \<times> nat \<times> nat \<Rightarrow> nat
    \<Rightarrow> ((bytes \<times> keep_alive) list \<times> nat \<times> nat \<times> nat) option" where
  "acknowledge_trim (bytes, bufs, trimmed, idx) offset =
     (if bytes = 0 then Some (bufs, trimmed, idx, offset)
      else case bufs of
        [] \<Rightarrow> None
      | (front, keep) # rest \<Rightarrow>
          if idx = 0 \<and> offset < bytes then None
          else Some ((drop bytes front, keep) # rest, sz_add trimmed bytes, idx,
                     if idx = 0 then offset - bytes else offset))"

definition acknowledge :: "nat \<Rightarrow> stream \<Rightarrow> stream option" where
  "acknowledge bytes s =
     (if \<not> bytes \<le> unacked_size s then None
      else let s = s\<lparr>unacked_size := unacked_size s - bytes,
                     acked_bytes := sz_add (acked_bytes s) bytes\<rparr>
           in case acknowledge_loop bytes (user_buffers s) (front_trimmed s) (current_buffer_index s) of
                None \<Rightarrow> None
              | Some st \<Rightarrow>
                  (case acknowledge_trim st (current_buffer_offset s) of
                     None \<Rightarrow> None
                   | Some (bufs, trimmed, idx, offset) \<Rightarrow>
                       Some (s\<lparr>user_buffers := bufs, front_trimmed := trimmed,
                               current_buffer_index := idx, current_buffer_offset := offset\<rparr>)))"

text \<open>The loop of \<open>wrote\<close> that moves the cursor (index and offset) forward over the buffers.\<close>

function wrote_loop :: "(bytes \<times> keep_alive) list \<Rightarrow> nat \<Rightarrow> nat \<Rightarrow> nat \<Rightarrow> nat \<times> nat" where
  "wrote_loop bufs bytes idx offset =
     (if idx < length bufs \<and> bytes > 0
      then let remaining = sz_sub (length (fst (bufs ! idx))) offset
           in if bytes < remaining then (idx, sz_add offset bytes)
              else wrote_loop bufs (bytes - remaining) (idx + 1) 0
      else (idx, offset))"
  by pat_completeness auto
termination
  by (relation "measure (\<lambda>(bufs, bytes, idx, offset). length bufs - idx)") auto

declare wrote_loop.simps [simp del]

definition wrote :: "nat \<Rightarrow> stream \<Rightarrow> stream" where
  "wrote bytes s =
     (let s = s\<lparr>unacked_size := sz_add (unacked_size s) bytes,
                unsent_size := sz_sub (unsent_size s) bytes\<rparr>;
          s = (if notify s then s\<lparr>notify := False\<rparr> else s);
          s = check_watermark_if_enabled s;
          (idx, offset) = wrote_loop (user_buffers s) bytes (current_buffer_index s) (current_buffer_offset s)
      in s\<lparr>current_buffer_index := idx, current_buffer_offset := offset\<rparr>)"

text \<open>The index of the first buffer from position \<open>i\<close> on that \<open>keep\<close> keeps alive.\<close>

fun find_keep_alive :: "keep_alive \<Rightarrow> nat \<Rightarrow> (bytes \<times> keep_alive) list \<Rightarrow> nat option" where
  "find_keep_alive keep i [] = None"
| "find_keep_alive keep i ((_, k) # rest) =
     (if k = keep then Some i else find_keep_alive keep (Suc i) rest)"

definition withdraw_first :: "stream \<Rightarrow> nat" where
  "withdraw_first s =
     (let started = current_buffer_offset s > 0 \<or> (current_buffer_index s = 0 \<and> front_trimmed s > 0)
      in current_buffer_index s + (if started then 1 else 0))"

definition withdraw :: "keep_alive \<Rightarrow> stream \<Rightarrow> bool \<times> stream" where
  "withdraw keep s =
     (case find_keep_alive keep (withdraw_first s) (drop (withdraw_first s) (user_buffers s)) of
        None \<Rightarrow> (False, s)
      | Some i \<Rightarrow>
          let s = s\<lparr>unsent_size := sz_sub (unsent_size s) (length (fst (user_buffers s ! i))),
                    user_buffers := take i (user_buffers s) @ drop (Suc i) (user_buffers s)\<rparr>
          in (True, check_watermark_if_enabled s))"

definition revert_stream :: "stream \<Rightarrow> stream" where
  "revert_stream s =
     (let s = s\<lparr>unsent_size := sz_add (unsent_size s) (unacked_size s), unacked_size := 0,
                current_buffer_index := 0, current_buffer_offset := 0\<rparr>
      in if had_notify s then s\<lparr>notify := True\<rparr> else s)"

text \<open>
  The loop of \<open>pending\<close>: the buffers from \<open>i\<close> on until they hold \<open>bytes\<close> bytes, and the index
  reached. A vector entry is the list of bytes it points at.
\<close>

function pending_loop :: "(bytes \<times> keep_alive) list \<Rightarrow> nat \<Rightarrow> nat \<Rightarrow> nat \<Rightarrow> nat \<Rightarrow> nat \<Rightarrow> bytes list \<times> nat" where
  "pending_loop bufs idx offset bytes i tot =
     (if i < length bufs \<and> tot < bytes
      then let temp = drop (if i = idx then offset else 0) (fst (bufs ! i));
               (nbufs, j) = pending_loop bufs idx offset bytes (Suc i) (sz_add tot (length temp))
           in (temp # nbufs, j)
      else ([], i))"
  by pat_completeness auto
termination
  by (relation "measure (\<lambda>(bufs, idx, offset, bytes, i, tot). length bufs - i)") auto

declare pending_loop.simps [simp del]

definition pending :: "nat \<Rightarrow> stream \<Rightarrow> bytes list \<times> bool" where
  "pending bytes s =
     (if user_buffers s = [] \<or> unsent_size s = 0
      then (if notify s then [[]] else [], False)
      else let (nbufs, i) = pending_loop (user_buffers s) (current_buffer_index s)
                              (current_buffer_offset s) bytes (current_buffer_index s) 0
           in (nbufs, i \<noteq> length (user_buffers s)))"

end
