(* ===== verification/Stream_Correct.thy ===== *)
theory Stream_Correct
  imports Stream_Model
begin

text \<open>
  Correctness of the stream of Stream_Model. The buffer cursor is related to a position in the
  concatenated buffers, the loops of \<open>acknowledge\<close>, \<open>wrote\<close> and \<open>pending\<close> are specified on it, and each
  operation is shown to refine a byte queue with a send point. \<open>stream_step\<close> then collects the
  operations, and the contract \<open>op_system\<close> of Quic_Prelude is interpreted on it.
\<close>


section \<open>Frame facts\<close>

lemma emit_fields [simp]:
  "user_buffers (emit c s) = user_buffers s" "unsent_size (emit c s) = unsent_size s"
  "unacked_size (emit c s) = unacked_size s" "acked_bytes (emit c s) = acked_bytes s"
  "current_buffer_index (emit c s) = current_buffer_index s"
  "current_buffer_offset (emit c s) = current_buffer_offset s"
  "front_trimmed (emit c s) = front_trimmed s" "is_closing (emit c s) = is_closing s"
  "send_fin (emit c s) = send_fin s" "sent_fin (emit c s) = sent_fin s"
  "received_fin (emit c s) = received_fin s" "ready (emit c s) = ready s"
  "paused (emit c s) = paused s" "paused_offset (emit c s) = paused_offset s"
  "notify (emit c s) = notify s" "had_notify (emit c s) = had_notify s"
  "stream_id (emit c s) = stream_id s" "conn (emit c s) = conn s"
  "watermarking (emit c s) = watermarking s" "watermark_alarm (emit c s) = watermark_alarm s"
  "watermark_on_alarm (emit c s) = watermark_on_alarm s"
  "watermark_on_clear (emit c s) = watermark_on_clear s"
  "data_callback (emit c s) = data_callback s" "close_callback (emit c s) = close_callback s"
  "fin_callback (emit c s) = fin_callback s" "out (emit c s) = out s @ [c]"
  by (simp_all add: emit_def)

lemma check_watermark_fields [simp]:
  "user_buffers (check_watermark s) = user_buffers s" "unsent_size (check_watermark s) = unsent_size s"
  "unacked_size (check_watermark s) = unacked_size s" "acked_bytes (check_watermark s) = acked_bytes s"
  "current_buffer_index (check_watermark s) = current_buffer_index s"
  "current_buffer_offset (check_watermark s) = current_buffer_offset s"
  "front_trimmed (check_watermark s) = front_trimmed s" "is_closing (check_watermark s) = is_closing s"
  "send_fin (check_watermark s) = send_fin s" "sent_fin (check_watermark s) = sent_fin s"
  "received_fin (check_watermark s) = received_fin s" "ready (check_watermark s) = ready s"
  "paused (check_watermark s) = paused s" "paused_offset (check_watermark s) = paused_offset s"
  "notify (check_watermark s) = notify s" "had_notify (check_watermark s) = had_notify s"
  "stream_id (check_watermark s) = stream_id s" "conn (check_watermark s) = conn s"
  "watermarking (check_watermark s) = watermarking s"
  by (simp_all add: check_watermark_def Let_def split: option.split)

lemma check_watermark_if_enabled_eq: "check_watermark_if_enabled s = check_watermark s"
  by (simp add: check_watermark_if_enabled_def check_watermark_def split: option.split)

section \<open>The cursor\<close>

abbreviation buf_cat :: "(bytes \<times> keep_alive) list \<Rightarrow> bytes" where
  "buf_cat bs \<equiv> concat (map fst bs)"

text \<open>The cursor is inside the buffer it points at, or at the end; no buffer is empty.\<close>

definition cursor_ok :: "(bytes \<times> keep_alive) list \<Rightarrow> nat \<Rightarrow> nat \<Rightarrow> bool" where
  "cursor_ok bs i off \<longleftrightarrow>
     (\<forall>b \<in> set bs. fst b \<noteq> []) \<and> i \<le> length bs \<and>
     (if i < length bs then off < length (fst (bs ! i)) else off = 0)"

text \<open>How many of the held bytes are before the cursor.\<close>

definition cursor_pos :: "(bytes \<times> keep_alive) list \<Rightarrow> nat \<Rightarrow> nat \<Rightarrow> nat" where
  "cursor_pos bs i off = length (buf_cat (take i bs)) + off"

lemma cursor_ok_Nil [simp]: "cursor_ok [] i off \<longleftrightarrow> i = 0 \<and> off = 0"
  by (simp add: cursor_ok_def)

lemma cursor_pos_0 [simp]: "cursor_pos bs 0 off = off"
  by (simp add: cursor_pos_def)

lemma cursor_pos_Suc [simp]: "cursor_pos (b # bs) (Suc i) off = length (fst b) + cursor_pos bs i off"
  by (simp add: cursor_pos_def)

lemma cursor_ok_Suc [simp]: "cursor_ok (b # bs) (Suc i) off \<longleftrightarrow> fst b \<noteq> [] \<and> cursor_ok bs i off"
  by (auto simp: cursor_ok_def)

lemma cursor_ok_0 [simp]:
  "cursor_ok (b # bs) 0 off \<longleftrightarrow> (\<forall>c \<in> set bs. fst c \<noteq> []) \<and> off < length (fst b)"
  by (auto simp: cursor_ok_def)

lemma cursor_pos_le: "cursor_ok bs i off \<Longrightarrow> cursor_pos bs i off \<le> length (buf_cat bs)"
proof (induction bs arbitrary: i)
  case (Cons b bs)
  then show ?case by (cases i) auto
qed simp

lemma cursor_ok_nonempty: "cursor_ok bs i off \<Longrightarrow> b \<in> set bs \<Longrightarrow> fst b \<noteq> []"
  by (simp add: cursor_ok_def)

section \<open>The loops\<close>

lemma acknowledge_loop_spec:
  "cursor_ok bs i off \<Longrightarrow> n \<le> cursor_pos bs i off \<Longrightarrow>
   \<exists>n' bs' t' i'. acknowledge_loop n bs t i = Some (n', bs', t', i') \<and> n' \<le> n \<and>
     buf_cat bs' = drop (n - n') (buf_cat bs) \<and> cursor_ok bs' i' off \<and>
     cursor_pos bs i off = cursor_pos bs' i' off + (n - n') \<and>
     (n' = 0 \<or> (\<exists>f k r. bs' = (f, k) # r \<and> n' < length f)) \<and>
     t' \<le> t \<and> (bs' = [] \<longrightarrow> t' = 0 \<or> bs = [] \<and> t' = t)"
proof (induction n bs t i rule: acknowledge_loop.induct)
  case (1 n t i)
  then show ?case by auto
next
  case (2 n f k r t i)
  show ?case
  proof (cases "n \<noteq> 0 \<and> n \<ge> length f")
    case full: True
    with "2.prems" obtain i' where i: "i = Suc i'" by (cases i) auto
    with "2.prems" have ok: "cursor_ok r i' off" "n - length f \<le> cursor_pos r i' off" by auto
    from full i "2.IH" [OF full] ok obtain n' bs' t' j where
      loop: "acknowledge_loop (n - length f) r 0 i' = Some (n', bs', t', j)" and
      res: "n' \<le> n - length f" "buf_cat bs' = drop (n - length f - n') (buf_cat r)" "cursor_ok bs' j off"
        "cursor_pos r i' off = cursor_pos bs' j off + (n - length f - n')"
        "n' = 0 \<or> (\<exists>f k r. bs' = (f, k) # r \<and> n' < length f)" "t' \<le> 0"
      by fastforce
    define m where "m = n - length f - n'"
    have m: "n - n' = length f + m" using res(1) full unfolding m_def by linarith
    have "buf_cat bs' = drop (n - n') (buf_cat ((f, k) # r))"
      and "cursor_pos ((f, k) # r) i off = cursor_pos bs' j off + (n - n')"
      unfolding m i using res(2,4) unfolding m_def [symmetric] by simp_all
    moreover have "n' \<le> n" "bs' = [] \<longrightarrow> t' = 0" "t' \<le> t" using res by auto
    moreover have "acknowledge_loop n ((f, k) # r) t i = Some (n', bs', t', j)"
      using full i loop by simp
    ultimately show ?thesis using res(3,5) by blast
  next
    case False
    with "2.prems" show ?thesis by auto
  qed
qed

lemma acknowledge_trim_spec:
  assumes "cursor_ok bs i off" and "n \<le> cursor_pos bs i off"
    and "n = 0 \<or> (\<exists>f k r. bs = (f, k) # r \<and> n < length f)" and "t + n < SIZE_MOD"
  shows "\<exists>bs' i' off'. acknowledge_trim (n, bs, t, i) off = Some (bs', t + n, i', off') \<and>
     buf_cat bs' = drop n (buf_cat bs) \<and> cursor_ok bs' i' off' \<and>
     cursor_pos bs i off = cursor_pos bs' i' off' + n \<and> (bs' = [] \<longleftrightarrow> bs = [])"
proof (cases "n = 0")
  case True
  with assms show ?thesis by simp
next
  case False
  with assms(3) obtain f k r where bs: "bs = (f, k) # r" and n: "n < length f" by auto
  show ?thesis
    using assms False bs n by (cases i) (auto simp: size_simps)
qed

lemma wrote_loop_spec:
  "cursor_ok bs i off \<Longrightarrow> cursor_pos bs i off + n \<le> length (buf_cat bs) \<Longrightarrow> length (buf_cat bs) < SIZE_MOD \<Longrightarrow>
   wrote_loop bs n i off = (i', off') \<Longrightarrow>
   cursor_ok bs i' off' \<and> cursor_pos bs i' off' = cursor_pos bs i off + n"
proof (induction bs n i off rule: wrote_loop.induct)
  case (1 bs n i off)
  show ?case
  proof (cases "i < length bs \<and> n > 0")
    case more: True
    with "1.prems" have off: "off < length (fst (bs ! i))" by (simp add: cursor_ok_def)
    have pos: "cursor_pos bs (Suc i) 0 = cursor_pos bs i off + (length (fst (bs ! i)) - off)"
      using more off by (simp add: cursor_pos_def take_Suc_conv_app_nth)
    have rem: "sz_sub (length (fst (bs ! i))) off = length (fst (bs ! i)) - off"
      using off by (simp add: size_simps)
    show ?thesis
    proof (cases "n < length (fst (bs ! i)) - off")
      case True
      have "sz_add off n = off + n"
        using "1.prems" by (intro sz_add_exact) (simp add: cursor_pos_def)
      then show ?thesis
        using more True rem "1.prems" by (auto simp: wrote_loop.simps [of bs n i] cursor_ok_def cursor_pos_def)
    next
      case False
      have next_ok: "cursor_ok bs (Suc i) 0"
        using "1.prems"(1) more by (auto simp: cursor_ok_def)
      have "wrote_loop bs (n - (length (fst (bs ! i)) - off)) (i + 1) 0 = (i', off')"
        using more False rem "1.prems"(4) by (simp add: wrote_loop.simps [of bs n i])
      then show ?thesis
        using "1.IH" [OF more refl, unfolded rem, OF False] next_ok pos "1.prems" False by simp
    qed
  next
    case False
    with "1.prems" show ?thesis
      by (auto simp: wrote_loop.simps [of bs n i] cursor_ok_def cursor_pos_def)
  qed
qed

lemma pending_loop_tail:
  "pending_loop bs idx off n i tot = (nb, j) \<Longrightarrow> idx < i \<Longrightarrow> i \<le> length bs \<Longrightarrow>
   tot + length (buf_cat (drop i bs)) < SIZE_MOD \<Longrightarrow>
   j \<le> length bs \<and> concat nb @ buf_cat (drop j bs) = buf_cat (drop i bs) \<and>
   (j = length bs \<or> n \<le> tot + length (concat nb))"
proof (induction bs idx off n i tot arbitrary: nb j rule: pending_loop.induct)
  case (1 bs idx off n i tot)
  show ?case
  proof (cases "i < length bs \<and> tot < n")
    case more: True
    obtain nb' where nb: "nb = fst (bs ! i) # nb'"
      and loop: "pending_loop bs idx off n (Suc i) (sz_add tot (length (fst (bs ! i)))) = (nb', j)"
      using more "1.prems"(1,2) by (auto simp: pending_loop.simps [of bs idx off n i] Let_def split: prod.splits)
    have split: "buf_cat (drop i bs) = fst (bs ! i) @ buf_cat (drop (Suc i) bs)"
      using more by (simp add: drop_nth_Cons)
    have tot: "sz_add tot (length (fst (bs ! i))) = tot + length (fst (bs ! i))"
      using "1.prems"(4) split by (intro sz_add_exact) simp
    have "j \<le> length bs \<and> concat nb' @ buf_cat (drop j bs) = buf_cat (drop (Suc i) bs) \<and>
        (j = length bs \<or> n \<le> sz_add tot (length (fst (bs ! i))) + length (concat nb'))"
      using "1.IH" [OF more refl] loop "1.prems" more split tot by simp
    then show ?thesis using nb split tot by auto
  next
    case False
    with "1.prems" show ?thesis by (auto simp: pending_loop.simps [of bs idx off n i])
  qed
qed

lemma find_keep_alive_Some:
  "find_keep_alive k i xs = Some j \<Longrightarrow>
   i \<le> j \<and> j < i + length xs \<and> snd (xs ! (j - i)) = k \<and> (\<forall>m < j - i. snd (xs ! m) \<noteq> k)"
proof (induction k i xs rule: find_keep_alive.induct)
  case (2 k i b k' rest)
  show ?case
  proof (cases "k' = k")
    case True
    with "2.prems" show ?thesis by simp
  next
    case False
    with "2.prems" "2.IH" have IH: "Suc i \<le> j" "j < Suc i + length rest" "snd (rest ! (j - Suc i)) = k"
      "\<forall>m < j - Suc i. snd (rest ! m) \<noteq> k" by auto
    have "snd (((b, k') # rest) ! m) \<noteq> k" if "m < j - i" for m
      using that False IH by (cases m) auto
    then show ?thesis using IH by (auto simp: nth_Cons')
  qed
qed simp

lemma find_keep_alive_None: "find_keep_alive k i xs = None \<Longrightarrow> x \<in> set xs \<Longrightarrow> snd x \<noteq> k"
  by (induction k i xs rule: find_keep_alive.induct) (auto split: if_splits)

lemma cursor_remove:
  assumes "cursor_ok bs i off" and "j < length bs" and "i < j \<or> i = j \<and> off = 0"
  shows "cursor_ok (take j bs @ drop (Suc j) bs) i off \<and>
     cursor_pos (take j bs @ drop (Suc j) bs) i off = cursor_pos bs i off"
proof -
  have "set (take j bs @ drop (Suc j) bs) \<subseteq> set bs"
    by (auto dest: in_set_takeD in_set_dropD)
  then show ?thesis
    using assms by (auto simp: cursor_ok_def cursor_pos_def nth_append min_def)
qed

lemma buf_cat_remove:
  "j < length bs \<Longrightarrow> buf_cat bs = buf_cat (take j bs) @ fst (bs ! j) @ buf_cat (drop (Suc j) bs)"
  by (metis concat.simps(2) concat_append id_take_nth_drop list.simps(9) map_append)

lemma cursor_pos_before:
  "cursor_ok bs i off \<Longrightarrow> j < length bs \<Longrightarrow> i < j \<or> i = j \<and> off = 0 \<Longrightarrow>
   cursor_pos bs i off \<le> length (buf_cat (take j bs))"
proof (induction bs arbitrary: i j)
  case (Cons b bs)
  then show ?case by (cases i; cases j) auto
qed simp

lemma buf_cat_empty: "(\<forall>b \<in> set bs. fst b \<noteq> []) \<Longrightarrow> buf_cat bs = [] \<longleftrightarrow> bs = []"
  by (cases bs) auto

section \<open>Invariant and abstract view\<close>

text \<open>All the bytes the buffers hold; those before the cursor (in flight); those after it.\<close>

definition buf_bytes :: "stream \<Rightarrow> bytes" where
  "buf_bytes s = buf_cat (user_buffers s)"

definition inflight :: "stream \<Rightarrow> bytes" where
  "inflight s = take (unacked_size s) (buf_bytes s)"

definition queued :: "stream \<Rightarrow> bytes" where
  "queued s = drop (unacked_size s) (buf_bytes s)"

text \<open>
  The two byte counts are the bytes on either side of the cursor, only a front buffer can have been
  trimmed, and the bytes the stream has carried so far are countable in 64 bits (QUIC bounds a
  stream to \<open>2 ^ 62\<close> bytes).
\<close>

definition buffer_inv :: "stream \<Rightarrow> bool" where
  "buffer_inv s \<longleftrightarrow>
     cursor_ok (user_buffers s) (current_buffer_index s) (current_buffer_offset s) \<and>
     unacked_size s = cursor_pos (user_buffers s) (current_buffer_index s) (current_buffer_offset s) \<and>
     unacked_size s + unsent_size s = length (buf_bytes s) \<and>
     (user_buffers s = [] \<longrightarrow> front_trimmed s = 0) \<and>
     front_trimmed s \<le> acked_bytes s \<and>
     acked_bytes s + length (buf_bytes s) < SIZE_MOD"

text \<open>Credit is withheld only while the stream is paused.\<close>

definition pause_inv :: "stream \<Rightarrow> bool" where
  "pause_inv s \<longleftrightarrow> (\<not> paused s \<longrightarrow> paused_offset s = 0)"

text \<open>Watermark hysteresis: the alarm state agrees with the unsent bytes.\<close>

definition thresholds_ok :: "stream \<Rightarrow> bool" where
  "thresholds_ok s \<longleftrightarrow> (case watermarking s of None \<Rightarrow> True | Some (alarm, clear) \<Rightarrow> clear < alarm)"

definition watermark_inv :: "stream \<Rightarrow> bool" where
  "watermark_inv s \<longleftrightarrow>
     thresholds_ok s \<and>
     (case watermarking s of
        None \<Rightarrow> True
      | Some (alarm, clear) \<Rightarrow>
          if watermark_alarm s then clear < unsent_size s else unsent_size s < alarm)"

definition stream_inv :: "stream \<Rightarrow> bool" where
  "stream_inv s \<longleftrightarrow> buffer_inv s \<and> pause_inv s \<and> watermark_inv s"

declare buffer_inv_def [inv_defs] pause_inv_def [inv_defs] watermark_inv_def [inv_defs]
  thresholds_ok_def [inv_defs] stream_inv_def [inv_defs]

lemma check_watermark_inv: "thresholds_ok s \<Longrightarrow> watermark_inv (check_watermark s)"
  by (auto simp: watermark_inv_def thresholds_ok_def check_watermark_def Let_def split: option.splits)

lemma watermark_thresholds: "watermark_inv s \<Longrightarrow> thresholds_ok s"
  by (simp add: watermark_inv_def)

lemma inflight_queued: "inflight s @ queued s = buf_bytes s"
  by (simp add: inflight_def queued_def)

lemma length_queued: "buffer_inv s \<Longrightarrow> length (queued s) = unsent_size s"
  by (auto simp: buffer_inv_def queued_def)

lemma length_inflight: "buffer_inv s \<Longrightarrow> length (inflight s) = unacked_size s"
  by (auto simp: buffer_inv_def inflight_def)

text \<open>The invariant reads only these fields, so an operation on the others keeps it.\<close>

lemma buffer_inv_cong:
  "user_buffers s' = user_buffers s \<Longrightarrow> unsent_size s' = unsent_size s \<Longrightarrow>
   unacked_size s' = unacked_size s \<Longrightarrow> acked_bytes s' = acked_bytes s \<Longrightarrow>
   current_buffer_index s' = current_buffer_index s \<Longrightarrow>
   current_buffer_offset s' = current_buffer_offset s \<Longrightarrow> front_trimmed s' = front_trimmed s \<Longrightarrow>
   buffer_inv s' = buffer_inv s"
  by (simp add: buffer_inv_def buf_bytes_def)

lemma watermark_inv_cong:
  "watermarking s' = watermarking s \<Longrightarrow> watermark_alarm s' = watermark_alarm s \<Longrightarrow>
   unsent_size s' = unsent_size s \<Longrightarrow> watermark_inv s' = watermark_inv s"
  by (simp add: watermark_inv_def thresholds_ok_def split: option.split)

lemma view_cong:
  "user_buffers s' = user_buffers s \<Longrightarrow> unacked_size s' = unacked_size s \<Longrightarrow>
   inflight s' = inflight s \<and> queued s' = queued s"
  by (simp add: inflight_def queued_def buf_bytes_def)

section \<open>The send buffer refines a byte queue with a send point\<close>

lemma append_buffer_spec:
  assumes inv: "buffer_inv s" and data: "data \<noteq> []" and conn: "conn s"
    and room: "acked_bytes s + length (buf_bytes s) + length data < SIZE_MOD"
  shows "\<exists>s'. append_buffer data keep s = Some s' \<and> buffer_inv s' \<and>
     inflight s' = inflight s \<and> queued s' = queued s @ data \<and> acked_bytes s' = acked_bytes s \<and>
     (thresholds_ok s \<longrightarrow> watermark_inv s') \<and> paused s' = paused s \<and> paused_offset s' = paused_offset s"
proof -
  let ?s = "s\<lparr>unsent_size := unsent_size s + length data, user_buffers := user_buffers s @ [(data, keep)]\<rparr>"
  let ?s' = "if ready s then emit PacketIoReady (check_watermark ?s) else check_watermark ?s"
  have "sz_add (unsent_size s) (length data) = unsent_size s + length data"
    using inv room by (intro sz_add_exact) (simp add: buffer_inv_def)
  then have app: "append_buffer data keep s = Some ?s'"
    using conn by (simp add: append_buffer_def Let_def check_watermark_if_enabled_eq)
  have cur: "cursor_ok (user_buffers s @ [(data, keep)]) (current_buffer_index s) (current_buffer_offset s)"
    "cursor_pos (user_buffers s @ [(data, keep)]) (current_buffer_index s) (current_buffer_offset s)
       = unacked_size s"
    using inv data by (auto simp: buffer_inv_def cursor_ok_def cursor_pos_def nth_append)
  have le: "unacked_size s \<le> length (buf_bytes s)"
    using inv by (simp add: buffer_inv_def)
  have ft: "front_trimmed s \<le> acked_bytes s" and sum: "unacked_size s + unsent_size s = length (buf_bytes s)"
    using inv by (auto simp: buffer_inv_def)
  have bi: "buffer_inv ?s"
    using cur ft sum room by (simp add: buffer_inv_def buf_bytes_def)
  have wm: "watermark_inv (check_watermark ?s)" if "thresholds_ok s"
    by (rule check_watermark_inv) (use that in \<open>simp add: thresholds_ok_def\<close>)
  have "buffer_inv ?s'"
    using bi by (subst buffer_inv_cong [of _ ?s]) simp_all
  moreover have "inflight ?s' = inflight s" "queued ?s' = queued s @ data"
    using le by (simp_all add: inflight_def queued_def buf_bytes_def)
  moreover have "watermark_inv ?s'" if "thresholds_ok s"
    using wm [OF that] by (subst watermark_inv_cong [of _ "check_watermark ?s"]) simp_all
  ultimately show ?thesis using app by simp
qed

lemma wrote_spec:
  assumes inv: "buffer_inv s" and n: "n \<le> unsent_size s"
  shows "buffer_inv (wrote n s)" and "inflight (wrote n s) = inflight s @ take n (queued s)"
    and "queued (wrote n s) = drop n (queued s)" and "acked_bytes (wrote n s) = acked_bytes s"
    and "thresholds_ok s \<Longrightarrow> watermark_inv (wrote n s)"
    and "paused (wrote n s) = paused s" and "paused_offset (wrote n s) = paused_offset s"
proof -
  let ?s = "s\<lparr>unacked_size := unacked_size s + n, unsent_size := unsent_size s - n\<rparr>"
  let ?t = "if notify s then ?s\<lparr>notify := False\<rparr> else ?s"
  obtain i off where loop:
    "wrote_loop (user_buffers s) n (current_buffer_index s) (current_buffer_offset s) = (i, off)"
    by fastforce
  from inv have sum: "unacked_size s + unsent_size s = length (buf_bytes s)"
    and acked: "acked_bytes s + length (buf_bytes s) < SIZE_MOD"
    and pos: "unacked_size s = cursor_pos (user_buffers s) (current_buffer_index s) (current_buffer_offset s)"
    and ok: "cursor_ok (user_buffers s) (current_buffer_index s) (current_buffer_offset s)"
    and ft: "user_buffers s = [] \<longrightarrow> front_trimmed s = 0" "front_trimmed s \<le> acked_bytes s"
    by (auto simp: buffer_inv_def)
  have "sz_add (unacked_size s) n = unacked_size s + n"
    using sum acked n by (intro sz_add_exact) linarith
  moreover have "sz_sub (unsent_size s) n = unsent_size s - n"
    using n by (rule sz_sub_exact)
  ultimately have eq: "wrote n s
      = (check_watermark ?t)\<lparr>current_buffer_index := i, current_buffer_offset := off\<rparr>"
    using loop by (simp add: wrote_def Let_def check_watermark_if_enabled_eq)
  have cur: "cursor_ok (user_buffers s) i off" "cursor_pos (user_buffers s) i off = unacked_size s + n"
    using wrote_loop_spec [OF ok _ _ loop] pos n sum acked by (simp_all add: buf_bytes_def)
  show "buffer_inv (wrote n s)"
    using cur ft sum acked n by (simp add: eq buffer_inv_def buf_bytes_def)
  show "inflight (wrote n s) = inflight s @ take n (queued s)"
    by (simp add: eq inflight_def queued_def buf_bytes_def take_add)
  show "queued (wrote n s) = drop n (queued s)"
    by (simp add: eq queued_def buf_bytes_def add.commute)
  show "acked_bytes (wrote n s) = acked_bytes s" "paused (wrote n s) = paused s"
    "paused_offset (wrote n s) = paused_offset s"
    by (simp_all add: eq)
  assume "thresholds_ok s"
  then have "watermark_inv (check_watermark ?t)"
    by (intro check_watermark_inv) (simp add: thresholds_ok_def)
  then show "watermark_inv (wrote n s)"
    by (subst watermark_inv_cong [of _ "check_watermark ?t"]) (simp_all add: eq)
qed

lemma acknowledge_spec:
  assumes inv: "buffer_inv s" and n: "n \<le> unacked_size s"
  shows "\<exists>s'. acknowledge n s = Some s' \<and> buffer_inv s' \<and>
     inflight s' = drop n (inflight s) \<and> queued s' = queued s \<and> acked_bytes s' = acked_bytes s + n \<and>
     unsent_size s' = unsent_size s \<and> watermark_inv s' = watermark_inv s \<and>
     paused s' = paused s \<and> paused_offset s' = paused_offset s"
proof -
  let ?bs = "user_buffers s" and ?i = "current_buffer_index s" and ?off = "current_buffer_offset s"
  from inv have sum: "unacked_size s + unsent_size s = length (buf_cat ?bs)"
    and acked: "acked_bytes s + length (buf_cat ?bs) < SIZE_MOD"
    and pos: "unacked_size s = cursor_pos ?bs ?i ?off" and ok: "cursor_ok ?bs ?i ?off"
    and ft: "?bs = [] \<longrightarrow> front_trimmed s = 0" "front_trimmed s \<le> acked_bytes s"
    by (auto simp: buffer_inv_def buf_bytes_def)
  obtain n1 bs1 t1 i1 where loop: "acknowledge_loop n ?bs (front_trimmed s) ?i = Some (n1, bs1, t1, i1)"
    and n1: "n1 \<le> n" "buf_cat bs1 = drop (n - n1) (buf_cat ?bs)" "cursor_ok bs1 i1 ?off"
      "cursor_pos ?bs ?i ?off = cursor_pos bs1 i1 ?off + (n - n1)"
      "n1 = 0 \<or> (\<exists>f k r. bs1 = (f, k) # r \<and> n1 < length f)" "t1 \<le> front_trimmed s"
      "bs1 = [] \<longrightarrow> t1 = 0 \<or> ?bs = [] \<and> t1 = front_trimmed s"
    using acknowledge_loop_spec [OF ok] n pos by metis
  have "n1 \<le> cursor_pos bs1 i1 ?off" using n n1(1,4) pos by simp
  moreover have "t1 + n1 < SIZE_MOD" using n1(1,6) n ft(2) acked sum by simp
  ultimately obtain bs2 i2 off2 where
    trim: "acknowledge_trim (n1, bs1, t1, i1) ?off = Some (bs2, t1 + n1, i2, off2)"
    and bs2: "buf_cat bs2 = drop n1 (buf_cat bs1)" "cursor_ok bs2 i2 off2"
      "cursor_pos bs1 i1 ?off = cursor_pos bs2 i2 off2 + n1" "bs2 = [] \<longleftrightarrow> bs1 = []"
    using acknowledge_trim_spec [OF n1(3) _ n1(5)] by metis
  let ?s' = "s\<lparr>unacked_size := unacked_size s - n, acked_bytes := acked_bytes s + n,
     user_buffers := bs2, front_trimmed := t1 + n1, current_buffer_index := i2, current_buffer_offset := off2\<rparr>"
  have "sz_add (acked_bytes s) n = acked_bytes s + n"
    using acked sum n by (intro sz_add_exact) linarith
  then have ack: "acknowledge n s = Some ?s'"
    using n loop trim by (simp add: acknowledge_def Let_def)
  have cat: "buf_cat bs2 = drop n (buf_cat ?bs)"
    using bs2(1) n1(1,2) by simp
  have "bs2 = [] \<longrightarrow> t1 + n1 = 0"
    using bs2(4) n1(5,7) ft(1) by auto
  then have "buffer_inv ?s'"
    using bs2(2,3) n1(1,4,6) pos ft(2) sum acked n cat by (simp add: buffer_inv_def buf_bytes_def)
  moreover have "inflight ?s' = drop n (inflight s)" "queued ?s' = queued s"
    using n cat by (simp_all add: inflight_def queued_def buf_bytes_def drop_take)
  moreover have "watermark_inv ?s' = watermark_inv s"
    by (rule watermark_inv_cong) simp_all
  ultimately show ?thesis using ack by simp
qed

text \<open>Buffers a withdrawal may take: those none of whose bytes have been sent.\<close>

lemma withdraw_first_cursor:
  assumes "withdraw_first s \<le> j"
  shows "current_buffer_index s < j \<or> current_buffer_index s = j \<and> current_buffer_offset s = 0"
  using assms by (auto simp: withdraw_first_def Let_def split: if_splits)

lemma withdraw_spec:
  assumes inv: "buffer_inv s" and w: "withdraw keep s = (True, s')"
  shows "buffer_inv s'"
    and "inflight s' = inflight s"
    and "\<exists>xs data ys. queued s = xs @ data @ ys \<and> queued s' = xs @ ys \<and>
           (data, keep) \<in> set (drop (withdraw_first s) (user_buffers s))"
    and "acked_bytes s' = acked_bytes s"
    and "thresholds_ok s \<Longrightarrow> watermark_inv s'"
    and "paused s' = paused s" and "paused_offset s' = paused_offset s"
proof -
  let ?bs = "user_buffers s" and ?i = "current_buffer_index s" and ?off = "current_buffer_offset s"
  obtain j where find: "find_keep_alive keep (withdraw_first s) (drop (withdraw_first s) ?bs) = Some j"
    using w by (auto simp: withdraw_def Let_def split: option.splits)
  note fk = find_keep_alive_Some [OF find]
  have j: "j < length ?bs" and first: "withdraw_first s \<le> j"
    and k: "snd (?bs ! j) = keep" and mem: "?bs ! j \<in> set (drop (withdraw_first s) ?bs)"
  proof -
    show "withdraw_first s \<le> j" using fk by blast
    show jl: "j < length ?bs"
    proof (rule ccontr)
      assume "\<not> j < length ?bs"
      then have "j - withdraw_first s \<ge> length (drop (withdraw_first s) ?bs)" by simp
      with fk show False by (cases "withdraw_first s \<le> length ?bs") auto
    qed
    have "drop (withdraw_first s) ?bs ! (j - withdraw_first s) = ?bs ! j"
      using fk jl by (subst nth_drop) auto
    with fk jl show "snd (?bs ! j) = keep" "?bs ! j \<in> set (drop (withdraw_first s) ?bs)"
      by (metis, metis \<open>withdraw_first s \<le> j\<close> diff_less_mono length_drop nth_mem)
  qed
  from inv have sum: "unacked_size s + unsent_size s = length (buf_cat ?bs)"
    and acked: "acked_bytes s + length (buf_cat ?bs) < SIZE_MOD"
    and pos: "unacked_size s = cursor_pos ?bs ?i ?off" and ok: "cursor_ok ?bs ?i ?off"
    and ft: "front_trimmed s \<le> acked_bytes s"
    by (auto simp: buffer_inv_def buf_bytes_def)
  note cur = withdraw_first_cursor [OF first]
  note split = buf_cat_remove [OF j] and before = cursor_pos_before [OF ok j cur]
    and rem = cursor_remove [OF ok j cur]
  have size: "length (fst (?bs ! j)) \<le> unsent_size s"
    using sum before pos split by simp
  let ?t = "s\<lparr>unsent_size := unsent_size s - length (fst (?bs ! j)),
             user_buffers := take j ?bs @ drop (Suc j) ?bs\<rparr>"
  have s': "s' = check_watermark ?t"
    using w find size by (simp add: withdraw_def Let_def check_watermark_if_enabled_eq size_simps)
  have "take j ?bs @ drop (Suc j) ?bs = [] \<longrightarrow> front_trimmed s = 0"
    using j first by (auto simp: withdraw_first_def Let_def split: if_splits)
  then show "buffer_inv s'"
    using rem pos sum acked ft split size unfolding s'
    by (simp add: buffer_inv_def buf_bytes_def)
  have le: "unacked_size s \<le> length (buf_cat (take j ?bs))"
    using before pos by simp
  show "inflight s' = inflight s"
    using le by (simp add: s' inflight_def buf_bytes_def split)
  have "queued s = drop (unacked_size s) (buf_cat (take j ?bs)) @ fst (?bs ! j) @ buf_cat (drop (Suc j) ?bs)"
    using le by (simp add: queued_def buf_bytes_def split)
  moreover have "queued s' = drop (unacked_size s) (buf_cat (take j ?bs)) @ buf_cat (drop (Suc j) ?bs)"
    using le by (simp add: s' queued_def buf_bytes_def)
  moreover have "(fst (?bs ! j), keep) \<in> set (drop (withdraw_first s) ?bs)"
    using k mem by (metis prod.collapse)
  ultimately show "\<exists>xs data ys. queued s = xs @ data @ ys \<and> queued s' = xs @ ys \<and>
           (data, keep) \<in> set (drop (withdraw_first s) ?bs)"
    by blast
  show "acked_bytes s' = acked_bytes s" "paused s' = paused s" "paused_offset s' = paused_offset s"
    by (simp_all add: s')
  assume "thresholds_ok s"
  then show "watermark_inv s'"
    unfolding s' by (intro check_watermark_inv) (simp add: thresholds_ok_def)
qed

lemma withdraw_False:
  assumes "withdraw keep s = (False, s')"
  shows "s' = s \<and> (\<forall>b \<in> set (drop (withdraw_first s) (user_buffers s)). snd b \<noteq> keep)"
  using assms by (auto simp: withdraw_def Let_def dest: find_keep_alive_None split: option.splits)

lemma revert_spec:
  assumes inv: "buffer_inv s"
  shows "buffer_inv (revert_stream s)" and "inflight (revert_stream s) = []"
    and "queued (revert_stream s) = inflight s @ queued s" and "acked_bytes (revert_stream s) = acked_bytes s"
proof -
  have sum: "sz_add (unsent_size s) (unacked_size s) = unsent_size s + unacked_size s"
    using inv by (intro sz_add_exact) (simp add: buffer_inv_def)
  have "cursor_ok (user_buffers s) 0 0"
    using inv by (auto simp: buffer_inv_def cursor_ok_def)
  then show "buffer_inv (revert_stream s)"
    using inv sum by (simp add: buffer_inv_def revert_stream_def Let_def buf_bytes_def)
  show "inflight (revert_stream s) = []" "queued (revert_stream s) = inflight s @ queued s"
    "acked_bytes (revert_stream s) = acked_bytes s"
    by (simp_all add: inflight_queued) (simp_all add: inflight_def queued_def revert_stream_def Let_def buf_bytes_def)
qed

lemma pending_spec:
  assumes inv: "buffer_inv s" and p: "pending n s = (bufs, mr)"
  shows "\<exists>rest. queued s = concat bufs @ rest \<and> (mr \<longleftrightarrow> rest \<noteq> []) \<and> min n (unsent_size s) \<le> length (concat bufs)"
proof (cases "user_buffers s = [] \<or> unsent_size s = 0")
  case True
  then have "queued s = []" "unsent_size s = 0"
    using inv length_queued [OF inv] by (auto simp: buffer_inv_def buf_bytes_def)
  then show ?thesis
    using p True by (auto simp: pending_def split: if_splits)
next
  case False
  let ?bs = "user_buffers s" and ?i = "current_buffer_index s" and ?off = "current_buffer_offset s"
  from inv have ok: "cursor_ok ?bs ?i ?off" and pos: "unacked_size s = cursor_pos ?bs ?i ?off"
    and sum: "unacked_size s + unsent_size s = length (buf_cat ?bs)" and small: "length (buf_cat ?bs) < SIZE_MOD"
    by (auto simp: buffer_inv_def buf_bytes_def)
  have ilt: "?i < length ?bs"
  proof (rule ccontr)
    assume "\<not> ?i < length ?bs"
    with ok have "cursor_pos ?bs ?i ?off = length (buf_cat ?bs)"
      by (auto simp: cursor_ok_def cursor_pos_def)
    with sum pos False show False by simp
  qed
  have off: "?off < length (fst (?bs ! ?i))" using ok ilt by (simp add: cursor_ok_def)
  have bssplit: "buf_cat ?bs = buf_cat (take ?i ?bs) @ fst (?bs ! ?i) @ buf_cat (drop (Suc ?i) ?bs)"
    using buf_cat_remove [OF ilt] .
  have q: "queued s = drop ?off (fst (?bs ! ?i)) @ buf_cat (drop (Suc ?i) ?bs)"
    using off by (simp add: queued_def buf_bytes_def pos cursor_pos_def bssplit)
  obtain j where loop: "pending_loop ?bs ?i ?off n ?i 0 = (bufs, j)" and mr: "mr = (j \<noteq> length ?bs)"
    using p False by (auto simp: pending_def split: prod.splits)
  show ?thesis
  proof (cases "n = 0")
    case True
    then have "bufs = []" "j = ?i" using loop by (auto simp: pending_loop.simps)
    then show ?thesis using mr ilt q off True by auto
  next
    case npos: False
    let ?head = "drop ?off (fst (?bs ! ?i))"
    have hd: "sz_add 0 (length ?head) = length ?head"
      using small bssplit by (simp add: sz_add_def)
    obtain nb where bufs: "bufs = ?head # nb"
      and tail: "pending_loop ?bs ?i ?off n (Suc ?i) (length ?head) = (nb, j)"
      using loop npos ilt hd by (auto simp: pending_loop.simps [of ?bs ?i ?off n ?i] Let_def split: prod.splits)
    have t: "j \<le> length ?bs" "concat nb @ buf_cat (drop j ?bs) = buf_cat (drop (Suc ?i) ?bs)"
      "j = length ?bs \<or> n \<le> length ?head + length (concat nb)"
      using pending_loop_tail [OF tail] ilt small bssplit by auto
    have qs: "queued s = concat bufs @ buf_cat (drop j ?bs)"
      using q bufs t(2) by simp
    have "buf_cat (drop j ?bs) = [] \<longleftrightarrow> j = length ?bs"
      using t(1) ok by (subst buf_cat_empty) (auto simp: cursor_ok_def dest: in_set_dropD)
    moreover have "min n (unsent_size s) \<le> length (concat bufs)"
      using t(3) bufs qs length_queued [OF inv] by auto
    ultimately show ?thesis using qs mr by blast
  qed
qed

section \<open>The stream as a whole\<close>

text \<open>
  Flow-control credit for received data, as \<open>Connection::stream_receive\<close> gives it: withheld while
  the stream is paused.
\<close>

definition stream_credit :: "nat \<Rightarrow> stream \<Rightarrow> stream" where
  "stream_credit n s =
     (if paused s then s\<lparr>paused_offset := sz_add (paused_offset s) n\<rparr>
      else emit (ExtendMaxStreamOffset (stream_id s) n) s)"

text \<open>
  Every operation that changes a stream. A throwing call leaves the stream as it was. A reversion is
  followed by the watermark check that \<open>Connection::revert_early_channels\<close> makes for it.
\<close>

datatype stream_op =
    OpSend bytes bool keep_alive
  | OpWrote nat
  | OpAck nat
  | OpWithdraw keep_alive
  | OpRevert
  | OpEnableWatermarks nat bool nat bool
  | OpDisableWatermarks
  | OpPause
  | OpResume
  | OpReceive bytes
  | OpCredit nat
  | OpOnFin
  | OpSendFin
  | OpSentFin
  | OpClose nat
  | OpClosed nat
  | OpSetReady bool
  | OpSetDataCallback bool
  | OpSetCloseCallback bool
  | OpSetFinCallback bool

fun stream_step :: "stream_op \<Rightarrow> stream \<Rightarrow> stream option" where
  "stream_step (OpSend data conn_ended keep) s = stream_send_impl data conn_ended keep s"
| "stream_step (OpWrote n) s = Some (wrote n s)"
| "stream_step (OpAck n) s = acknowledge n s"
| "stream_step (OpWithdraw keep) s = Some (snd (withdraw keep s))"
| "stream_step OpRevert s = Some (check_watermark_if_enabled (revert_stream s))"
| "stream_step (OpEnableWatermarks alarm on_alarm clear on_clear) s =
     (case enable_watermarks alarm on_alarm clear on_clear s of Inl _ \<Rightarrow> Some s | Inr s' \<Rightarrow> Some s')"
| "stream_step OpDisableWatermarks s = Some (disable_watermarks s)"
| "stream_step OpPause s = stream_pause s"
| "stream_step OpResume s = Some (stream_resume s)"
| "stream_step (OpReceive data) s = Some (stream_receive data s)"
| "stream_step (OpCredit n) s = Some (stream_credit n s)"
| "stream_step OpOnFin s = Some (on_fin s)"
| "stream_step OpSendFin s = Some (stream_send_fin s)"
| "stream_step OpSentFin s = Some (s\<lparr>sent_fin := True\<rparr>)"
| "stream_step (OpClose code) s = (case stream_close code s of Inl _ \<Rightarrow> Some s | Inr s' \<Rightarrow> Some s')"
| "stream_step (OpClosed code) s = Some (stream_closed code s)"
| "stream_step (OpSetReady r) s = Some (set_ready r s)"
| "stream_step (OpSetDataCallback cb) s = Some (set_data_callback cb s)"
| "stream_step (OpSetCloseCallback cb) s = Some (set_close_callback cb s)"
| "stream_step (OpSetFinCallback cb) s = Some (set_fin_callback cb s)"

text \<open>
  What the caller owes: no more is reported sent or acknowledged than was queued or in flight, and
  the stream never carries \<open>2 ^ 64\<close> bytes.
\<close>

fun stream_op_ok :: "stream_op \<Rightarrow> stream \<Rightarrow> bool" where
  "stream_op_ok (OpSend data _ _) s = (acked_bytes s + length (buf_bytes s) + length data < SIZE_MOD)"
| "stream_op_ok (OpWrote n) s = (n \<le> unsent_size s)"
| "stream_op_ok (OpAck n) s = (n \<le> unacked_size s)"
| "stream_op_ok _ s = True"

definition send_accepted :: "bytes \<Rightarrow> bool \<Rightarrow> stream \<Rightarrow> bool" where
  "send_accepted data conn_ended s \<longleftrightarrow> data \<noteq> [] \<and> writable s \<and> conn s \<and> \<not> conn_ended"

text \<open>
  The specification of the send side: the acknowledged, the in-flight and the queued bytes, and what
  each operation does to them.
\<close>

fun moves_data :: "stream_op \<Rightarrow> bool" where
  "moves_data (OpSend _ _ _) = True"
| "moves_data (OpWrote _) = True"
| "moves_data (OpAck _) = True"
| "moves_data (OpWithdraw _) = True"
| "moves_data OpRevert = True"
| "moves_data _ = False"

type_synonym byte_queue = "bytes \<times> bytes \<times> bytes"

inductive bq_step :: "stream_op \<Rightarrow> byte_queue \<Rightarrow> byte_queue \<Rightarrow> bool" where
  enqueue: "bq_step (OpSend d e k) (a, i, q) (a, i, q @ d)"
| dropped: "bq_step (OpSend d e k) x x"
| sent: "n \<le> length q \<Longrightarrow> bq_step (OpWrote n) (a, i, q) (a, i @ take n q, drop n q)"
| acked: "n \<le> length i \<Longrightarrow> bq_step (OpAck n) (a, i, q) (a @ take n i, drop n i, q)"
| withdrawn: "bq_step (OpWithdraw k) (a, i, xs @ d @ ys) (a, i, xs @ ys)"
| kept: "bq_step (OpWithdraw k) x x"
| reverted: "bq_step OpRevert (a, i, q) (a, [], i @ q)"
| other: "\<not> moves_data x \<Longrightarrow> bq_step x y y"

definition stream_abs :: "stream \<Rightarrow> byte_queue \<Rightarrow> bool" where
  "stream_abs s x \<longleftrightarrow> (case x of (a, i, q) \<Rightarrow> length a = acked_bytes s \<and> i = inflight s \<and> q = queued s)"

text \<open>One step keeps the invariant and is matched by a step of the specification.\<close>

lemma stream_send_spec:
  assumes "stream_inv s" and "acked_bytes s + length (buf_bytes s) + length data < SIZE_MOD"
  shows "\<exists>s'. stream_send_impl data e keep s = Some s' \<and> stream_inv s' \<and> acked_bytes s' = acked_bytes s \<and>
     inflight s' = inflight s \<and> queued s' = queued s @ (if send_accepted data e s then data else [])"
proof (cases "send_accepted data e s")
  case True
  then have eq: "stream_send_impl data e keep s = append_buffer data keep s"
    and c: "data \<noteq> []" "conn s"
    by (auto simp: send_accepted_def writable_def stream_send_impl_def)
  show ?thesis
    using append_buffer_spec [of s data keep] assms c True
    by (auto simp: eq stream_inv_def pause_inv_def watermark_thresholds)
next
  case False
  then have "stream_send_impl data e keep s = Some s"
    by (auto simp: send_accepted_def writable_def stream_send_impl_def)
  with assms False show ?thesis by simp
qed

lemma other_step_frame:
  assumes "stream_step x s = Some s'"
    and "\<not> moves_data x"
  shows "user_buffers s' = user_buffers s \<and> unsent_size s' = unsent_size s \<and>
     unacked_size s' = unacked_size s \<and> acked_bytes s' = acked_bytes s \<and>
     current_buffer_index s' = current_buffer_index s \<and>
     current_buffer_offset s' = current_buffer_offset s \<and> front_trimmed s' = front_trimmed s"
  using assms
  by (cases x)
    (auto simp: enable_watermarks_def disable_watermarks_def stream_pause_def stream_resume_def
      stream_receive_def stream_credit_def on_fin_def stream_send_fin_def stream_close_def
      stream_closed_def set_ready_def set_data_callback_def set_close_callback_def
      set_fin_callback_def Let_def split: if_splits sum.splits)

lemma other_step_inv:
  assumes "stream_inv s"
    and "\<not> moves_data x"
  shows "\<exists>s'. stream_step x s = Some s' \<and> pause_inv s' \<and> watermark_inv s'"
proof (cases x)
  case (OpEnableWatermarks a oa c oc)
  let ?t = "(if watermarking s = None then s\<lparr>watermark_alarm := False\<rparr> else s)
    \<lparr>watermarking := Some (a, c), watermark_on_alarm := oa, watermark_on_clear := oc\<rparr>"
  show ?thesis
  proof (cases "c \<ge> a \<or> is_closing s \<or> send_fin s")
    case True
    with assms OpEnableWatermarks show ?thesis
      by (auto simp: enable_watermarks_def stream_inv_def)
  next
    case False
    then have "thresholds_ok ?t" by (simp add: thresholds_ok_def)
    then have "watermark_inv (check_watermark ?t)" by (rule check_watermark_inv)
    with assms False OpEnableWatermarks show ?thesis
      by (simp add: enable_watermarks_def Let_def stream_inv_def pause_inv_def)
  qed
qed (use assms in \<open>auto simp: disable_watermarks_def stream_pause_def stream_resume_def
      stream_receive_def stream_credit_def on_fin_def stream_send_fin_def stream_close_def
      stream_closed_def set_ready_def set_data_callback_def set_close_callback_def
      set_fin_callback_def Let_def stream_inv_def pause_inv_def watermark_inv_def
      thresholds_ok_def split: if_splits sum.splits option.splits\<close>)

lemma other_step_spec:
  assumes inv: "stream_inv s" and x: "\<not> moves_data x" and abs: "stream_abs s y"
  shows "\<exists>s'. stream_step x s = Some s' \<and> stream_inv s' \<and> bq_step x y y \<and> stream_abs s' y"
proof -
  obtain s' where s': "stream_step x s = Some s'" "pause_inv s'" "watermark_inv s'"
    using other_step_inv [OF inv x] by blast
  note fr = other_step_frame [OF s'(1) x]
  have "buffer_inv s'"
    using inv fr by (simp add: stream_inv_def buffer_inv_cong [of s' s])
  moreover have "stream_abs s' y"
    using abs fr view_cong [of s' s] by (simp add: stream_abs_def)
  ultimately show ?thesis
    using s' other [OF x] by (simp add: stream_inv_def)
qed

lemma data_step_spec:
  assumes moves: "moves_data x" and inv: "stream_inv s" and ok: "stream_op_ok x s" and abs: "stream_abs s y"
  shows "\<exists>s' y'. stream_step x s = Some s' \<and> stream_inv s' \<and> bq_step x y y' \<and> stream_abs s' y'"
proof -
  obtain a where y: "y = (a, inflight s, queued s)" and a: "length a = acked_bytes s"
    using abs by (auto simp: stream_abs_def)
  have bi: "buffer_inv s" and th: "thresholds_ok s" and pi: "pause_inv s"
    using inv by (auto simp: stream_inv_def watermark_thresholds)
  show ?thesis
  proof (cases x)
    case (OpSend d e k)
    obtain s' where s': "stream_step x s = Some s'" "stream_inv s'" "acked_bytes s' = acked_bytes s"
      "inflight s' = inflight s" "queued s' = queued s @ (if send_accepted d e s then d else [])"
      using stream_send_spec [OF inv, of d e k] ok OpSend by auto
    have "bq_step x y (a, inflight s', queued s')"
      unfolding OpSend y s' by (simp add: enqueue dropped)
    moreover have "stream_abs s' (a, inflight s', queued s')"
      using a s' by (simp add: stream_abs_def)
    ultimately show ?thesis using s' by blast
  next
    case (OpWrote n)
    with ok have n: "n \<le> unsent_size s" by simp
    have "bq_step x y (a, inflight s @ take n (queued s), drop n (queued s))"
      unfolding OpWrote y using n length_queued [OF bi] by (intro sent) simp
    then show ?thesis
      using wrote_spec [OF bi n] th pi a OpWrote
      by (auto simp: stream_abs_def stream_inv_def pause_inv_def)
  next
    case (OpAck n)
    with ok have n: "n \<le> unacked_size s" by simp
    have "bq_step x y (a @ take n (inflight s), drop n (inflight s), queued s)"
      unfolding OpAck y using n length_inflight [OF bi] by (intro acked) simp
    then show ?thesis
      using acknowledge_spec [OF bi n] inv a n OpAck length_inflight [OF bi]
      by (fastforce simp: stream_abs_def stream_inv_def pause_inv_def)
  next
    case (OpWithdraw k)
    obtain r s' where w: "withdraw k s = (r, s')" by fastforce
    show ?thesis
    proof (cases r)
      case True
      with w have w: "withdraw k s = (True, s')" by simp
      note ws = withdraw_spec [OF bi w]
      from ws(3) have "bq_step x y (a, inflight s', queued s')"
        using ws(2) y OpWithdraw by (auto intro: withdrawn)
      then show ?thesis
        using ws th pi a OpWithdraw w by (auto simp: stream_abs_def stream_inv_def pause_inv_def)
    next
      case False
      with w withdraw_False [of k s s'] have "s' = s" by simp
      then have "stream_step x s = Some s" using w OpWithdraw by simp
      moreover have "bq_step x y y" unfolding OpWithdraw by (rule kept)
      ultimately show ?thesis using inv abs by blast
    qed
  next
    case OpRevert
    let ?s = "check_watermark (revert_stream s)"
    note rs = revert_spec [OF bi]
    have th': "thresholds_ok (revert_stream s)"
      using th by (simp add: thresholds_ok_def revert_stream_def Let_def)
    have "pause_inv ?s"
      using pi by (simp add: pause_inv_def) (simp add: revert_stream_def Let_def)
    then have "stream_inv ?s"
      using rs(1) check_watermark_inv [OF th'] buffer_inv_cong [of ?s "revert_stream s"]
      by (simp add: stream_inv_def)
    moreover have "stream_abs ?s (a, [], inflight s @ queued s)"
      using rs a view_cong [of ?s "revert_stream s"] by (simp add: stream_abs_def)
    ultimately show ?thesis
      using OpRevert y by (auto simp: check_watermark_if_enabled_eq intro: reverted)
  qed (use moves in simp_all)
qed

lemma stream_step_spec:
  assumes "stream_inv s" and "stream_op_ok x s" and "stream_abs s y"
  shows "\<exists>s' y'. stream_step x s = Some s' \<and> stream_inv s' \<and> bq_step x y y' \<and> stream_abs s' y'"
  using other_step_spec [OF assms(1) _ assms(3)] data_step_spec [OF _ assms] by (cases "moves_data x") blast+

lemma stream_abs_ex: "\<exists>a. stream_abs s (a, inflight s, queued s)"
  by (rule exI [of _ "replicate (acked_bytes s) 0"]) (simp add: stream_abs_def)

interpretation stream_sys: op_system stream_step stream_op_ok stream_inv
proof
  fix s x
  assume "stream_inv s" "stream_op_ok x s"
  then show "\<exists>s'. stream_step x s = Some s' \<and> stream_inv s'"
    using stream_step_spec stream_abs_ex by blast
qed

lemma stream_handle_opt_frame:
  "user_buffers (stream_handle_opt opt s) = user_buffers s \<and>
   unsent_size (stream_handle_opt opt s) = unsent_size s \<and>
   unacked_size (stream_handle_opt opt s) = unacked_size s \<and>
   acked_bytes (stream_handle_opt opt s) = acked_bytes s \<and>
   current_buffer_index (stream_handle_opt opt s) = current_buffer_index s \<and>
   current_buffer_offset (stream_handle_opt opt s) = current_buffer_offset s \<and>
   front_trimmed (stream_handle_opt opt s) = front_trimmed s \<and>
   watermarking (stream_handle_opt opt s) = watermarking s \<and> paused (stream_handle_opt opt s) = paused s \<and>
   paused_offset (stream_handle_opt opt s) = paused_offset s \<and>
   conn (stream_handle_opt opt s) = conn s \<and> out (stream_handle_opt opt s) = out s"
  by (cases opt) simp_all

definition stream_idle :: "stream \<Rightarrow> bool" where
  "stream_idle s \<longleftrightarrow> user_buffers s = [] \<and> unsent_size s = 0 \<and> unacked_size s = 0 \<and> acked_bytes s = 0 \<and>
     current_buffer_index s = 0 \<and> current_buffer_offset s = 0 \<and> front_trimmed s = 0 \<and>
     watermarking s = None \<and> \<not> paused s \<and> paused_offset s = 0 \<and> conn s \<and> out s = []"

lemma stream_handle_opts_idle: "stream_idle s \<Longrightarrow> stream_idle (fold stream_handle_opt opts s)"
  by (induction opts arbitrary: s) (simp_all add: stream_idle_def stream_handle_opt_frame)

lemma stream_ctor_idle: "stream_idle (stream_ctor d opts)"
proof -
  have "stream_idle (fold stream_handle_opt opts stream_base_ctor)"
    by (rule stream_handle_opts_idle) (simp add: stream_idle_def stream_base_ctor_def)
  then show ?thesis
    by (simp add: stream_ctor_def stream_set_default_callbacks_def Let_def stream_idle_def)
qed

lemma stream_idle_inv: "stream_idle s \<Longrightarrow> stream_inv s"
  by (simp add: stream_idle_def stream_inv_def buffer_inv_def buf_bytes_def pause_inv_def
      watermark_inv_def thresholds_ok_def)

lemmas stream_ctor_inv = stream_idle_inv [OF stream_ctor_idle]

text \<open>The data a run of operations made the stream accept, in order.\<close>

fun accepted_data :: "stream_op list \<Rightarrow> stream \<Rightarrow> bytes" where
  "accepted_data [] s = []"
| "accepted_data (x # xs) s =
     (case x of OpSend d e k \<Rightarrow> if send_accepted d e s then d else [] | _ \<Rightarrow> []) @
     (case stream_step x s of None \<Rightarrow> [] | Some s' \<Rightarrow> accepted_data xs s')"

fun is_withdraw :: "stream_op \<Rightarrow> bool" where
  "is_withdraw (OpWithdraw _) = True"
| "is_withdraw _ = False"

fun op_credit :: "stream_op \<Rightarrow> nat" where
  "op_credit (OpCredit n) = n"
| "op_credit _ = 0"

fun is_closed_op :: "stream_op \<Rightarrow> bool" where
  "is_closed_op (OpClosed _) = True"
| "is_closed_op _ = False"

text \<open>The stream credit handed to the transport in a call log.\<close>

fun call_credit :: "stream_call \<Rightarrow> nat" where
  "call_credit (ExtendMaxStreamOffset _ n) = n"
| "call_credit _ = 0"

definition credited :: "stream \<Rightarrow> nat" where
  "credited s = sum_list (map call_credit (out s))"

lemma step_history:
  assumes inv: "stream_inv s" and ok: "stream_op_ok x s" and w: "\<not> is_withdraw x"
    and step: "stream_step x s = Some s'" and abs: "stream_abs s (a, inflight s, queued s)"
  shows "\<exists>a'. stream_abs s' (a', inflight s', queued s') \<and> a' @ inflight s' @ queued s' =
     a @ inflight s @ queued s @ (case x of OpSend d e k \<Rightarrow> if send_accepted d e s then d else [] | _ \<Rightarrow> [])"
proof (cases "\<exists>d e k. x = OpSend d e k")
  case True
  then obtain d e k where x: "x = OpSend d e k" by blast
  show ?thesis
    using stream_send_spec [OF inv, of d e k] ok step abs x by (auto simp: stream_abs_def)
next
  case False
  obtain y' where b: "bq_step x (a, inflight s, queued s) y'" and y: "stream_abs s' y'"
    using stream_step_spec [OF inv ok abs] step by auto
  obtain a' where y': "y' = (a', inflight s', queued s')"
    using y by (auto simp: stream_abs_def)
  have "a' @ inflight s' @ queued s' = a @ inflight s @ queued s"
    using b False w unfolding y' by (cases rule: bq_step.cases) auto
  then show ?thesis using y y' False by (cases x) auto
qed

lemma run_history:
  assumes "stream_inv s" and "ops_ok stream_step stream_op_ok ops s"
    and "\<forall>x\<in>set ops. \<not> is_withdraw x" and "run_ops stream_step ops s = Some t"
    and "stream_abs s (a, inflight s, queued s)"
  shows "\<exists>a'. length a' = acked_bytes t \<and>
     a' @ inflight t @ queued t = a @ inflight s @ queued s @ accepted_data ops s"
  using assms
proof (induction ops arbitrary: s a)
  case Nil
  then show ?case by (auto simp: stream_abs_def)
next
  case (Cons x ops)
  from Cons.prems obtain s' where s': "stream_step x s = Some s'" "run_ops stream_step ops s' = Some t"
    by (auto split: option.splits)
  have ok: "stream_op_ok x s" "ops_ok stream_step stream_op_ok ops s'"
    using Cons.prems(2) s' by auto
  have inv': "stream_inv s'"
    using stream_sys.step_inv [OF Cons.prems(1) ok(1)] s' by auto
  obtain a' where a': "stream_abs s' (a', inflight s', queued s')"
    and eq: "a' @ inflight s' @ queued s' = a @ inflight s @ queued s @
      (case x of OpSend d e k \<Rightarrow> if send_accepted d e s then d else [] | _ \<Rightarrow> [])"
    using step_history [OF Cons.prems(1) ok(1) _ s'(1) Cons.prems(5)] Cons.prems(3) by auto
  obtain b where "length b = acked_bytes t"
    "b @ inflight t @ queued t = (a' @ inflight s' @ queued s') @ accepted_data ops s'"
    using Cons.IH [OF inv' ok(2) _ s'(2) a'] Cons.prems(3) by auto
  then show ?case using s' unfolding eq by (auto intro!: exI [of _ b])
qed

lemma credited_emit [simp]: "credited (emit c s) = credited s + call_credit c"
  by (simp add: credited_def)

lemma credited_check_watermark [simp]: "credited (check_watermark s) = credited s"
  by (simp add: credited_def check_watermark_def Let_def split: option.split)

lemma credited_cong: "out s' = out s \<Longrightarrow> credited s' = credited s"
  by (simp add: credited_def)

lemma credited_update [simp]:
  "credited (s\<lparr>unsent_size := a\<rparr>) = credited s" "credited (s\<lparr>unacked_size := a\<rparr>) = credited s"
  "credited (s\<lparr>acked_bytes := a\<rparr>) = credited s" "credited (s\<lparr>user_buffers := bs\<rparr>) = credited s"
  "credited (s\<lparr>current_buffer_index := a\<rparr>) = credited s"
  "credited (s\<lparr>current_buffer_offset := a\<rparr>) = credited s"
  "credited (s\<lparr>front_trimmed := a\<rparr>) = credited s" "credited (s\<lparr>notify := b\<rparr>) = credited s"
  "credited (s\<lparr>is_closing := b\<rparr>) = credited s" "credited (s\<lparr>send_fin := b\<rparr>) = credited s"
  "credited (s\<lparr>sent_fin := b\<rparr>) = credited s" "credited (s\<lparr>received_fin := b\<rparr>) = credited s"
  "credited (s\<lparr>ready := b\<rparr>) = credited s" "credited (s\<lparr>paused := b\<rparr>) = credited s"
  "credited (s\<lparr>paused_offset := a\<rparr>) = credited s" "credited (s\<lparr>data_callback := b\<rparr>) = credited s"
  "credited (s\<lparr>close_callback := b\<rparr>) = credited s" "credited (s\<lparr>fin_callback := b\<rparr>) = credited s"
  "credited (s\<lparr>watermarking := w\<rparr>) = credited s" "credited (s\<lparr>watermark_alarm := b\<rparr>) = credited s"
  "credited (s\<lparr>watermark_on_alarm := b\<rparr>) = credited s" "credited (s\<lparr>watermark_on_clear := b\<rparr>) = credited s"
  by (simp_all add: credited_def)

lemma data_step_frame:
  assumes "moves_data x" and "stream_step x s = Some s'"
  shows "paused s' = paused s \<and> paused_offset s' = paused_offset s \<and> conn s' = conn s \<and>
     credited s' = credited s \<and> is_closing s' = is_closing s \<and> send_fin s' = send_fin s \<and>
     sent_fin s' = sent_fin s"
  using assms
  by (cases x)
    (auto simp: stream_send_impl_def append_buffer_def wrote_def acknowledge_def withdraw_def
      revert_stream_def check_watermark_if_enabled_eq Let_def split: if_splits option.splits prod.splits)

lemma credit_step:
  assumes "stream_inv s" and "conn s" and "\<not> is_closed_op x" and "stream_step x s = Some s'"
    and "credited s + paused_offset s + op_credit x < SIZE_MOD"
  shows "conn s' \<and> credited s' + paused_offset s' = credited s + paused_offset s + op_credit x"
proof (cases "moves_data x")
  case True
  then show ?thesis using data_step_frame [OF True assms(4)] assms(2) by (cases x) auto
next
  case False
  have p: "\<not> paused s \<Longrightarrow> paused_offset s = 0"
    using assms(1) by (simp add: stream_inv_def pause_inv_def)
  show ?thesis
    using assms(2-5) False p
    by (cases x)
      (auto simp: enable_watermarks_def disable_watermarks_def stream_pause_def stream_resume_def
      stream_receive_def stream_credit_def on_fin_def stream_send_fin_def stream_close_def
      set_ready_def set_data_callback_def set_close_callback_def
      set_fin_callback_def Let_def sz_add_exact split: if_splits sum.splits)
qed

lemma credit_run:
  assumes "stream_inv s" and "conn s" and "ops_ok stream_step stream_op_ok ops s"
    and "\<forall>x\<in>set ops. \<not> is_closed_op x" and "run_ops stream_step ops s = Some t"
    and "credited s + paused_offset s + sum_list (map op_credit ops) < SIZE_MOD"
  shows "credited t + paused_offset t = credited s + paused_offset s + sum_list (map op_credit ops)"
  using assms
proof (induction ops arbitrary: s)
  case (Cons x ops)
  then obtain s' where s': "stream_step x s = Some s'" "run_ops stream_step ops s' = Some t"
    by (auto split: option.splits)
  have c: "conn s' \<and> credited s' + paused_offset s' = credited s + paused_offset s + op_credit x"
    using credit_step [OF Cons.prems(1,2) _ s'(1)] Cons.prems(4,6) by simp
  have "stream_inv s'" "ops_ok stream_step stream_op_ok ops s'"
    using stream_sys.step_inv [OF Cons.prems(1), of x] Cons.prems(3) s' by auto
  then show ?case using Cons.IH [of s'] c s' Cons.prems(4,6) by simp
qed simp

text \<open>A stream whose write side is closed never accepts data again.\<close>

lemma writable_step:
  assumes "\<not> writable s" and "stream_step x s = Some s'"
  shows "\<not> writable s'"
proof (cases "moves_data x")
  case True
  show ?thesis using data_step_frame [OF True assms(2)] assms(1) by (simp add: writable_def)
next
  case False
  with assms show ?thesis
    by (cases x)
      (auto simp: writable_def enable_watermarks_def disable_watermarks_def stream_pause_def
      stream_resume_def stream_receive_def stream_credit_def on_fin_def stream_send_fin_def
      stream_close_def stream_closed_def set_ready_def set_data_callback_def set_close_callback_def
      set_fin_callback_def Let_def split: if_splits sum.splits)
qed

lemma unwritable_run:
  assumes "\<not> writable s" shows "accepted_data ops s = []"
  using assms
proof (induction ops arbitrary: s)
  case (Cons x ops)
  then show ?case
    using writable_step [OF Cons.prems, of x]
    by (auto simp: send_accepted_def split: stream_op.splits option.splits)
qed simp

section \<open>Properties\<close>

lemmas stream_eval = enable_watermarks_def Let_def stream_ctor_def stream_base_ctor_def
  stream_set_default_callbacks_def check_watermark_def emit_def stream_send_impl_def
  append_buffer_def check_watermark_if_enabled_def sz_add_def sz_sub_def buf_bytes_def wrote_def
  wrote_loop.simps acknowledge_def revert_stream_def withdraw_def withdraw_first_def
  stream_pause_def stream_closed_def stream_resume_def stream_credit_def inflight_def queued_def

text \<open>
  C13: no assertion of the stream ever fails and the stream's invariant (cursor, byte counts, trimmed
  front, withheld credit, watermark state) holds after every sequence of operations on a newly
  constructed stream, whatever its options, as long as the transport reports no byte sent that was
  not queued and no byte acknowledged that was not in flight.
\<close>

theorem stream_never_fails:
  assumes "ops_ok stream_step stream_op_ok ops (stream_ctor d opts)"
  shows "\<exists>s. run_ops stream_step ops (stream_ctor d opts) = Some s \<and> stream_inv s"
  by (rule stream_sys.run_inv [OF stream_ctor_inv assms])

theorem stream_never_fails_witness:
  "\<exists>s. run_ops stream_step
      [OpSend [1, 2, 3] False (Some 7), OpWrote 2, OpPause, OpAck 1, OpRevert, OpWithdraw (Some 7), OpClosed 0]
      (stream_ctor True [StreamNotify]) = Some s \<and> stream_inv s"
  by (rule stream_never_fails) (simp add: stream_eval)

text \<open>
  C1: bytes are neither lost, duplicated nor reordered. After any sequence of sends, transmissions,
  acknowledgements, early-data reversions and the rest (withdrawals apart), the bytes acknowledged,
  then those in flight, then those still queued are exactly the bytes the stream accepted, in order,
  and the three counters of \<open>get_stats\<close> add up to their number.
\<close>

theorem stream_fifo:
  assumes "ops_ok stream_step stream_op_ok ops (stream_ctor d opts)"
    and "\<forall>x\<in>set ops. \<not> is_withdraw x"
    and "run_ops stream_step ops (stream_ctor d opts) = Some s"
  shows "\<exists>a. accepted_data ops (stream_ctor d opts) = a @ inflight s @ queued s \<and>
    length a = acked_bytes s \<and> length (inflight s) = unacked_size s \<and> length (queued s) = unsent_size s"
proof -
  let ?s0 = "stream_ctor d opts"
  have 0: "stream_abs ?s0 ([], inflight ?s0, queued ?s0)" "inflight ?s0 = []" "queued ?s0 = []"
    using stream_ctor_idle [of d opts]
    by (auto simp: stream_idle_def stream_abs_def inflight_def queued_def buf_bytes_def)
  have "buffer_inv s"
    using stream_sys.run_result [OF stream_ctor_inv assms(1,3)] by (simp add: stream_inv_def)
  moreover obtain a where "length a = acked_bytes s"
    "accepted_data ops ?s0 = a @ inflight s @ queued s"
    using run_history [OF stream_ctor_inv assms 0(1)] 0(2,3) by auto
  ultimately show ?thesis using length_inflight length_queued by blast
qed

theorem stream_fifo_witness:
  "\<exists>a s. accepted_data [OpSend [1, 2] False None, OpSend [3] False None, OpWrote 3, OpAck 1, OpRevert, OpWrote 1]
       (stream_ctor True []) = a @ inflight s @ queued s \<and> length a = acked_bytes s \<and>
     inflight s = [2] \<and> queued s = [3]"
proof -
  let ?ops = "[OpSend [1, 2] False None, OpSend [3] False None, OpWrote 3, OpAck 1, OpRevert, OpWrote 1]"
  have ok: "ops_ok stream_step stream_op_ok ?ops (stream_ctor True [])" by (simp add: stream_eval)
  obtain s where s: "run_ops stream_step ?ops (stream_ctor True []) = Some s"
    using stream_sys.run_inv [OF stream_ctor_inv ok] by blast
  have "map_option (\<lambda>s. (inflight s, queued s)) (run_ops stream_step ?ops (stream_ctor True []))
      = Some ([2], [3])" by (simp add: stream_eval)
  then have "inflight s = [2] \<and> queued s = [3]" unfolding s by simp
  moreover have "\<forall>x\<in>set ?ops. \<not> is_withdraw x" by simp
  ultimately show ?thesis using stream_fifo [OF ok _ s] by blast
qed

text \<open>
  C10: every operation of the stream refines one step of the abstract byte queue (acknowledged,
  in-flight and queued bytes): a send appends to the queue or is dropped, \<open>wrote\<close> moves bytes from
  the queue to the flight, \<open>acknowledge\<close> retires the oldest of the flight, a withdrawal cuts one
  contiguous piece out of the queue, a reversion requeues the whole flight in front, and every other
  operation leaves all bytes alone.
\<close>

theorem stream_refines_byte_queue:
  assumes "stream_inv s" and "stream_op_ok x s" and "stream_abs s y"
  shows "\<exists>s' y'. stream_step x s = Some s' \<and> bq_step x y y' \<and> stream_abs s' y' \<and> stream_inv s'"
  using stream_step_spec [OF assms] by blast

theorem stream_refines_byte_queue_witness:
  "\<exists>s' y'. stream_step (OpSend [5] False None) (stream_ctor True []) = Some s' \<and>
     bq_step (OpSend [5] False None) ([], [], []) y' \<and> stream_abs s' y' \<and> stream_inv s'"
  by (rule stream_refines_byte_queue [OF stream_ctor_inv])
    (simp_all add: stream_abs_def stream_ctor_def stream_base_ctor_def stream_set_default_callbacks_def
      inflight_def queued_def buf_bytes_def)

text \<open>
  C23: pausing withholds flow-control credit but never loses it. While the stream is open, the credit
  given to the transport plus the credit withheld is exactly the credit earned by received data, and
  nothing is withheld on a stream that is not paused.
\<close>

theorem stream_credit_conserved:
  assumes "ops_ok stream_step stream_op_ok ops (stream_ctor d opts)"
    and "\<forall>x\<in>set ops. \<not> is_closed_op x"
    and "run_ops stream_step ops (stream_ctor d opts) = Some s"
    and "sum_list (map op_credit ops) < SIZE_MOD"
  shows "credited s + paused_offset s = sum_list (map op_credit ops) \<and>
    (\<not> paused s \<longrightarrow> credited s = sum_list (map op_credit ops))"
proof -
  have 0: "conn (stream_ctor d opts)" "credited (stream_ctor d opts) = 0" "paused_offset (stream_ctor d opts) = 0"
    using stream_ctor_idle [of d opts] by (simp_all add: stream_idle_def credited_def)
  have "pause_inv s"
    using stream_sys.run_result [OF stream_ctor_inv assms(1,3)] by (simp add: stream_inv_def)
  then show ?thesis
    using credit_run [OF stream_ctor_inv 0(1) assms(1-3)] 0 assms(4) by (auto simp: pause_inv_def)
qed

theorem stream_credit_conserved_witness:
  "\<exists>s. run_ops stream_step [OpCredit 5, OpPause, OpCredit 7, OpResume, OpCredit 1] (stream_ctor True []) = Some s \<and>
     credited s = 13"
proof -
  let ?ops = "[OpCredit 5, OpPause, OpCredit 7, OpResume, OpCredit 1]"
  have ok: "ops_ok stream_step stream_op_ok ?ops (stream_ctor True [])" by (simp add: stream_eval)
  obtain s where s: "run_ops stream_step ?ops (stream_ctor True []) = Some s"
    using stream_sys.run_inv [OF stream_ctor_inv ok] by blast
  have "map_option paused (run_ops stream_step ?ops (stream_ctor True [])) = Some False" by (simp add: stream_eval)
  then have "\<not> paused s" unfolding s by simp
  then have "credited s = 13" using stream_credit_conserved [OF ok _ s] by simp
  with s show ?thesis by blast
qed

text \<open>
  C24: watermark hysteresis. Whenever watermarks are enabled, after any sequence of operations the
  alarm is on if the unsent bytes have reached the alarm threshold and off if they have fallen to the
  clear threshold.
\<close>

theorem stream_watermark_state:
  assumes "ops_ok stream_step stream_op_ok ops (stream_ctor d opts)"
    and "run_ops stream_step ops (stream_ctor d opts) = Some s"
    and "watermarking s = Some (alarm, clear)"
  shows "clear < alarm \<and> (alarm \<le> unsent_size s \<longrightarrow> watermark_status s = Some True) \<and>
    (unsent_size s \<le> clear \<longrightarrow> watermark_status s = Some False)"
proof -
  have "watermark_inv s"
    using stream_sys.run_result [OF stream_ctor_inv assms(1,2)] by (simp add: stream_inv_def)
  then show ?thesis
    using assms(3)
    by (auto simp: watermark_inv_def thresholds_ok_def watermark_status_def split: if_splits)
qed

theorem stream_watermark_state_witness:
  "\<exists>s. run_ops stream_step [OpEnableWatermarks 2 True 1 True, OpSend [1, 2] False None] (stream_ctor True [])
     = Some s \<and> watermark_status s = Some True"
proof -
  let ?ops = "[OpEnableWatermarks 2 True 1 True, OpSend [1, 2] False None]"
  let ?run = "run_ops stream_step ?ops (stream_ctor True [])"
  have ok: "ops_ok stream_step stream_op_ok ?ops (stream_ctor True [])"
    by (simp add: stream_eval)
  obtain s where s: "?run = Some s"
    using stream_sys.run_inv [OF stream_ctor_inv ok] by blast
  have "map_option watermarking ?run = Some (Some (2, 1))" "map_option unsent_size ?run = Some 2"
    by (simp_all add: stream_eval)
  then have "watermarking s = Some (2, 1)" "unsent_size s = 2" unfolding s by simp_all
  then have "watermark_status s = Some True" using stream_watermark_state [OF ok s] by simp
  with s show ?thesis by blast
qed

text \<open>
  What \<open>pending\<close> offers the transport is a prefix of the queued bytes, in order, from the send
  point on. It holds at least the bytes asked for when there are that many, and the flag says
  whether queued bytes are left over.
\<close>

theorem stream_pending_prefix:
  assumes "stream_inv s" and "pending n s = (bufs, mr)"
  shows "\<exists>rest. queued s = concat bufs @ rest \<and> (mr \<longleftrightarrow> rest \<noteq> []) \<and>
    min n (unsent_size s) \<le> length (concat bufs)"
proof (rule pending_spec [OF _ assms(2)])
  show "buffer_inv s" using assms(1) by (simp add: stream_inv_def)
qed

theorem stream_pending_prefix_witness:
  "\<exists>s rest. queued s = concat [[2], [3, 4]] @ rest \<and> rest \<noteq> [] \<and> stream_inv s"
proof -
  let ?ops = "[OpSend [1, 2] False None, OpSend [3, 4] False None, OpSend [5] False None, OpWrote 1]"
  let ?run = "run_ops stream_step ?ops (stream_ctor True [])"
  have ok: "ops_ok stream_step stream_op_ok ?ops (stream_ctor True [])" by (simp add: stream_eval)
  obtain s where s: "?run = Some s" and inv: "stream_inv s"
    using stream_sys.run_inv [OF stream_ctor_inv ok] by blast
  have "map_option user_buffers ?run = Some [([1, 2], None), ([3, 4], None), ([5], None)]"
    "map_option current_buffer_index ?run = Some 0" "map_option current_buffer_offset ?run = Some 1"
    "map_option unsent_size ?run = Some 4"
    by (simp_all add: stream_eval)
  then have f: "user_buffers s = [([1, 2], None), ([3, 4], None), ([5], None)]"
    "current_buffer_index s = 0" "current_buffer_offset s = 1" "unsent_size s = 4"
    unfolding s by simp_all
  have "pending 2 s = ([[2], [3, 4]], True)"
    unfolding pending_def f by (simp add: pending_loop.simps sz_add_def)
  then obtain rest where "queued s = concat [[2], [3, 4]] @ rest" "rest \<noteq> []"
    using stream_pending_prefix [OF inv, of 2] by auto
  with inv show ?thesis by blast
qed

text \<open>
  Closing the write side is final. Once a stream is closing or has its end marked or sent, no
  sequence of operations makes it accept another byte.
\<close>

theorem stream_write_close_final:
  assumes "\<not> writable s"
  shows "accepted_data ops s = []"
  by (rule unwritable_run [OF assms])

theorem stream_write_close_final_witness:
  "accepted_data [OpSend [1] False None, OpResume, OpSend [2] False None] (stream_send_fin (stream_ctor True [])) = []"
  by (rule stream_write_close_final) (simp add: writable_def stream_send_fin_def Let_def)
end
