(* ===== verification/Std_Map.thy ===== *)
theory Std_Map
  imports Quic_Prelude "HOL-Library.Multiset"
begin

text \<open>
  The ordered containers of the standard library that the components use: \<open>std::map\<close> and \<open>std::multimap\<close> with integer
  keys, as lists in the order of iteration.
\<close>

section \<open>Operations\<close>

text \<open>\<open>std::map\<close> by an integer, as a list ordered by key.\<close>

fun map_put :: "int \<Rightarrow> 'a \<Rightarrow> (int \<times> 'a) list \<Rightarrow> (int \<times> 'a) list" where
  "map_put k v [] = [(k, v)]"
| "map_put k v ((k', v') # m) =
     (if k < k' then (k, v) # (k', v') # m else if k = k' then (k, v) # m else (k', v') # map_put k v m)"

definition map_erase :: "int \<Rightarrow> (int \<times> 'a) list \<Rightarrow> (int \<times> 'a) list" where
  "map_erase k m = filter (\<lambda>(k', _). k' \<noteq> k) m"

text \<open>\<open>std::multimap\<close> by time: \<open>emplace_hint\<close> at the end puts an entry after those of the same time.\<close>

fun multimap_emplace :: "int \<Rightarrow> int \<Rightarrow> (int \<times> int) list \<Rightarrow> (int \<times> int) list" where
  "multimap_emplace t v [] = [(t, v)]"
| "multimap_emplace t v ((t', v') # m) =
     (if t < t' then (t, v) # (t', v') # m else (t', v') # multimap_emplace t v m)"

section \<open>Lemmas\<close>

lemma mset_map_put: "k \<notin> fst ` set m \<Longrightarrow> mset (map_put k v m) = add_mset (k, v) (mset m)"
  by (induction k v m rule: map_put.induct) auto

lemma mset_multimap_emplace: "mset (multimap_emplace t v m) = add_mset (t, v) (mset m)"
  by (induction t v m rule: multimap_emplace.induct) auto

lemma sorted_multimap_emplace: "sorted (map fst m) \<Longrightarrow> sorted (map fst (multimap_emplace t v m))"
proof (induction t v m rule: multimap_emplace.induct)
  case (2 t v t' v' m)
  have "set (multimap_emplace t v m) = insert (t, v) (set m)"
    using mset_multimap_emplace [of t v m] by (metis set_mset_add_mset_insert set_mset_mset)
  then show ?case using 2 by auto
qed simp

lemma mset_map_erase:
  assumes "distinct (map fst m)" "map_of m k = Some v"
  shows "mset m = add_mset (k, v) (mset (map_erase k m))"
  using assms
proof (induction m)
  case (Cons p m)
  show ?case
  proof (cases "fst p = k")
    case True
    then have "map_erase k m = m"
      using Cons.prems(1) by (auto simp: map_erase_def filter_id_conv rev_image_eqI)
    then show ?thesis using True Cons.prems(2) by (cases p) (auto simp: map_erase_def)
  next
    case False
    then show ?thesis using Cons by (cases p) (auto simp: map_erase_def)
  qed
qed simp

text \<open>A map is ordered by its keys, without repetition.\<close>

definition map_ok :: "(int \<times> 'a) list \<Rightarrow> bool" where
  "map_ok m \<longleftrightarrow> sorted_wrt (<) (map fst m)"

lemma map_ok_distinct: "map_ok m \<Longrightarrow> distinct (map fst m)"
  by (simp add: map_ok_def strict_sorted_iff)

lemma set_map_put: "map_ok m \<Longrightarrow> set (map_put k v m) = insert (k, v) {p \<in> set m. fst p \<noteq> k}"
  by (induction k v m rule: map_put.induct) (auto simp: map_ok_def)

lemma keys_map_put: "fst ` set (map_put k v m) = insert k (fst ` set m)"
  by (induction k v m rule: map_put.induct) (auto simp: image_iff)

lemma map_ok_put: "map_ok m \<Longrightarrow> map_ok (map_put k v m)"
proof (induction k v m rule: map_put.induct)
  case (2 k v k' v' m)
  have "\<forall>x \<in> fst ` set (map_put k v m). k' < x" if "k' < k"
    using 2(2) that by (auto simp: keys_map_put map_ok_def)
  then show ?case using 2 by (auto simp: map_ok_def)
qed (simp add: map_ok_def)

lemma set_map_erase: "set (map_erase k m) = {p \<in> set m. fst p \<noteq> k}"
  by (auto simp: map_erase_def)

lemma map_ok_erase: "map_ok m \<Longrightarrow> map_ok (map_erase k m)"
  unfolding map_ok_def map_erase_def by (simp add: sorted_wrt_map sorted_wrt_filter)

lemma map_ok_get: "map_ok m \<Longrightarrow> (k, v) \<in> set m \<longleftrightarrow> map_of m k = Some v"
  using map_ok_distinct by (metis map_of_eq_Some_iff)

end
