(* ===== verification/BTStream.thy ===== *)
theory BTStream
  imports Stream_Correct Io_Result Std_Map
begin

text \<open>
  The request stream \<open>BTRequestStream\<close> (\<open>btstream.hpp\<close>, \<open>btstream.cpp\<close>): length-prefixed frames cut out of the
  incoming bytes, requests and responses matched by id, and request timeouts. It is built on the stream of
  \<open>Stream_Model\<close>: sending, withdrawing and closing are that model's operations on the base object.

  The encoding of lists is oxenc's: decoding a list into its items, encoding a list, and serialising a string are
  parameters, as are the application's handlers, whether the connection is ending, and the clock. Times are
  nanoseconds. A handler is identified by what it returns; what it does to the stream is a later operation.
\<close>

section \<open>Constants\<close>

definition DEFAULT_TIMEOUT :: int where "DEFAULT_TIMEOUT = 10 * 1000000000"

definition DEFAULT_MAX_REQ_LEN :: nat where "DEFAULT_MAX_REQ_LEN = 10 * 1024 * 1024"

definition MAX_REQ_LEN_LIMIT :: nat where "MAX_REQ_LEN_LIMIT = 1000000000"

definition MAX_REQ_LEN_ENCODED :: nat where "MAX_REQ_LEN_ENCODED = 10"

section \<open>Messages\<close>

datatype bt_value = BStr bytes | BInt int

datatype bt_error =
    BtDecode
  | BtBadLength
  | BtLeadingZero
  | BtBadInput
  | BtTooLarge
  | BtBodyTooLong
  | BtBadLimit

record message =
  msg_type :: bytes
  req_id :: int
  msg_endpoint :: bytes
  msg_body :: bytes

definition TYPE_REPLY :: bytes where "TYPE_REPLY = [82]"

definition TYPE_ERROR :: bytes where "TYPE_ERROR = [69]"

definition TYPE_COMMAND :: bytes where "TYPE_COMMAND = [67]"

definition int64_ok :: "int \<Rightarrow> bool" where
  "int64_ok n \<longleftrightarrow> - (2 ^ 63) \<le> n \<and> n < 2 ^ 63"

text \<open>
  The constructor of a received message: a type, an id, an endpoint if it is a command, a body, and
  nothing more. \<open>items\<close> decodes a list; each \<open>consume\<close> of another kind of item throws.
\<close>

definition message_ctor :: "(bytes \<Rightarrow> bt_value list option) \<Rightarrow> bytes \<Rightarrow> bt_error + message" where
  "message_ctor items data =
     (case items data of
        Some (BStr ty # BInt n # rest) \<Rightarrow>
          if \<not> int64_ok n then Inl BtDecode
          else if ty = TYPE_COMMAND
          then (case rest of
                  [BStr ep, BStr body] \<Rightarrow> Inr \<lparr>msg_type = ty, req_id = n, msg_endpoint = ep, msg_body = body\<rparr>
                | _ \<Rightarrow> Inl BtDecode)
          else (case rest of
                  [BStr body] \<Rightarrow> Inr \<lparr>msg_type = ty, req_id = n, msg_endpoint = [], msg_body = body\<rparr>
                | _ \<Rightarrow> Inl BtDecode)
      | _ \<Rightarrow> Inl BtDecode)"

definition message_is_error :: "message \<Rightarrow> bool" where
  "message_is_error m \<longleftrightarrow> msg_type m = TYPE_ERROR"

text \<open>What a response callback is given: a reply or error of the other side, or a timeout.\<close>

datatype response = Answered message | TimedOut

section \<open>State\<close>

record sent_request =
  sr_id :: int
  sr_data :: bytes
  sr_expiry :: int
  withdraw_on_timeout :: bool
  sr_queued :: keep_alive
  sr_cb :: "nat option"

datatype handler_outcome = HandlerOk | HandlerNoSuchEndpoint | HandlerThrows

datatype bt_call =
    EndpointHandler bytes message
  | GenericHandler message
  | ResponseCallback nat response

record bt_env =
  bt_items :: "bytes \<Rightarrow> bt_value list option"
  bt_list :: "bt_value list \<Rightarrow> bytes"
  bt_serialize :: "bytes \<Rightarrow> bytes"
  handler :: "message \<Rightarrow> handler_outcome"
  conn_ended :: bool
  clock :: int

record btstream =
  bt_base :: stream
  sent_reqs :: "(int \<times> sent_request) list"
  req_expiries :: "(int \<times> int) list"
  registered_endpoints :: "bytes list"
  generic_handler :: bool
  bt_buf :: bytes
  size_buf :: bytes
  current_len :: nat
  max_req_len :: nat
  next_rid :: int
  timeout_event :: bool
  timer_at :: "int option"
  next_keep :: nat
  bt_out :: "bt_call list"

text \<open>An operation ends normally, throws with the state it leaves, or fails an assertion.\<close>

datatype bt_result = BtOk btstream | BtThrow bt_error btstream | BtAbort

definition bt_ctor :: "stream \<Rightarrow> btstream" where
  "bt_ctor base =
     \<lparr>bt_base = base, sent_reqs = [], req_expiries = [], registered_endpoints = [], generic_handler = False,
      bt_buf = [], size_buf = [], current_len = 0, max_req_len = DEFAULT_MAX_REQ_LEN, next_rid = 0,
      timeout_event = False, timer_at = None, next_keep = 0, bt_out = []\<rparr>"

definition handle_opt_generic :: "btstream \<Rightarrow> btstream" where
  "handle_opt_generic b = b\<lparr>generic_handler := True\<rparr>"

definition handle_opt_max_request_size :: "nat \<Rightarrow> btstream \<Rightarrow> bt_result" where
  "handle_opt_max_request_size limit b =
     (if limit = 0 \<or> limit \<ge> MAX_REQ_LEN_LIMIT then BtThrow BtBadLimit b else BtOk (b\<lparr>max_req_len := limit\<rparr>))"

definition register_handler :: "bytes \<Rightarrow> btstream \<Rightarrow> btstream" where
  "register_handler ep b = b\<lparr>registered_endpoints := List.insert ep (registered_endpoints b)\<rparr>"

definition register_generic_handler :: "btstream \<Rightarrow> btstream" where
  "register_generic_handler b = b\<lparr>generic_handler := True\<rparr>"

definition num_pending :: "btstream \<Rightarrow> nat" where
  "num_pending b = length (user_buffers (bt_base b))"

definition num_awaiting_response :: "btstream \<Rightarrow> nat" where
  "num_awaiting_response b = length (sent_reqs b)"

section \<open>Sending requests and responses\<close>

definition sent_request_ctor ::
    "bt_env \<Rightarrow> nat \<Rightarrow> bytes \<Rightarrow> int \<Rightarrow> nat option \<Rightarrow> int option \<Rightarrow> bool \<Rightarrow> bt_error + sent_request" where
  "sent_request_ctor env max_len d rid cb timeout send_after =
     (let data = bt_serialize env d
      in if length data > max_len then Inl BtBodyTooLong
         else Inr \<lparr>sr_id = rid, sr_data = data,
                   sr_expiry = clock env + (case timeout of Some t \<Rightarrow> t | None \<Rightarrow> DEFAULT_TIMEOUT),
                   withdraw_on_timeout = \<not> send_after, sr_queued = None, sr_cb = cb\<rparr>)"

definition encode_command :: "bt_env \<Rightarrow> bytes \<Rightarrow> int \<Rightarrow> bytes \<Rightarrow> bytes" where
  "encode_command env ep rid body = bt_list env [BStr TYPE_COMMAND, BInt rid, BStr ep, BStr body]"

definition encode_response :: "bt_env \<Rightarrow> int \<Rightarrow> bytes \<Rightarrow> bool \<Rightarrow> bytes" where
  "encode_response env rid body err =
     bt_list env [BStr (if err then TYPE_ERROR else TYPE_REPLY), BInt rid, BStr body]"

text \<open>\<open>send\<close> of the base class, with the buffer's keep-alive.\<close>

definition bt_send :: "bt_env \<Rightarrow> bytes \<Rightarrow> keep_alive \<Rightarrow> btstream \<Rightarrow> bt_result" where
  "bt_send env data keep b =
     (case stream_send_impl data (conn_ended env) keep (bt_base b) of
        None \<Rightarrow> BtAbort
      | Some s \<Rightarrow> BtOk (b\<lparr>bt_base := s\<rparr>))"

text \<open>\<open>send\<close> of a string that is moved in: it becomes its own, new keep-alive.\<close>

definition bt_send_string :: "bt_env \<Rightarrow> bytes \<Rightarrow> btstream \<Rightarrow> bt_result" where
  "bt_send_string env data b = bt_send env data (Some (next_keep b)) (b\<lparr>next_keep := next_keep b + 1\<rparr>)"

definition bt_respond :: "bt_env \<Rightarrow> int \<Rightarrow> bytes \<Rightarrow> bool \<Rightarrow> btstream \<Rightarrow> bt_result" where
  "bt_respond env rid body err b =
     (case sent_request_ctor env (max_req_len b) (encode_response env rid body err) rid None None False of
        Inl e \<Rightarrow> BtThrow e b
      | Inr sr \<Rightarrow> bt_send_string env (sr_data sr) b)"

text \<open>A request's callback runs at most once; exceptions of it are caught.\<close>

definition deliver :: "response \<Rightarrow> sent_request \<Rightarrow> btstream \<Rightarrow> btstream" where
  "deliver r sr b =
     (case sr_cb sr of None \<Rightarrow> b | Some f \<Rightarrow> b\<lparr>bt_out := bt_out b @ [ResponseCallback f r]\<rparr>)"

definition sr_time_out :: "sent_request \<Rightarrow> btstream \<Rightarrow> btstream" where
  "sr_time_out sr b = deliver TimedOut sr b"

text \<open>
  The timer: arming it replaces an earlier setting. The interval is rounded up to a whole microsecond and not
  negative.
\<close>

definition update_timeout :: "int \<Rightarrow> btstream \<Rightarrow> btstream" where
  "update_timeout now b =
     (case req_expiries b of
        [] \<Rightarrow> if timeout_event b then b\<lparr>timer_at := None\<rparr> else b
      | (first, _) # _ \<Rightarrow>
          let expires_in = - ((- (first - now)) div 1000);
              expires_in = (if expires_in < 0 then 0 else expires_in)
          in b\<lparr>timeout_event := True, timer_at := Some (now + 1000 * expires_in)\<rparr>)"

text \<open>A request dropped here is destroyed, which answers its callback with a timeout.\<close>

definition add_sent_request :: "bt_env \<Rightarrow> sent_request \<Rightarrow> btstream \<Rightarrow> bool \<times> btstream" where
  "add_sent_request env sr b =
     (if is_closing (bt_base b) then (False, sr_time_out sr b)
      else let b = b\<lparr>sent_reqs := map_put (sr_id sr) sr (sent_reqs b)\<rparr>;
               b = b\<lparr>req_expiries := multimap_emplace (sr_expiry sr) (sr_id sr) (req_expiries b)\<rparr>
           in (True, if snd (hd (req_expiries b)) = sr_id sr then update_timeout (clock env) b else b))"

definition command :: "bt_env \<Rightarrow> bytes \<Rightarrow> bytes \<Rightarrow> nat option \<Rightarrow> int option \<Rightarrow> bool \<Rightarrow> btstream \<Rightarrow> bt_result" where
  "command env ep body cb timeout send_after b =
     (let rid = next_rid b; b = b\<lparr>next_rid := rid + 1\<rparr>
      in case sent_request_ctor env (max_req_len b) (encode_command env ep rid body) rid cb timeout send_after of
           Inl e \<Rightarrow> BtThrow e b
         | Inr sr \<Rightarrow>
             if cb = None then bt_send_string env (sr_data sr) b
             else let keep = Some (next_keep b);
                      sr = (if withdraw_on_timeout sr then sr\<lparr>sr_queued := keep\<rparr> else sr);
                      (added, b) = add_sent_request env sr b
                  in if added then bt_send env (sr_data sr) keep (b\<lparr>next_keep := next_keep b + 1\<rparr>) else BtOk b)"

section \<open>Timeouts\<close>

text \<open>
  The first loop of \<open>check_timeouts\<close>: the expired entries at the front (all of them if there is no time) are
  removed and their requests taken out of the map.
\<close>

fun take_expired :: "int option \<Rightarrow> (int \<times> int) list \<Rightarrow> (int \<times> sent_request) list
    \<Rightarrow> sent_request list \<times> (int \<times> int) list \<times> (int \<times> sent_request) list" where
  "take_expired now [] reqs = ([], [], reqs)"
| "take_expired now ((t, i) # es) reqs =
     (if now = None \<or> t \<le> the now
      then case map_of reqs i of
             None \<Rightarrow> take_expired now es reqs
           | Some sr \<Rightarrow>
               (let (expired, es', reqs') = take_expired now es (map_erase i reqs) in (sr # expired, es', reqs'))
      else ([], (t, i) # es, reqs))"

text \<open>
  The second loop. The request's buffer is still alive if the stream holds it, and is then withdrawn unless the
  stream is closing.
\<close>

definition still_queued :: "sent_request \<Rightarrow> stream \<Rightarrow> bool" where
  "still_queued sr s \<longleftrightarrow> sr_queued sr \<noteq> None \<and> sr_queued sr \<in> snd ` set (user_buffers s)"

definition expire_request :: "bool \<Rightarrow> sent_request \<Rightarrow> btstream \<Rightarrow> btstream" where
  "expire_request timed sr b =
     (let b = (if timed \<and> still_queued sr (bt_base b)
               then b\<lparr>bt_base := snd (withdraw (sr_queued sr) (bt_base b))\<rparr> else b)
      in sr_time_out sr b)"

definition check_timeouts :: "int option \<Rightarrow> btstream \<Rightarrow> btstream" where
  "check_timeouts now b =
     (let (expired, es, reqs) = take_expired now (req_expiries b) (sent_reqs b)
      in fold (expire_request (now \<noteq> None)) expired (b\<lparr>req_expiries := es, sent_reqs := reqs\<rparr>))"

text \<open>The timer's callback.\<close>

definition on_timeout :: "int \<Rightarrow> btstream \<Rightarrow> btstream" where
  "on_timeout now b = update_timeout now (check_timeouts (Some now) (b\<lparr>timer_at := None\<rparr>))"

section \<open>Incoming data\<close>

datatype prefix_result = PrefixSize nat bytes | PrefixMore bytes | PrefixThrow bt_error bytes | PrefixAbort

definition is_digit_byte :: "byte \<Rightarrow> bool" where
  "is_digit_byte c \<longleftrightarrow> 48 \<le> c \<and> c \<le> 57"

definition digit_of_byte :: "byte \<Rightarrow> nat" where
  "digit_of_byte c = unat c - 48"

fun prefix_accumulator :: "bytes \<Rightarrow> bytes \<Rightarrow> prefix_result" where
  "prefix_accumulator partial [] = PrefixMore partial"
| "prefix_accumulator partial (c # req) =
     (if is_digit_byte c
      then let partial = partial @ [c]
           in if length partial > MAX_REQ_LEN_ENCODED then PrefixThrow BtBadLength partial
              else prefix_accumulator partial req
      else if c = 58
      then if length partial > 1 \<and> hd partial = 48 then PrefixThrow BtLeadingZero partial
           else if partial = [] then PrefixAbort
           else PrefixSize (undigits10 (map digit_of_byte partial)) req
      else PrefixThrow BtBadInput partial)"

definition data_accumulator :: "bytes \<Rightarrow> bytes \<Rightarrow> nat \<Rightarrow> (bool \<times> bytes \<times> bytes) option" where
  "data_accumulator buf req sz =
     (if \<not> length buf < sz then None
      else let new_size = min (length buf + length req) sz;
               taken = new_size - length buf;
               buf = buf @ take taken req
           in Some (length buf = sz, buf, drop taken req))"

text \<open>The error text sent back when there is no handler, or when it throws.\<close>

definition bytes_of_string :: "string \<Rightarrow> bytes" where
  "bytes_of_string s = map (\<lambda>c. word_of_nat (of_char c)) s"

definition invalid_endpoint_text :: "bytes \<Rightarrow> bytes" where
  "invalid_endpoint_text ep =
     bytes_of_string ''Invalid endpoint '' @ [39] @ ep @ [39]"

definition handler_error_text :: bytes where
  "handler_error_text = bytes_of_string ''An error occurred while processing the request''"

definition handle_reply :: "bt_env \<Rightarrow> message \<Rightarrow> btstream \<Rightarrow> bt_result" where
  "handle_reply env msg b =
     (case map_of (sent_reqs b) (req_id msg) of
        None \<Rightarrow> BtOk b
      | Some sr \<Rightarrow>
          let b = b\<lparr>sent_reqs := map_erase (req_id msg) (sent_reqs b)\<rparr>;
              entry = (sr_expiry sr, sr_id sr);
              was_front = (req_expiries b \<noteq> [] \<and> hd (req_expiries b) = entry);
              b = b\<lparr>req_expiries := remove1 entry (req_expiries b)\<rparr>;
              b = (if was_front then update_timeout (clock env) b else b)
          in BtOk (deliver (Answered msg) sr b))"

definition handle_command :: "bt_env \<Rightarrow> message \<Rightarrow> btstream \<Rightarrow> bt_result" where
  "handle_command env msg b =
     (let ep = msg_endpoint msg;
          (outcome, b) =
            (if ep \<in> set (registered_endpoints b)
             then (handler env msg, b\<lparr>bt_out := bt_out b @ [EndpointHandler ep msg]\<rparr>)
             else if generic_handler b
             then (handler env msg, b\<lparr>bt_out := bt_out b @ [GenericHandler msg]\<rparr>)
             else (HandlerNoSuchEndpoint, b))
      in case outcome of
           HandlerOk \<Rightarrow> BtOk b
         | HandlerNoSuchEndpoint \<Rightarrow> bt_respond env (req_id msg) (invalid_endpoint_text ep) True b
         | HandlerThrows \<Rightarrow> bt_respond env (req_id msg) handler_error_text True b)"

definition handle_input :: "bt_env \<Rightarrow> message \<Rightarrow> btstream \<Rightarrow> bt_result" where
  "handle_input env msg b =
     (if msg_type msg = TYPE_REPLY \<or> msg_type msg = TYPE_ERROR then handle_reply env msg b
      else handle_command env msg b)"

text \<open>A complete frame: the message is constructed (which may throw) and handled, and the buffer cleared.\<close>

definition handle_frame :: "bt_env \<Rightarrow> bytes \<Rightarrow> btstream \<Rightarrow> bt_result" where
  "handle_frame env frame b =
     (case message_ctor (bt_items env) frame of
        Inl e \<Rightarrow> BtThrow e (b\<lparr>bt_buf := []\<rparr>)
      | Inr msg \<Rightarrow>
          (case handle_input env msg (b\<lparr>bt_buf := []\<rparr>) of
             BtOk b \<Rightarrow> BtOk (b\<lparr>bt_buf := [], current_len := 0\<rparr>)
           | r \<Rightarrow> r))"

text \<open>
  One round of the loop of \<open>process_incoming\<close> on non-empty input: the input and state to go on with, or the
  result.
\<close>

definition incoming_data :: "bt_env \<Rightarrow> bytes \<Rightarrow> btstream \<Rightarrow> (bytes \<times> btstream) + bt_result" where
  "incoming_data env req b =
     (case data_accumulator (bt_buf b) req (current_len b) of
        None \<Rightarrow> Inr BtAbort
      | Some (full, buf, rest) \<Rightarrow>
          if full
          then (case handle_frame env buf b of BtOk b \<Rightarrow> Inl (rest, b) | r \<Rightarrow> Inr r)
          else Inl (rest, b\<lparr>bt_buf := buf\<rparr>))"

definition incoming_round :: "bt_env \<Rightarrow> bytes \<Rightarrow> btstream \<Rightarrow> (bytes \<times> btstream) + bt_result" where
  "incoming_round env req b =
     (if current_len b = 0
      then case prefix_accumulator (size_buf b) req of
             PrefixAbort \<Rightarrow> Inr BtAbort
           | PrefixThrow e partial \<Rightarrow> Inr (BtThrow e (b\<lparr>size_buf := partial\<rparr>))
           | PrefixMore partial \<Rightarrow> Inr (BtOk (b\<lparr>size_buf := partial\<rparr>))
           | PrefixSize n rest \<Rightarrow>
               let b = b\<lparr>size_buf := [], current_len := n\<rparr>
               in if n = 0 then Inr (BtOk b)
                  else if n > max_req_len b then Inr (BtThrow BtTooLarge b)
                  else incoming_data env rest b
      else incoming_data env req b)"

lemma prefix_shorter: "prefix_accumulator partial req = PrefixSize n rest \<Longrightarrow> length rest < length req"
  by (induction partial req rule: prefix_accumulator.induct) (auto simp: Let_def split: if_splits)

lemma incoming_data_rest:
  assumes "incoming_data env req b = Inl (rest, b')"
  shows "length rest \<le> length req" and "req \<noteq> [] \<Longrightarrow> length rest < length req"
  using assms
  by (auto simp: incoming_data_def data_accumulator_def Let_def split: option.splits if_splits bt_result.splits)

lemma incoming_round_shorter:
  assumes "incoming_round env req b = Inl (rest, b')" and "req \<noteq> []"
  shows "length rest < length req"
proof (cases "current_len b = 0")
  case True
  then obtain n r where p: "prefix_accumulator (size_buf b) req = PrefixSize n r"
    and d: "incoming_data env r (b\<lparr>size_buf := [], current_len := n\<rparr>) = Inl (rest, b')"
    using assms(1) by (auto simp: incoming_round_def Let_def split: prefix_result.splits if_splits)
  show ?thesis using prefix_shorter [OF p] incoming_data_rest(1) [OF d] by simp
next
  case False
  then show ?thesis using assms incoming_data_rest(2) by (simp add: incoming_round_def)
qed

function process_incoming :: "bt_env \<Rightarrow> bytes \<Rightarrow> btstream \<Rightarrow> bt_result" where
  "process_incoming env req b =
     (if req = [] then BtOk b
      else case incoming_round env req b of
             Inr r \<Rightarrow> r
           | Inl (rest, b) \<Rightarrow> process_incoming env rest b)"
  by pat_completeness auto
termination
  by (relation "measure (\<lambda>(env, req, b). length req)") (auto dest: incoming_round_shorter)

declare process_incoming.simps [simp del]

text \<open>\<open>Stream::close\<close> of the base object; its argument check cannot fail for the codes used here.\<close>

definition bt_close :: "nat \<Rightarrow> btstream \<Rightarrow> btstream" where
  "bt_close code b = (case stream_close code (bt_base b) of Inl _ \<Rightarrow> b | Inr s \<Rightarrow> b\<lparr>bt_base := s\<rparr>)"

definition bt_receive :: "bt_env \<Rightarrow> bytes \<Rightarrow> btstream \<Rightarrow> btstream option" where
  "bt_receive env data b =
     (if is_closing (bt_base b) then Some b
      else case process_incoming env data b of
             BtOk b \<Rightarrow> Some b
           | BtThrow e b \<Rightarrow> Some (bt_close BTREQ_ERROR_EXCEPTION b)
           | BtAbort \<Rightarrow> None)"

section \<open>Closing and destruction\<close>

definition bt_closed :: "nat \<Rightarrow> btstream \<Rightarrow> btstream" where
  "bt_closed app_code b =
     (let b = b\<lparr>timeout_event := False, timer_at := None\<rparr>; b = check_timeouts None b
      in bt_close app_code b)"

definition bt_destroy :: "btstream \<Rightarrow> btstream" where
  "bt_destroy b =
     (let reqs = sent_reqs b; b = b\<lparr>req_expiries := [], sent_reqs := []\<rparr>
      in fold (\<lambda>(_, sr) b. sr_time_out sr b) reqs b)"

end
