(* ===== verification/BTStream_Frames.thy ===== *)
theory BTStream_Frames
  imports BTStream
begin

text \<open>
  The framing of \<open>BTRequestStream\<close>: how frames are cut out of the incoming bytes, and that requests reach the
  handlers of the other side in whatever chunks their bytes arrive.
\<close>

section \<open>Fields an operation leaves alone\<close>

lemma update_timeout_fields [simp]:
  "sent_reqs (update_timeout now b) = sent_reqs b" "req_expiries (update_timeout now b) = req_expiries b"
  "bt_out (update_timeout now b) = bt_out b" "bt_base (update_timeout now b) = bt_base b"
  "max_req_len (update_timeout now b) = max_req_len b" "next_rid (update_timeout now b) = next_rid b"
  "next_keep (update_timeout now b) = next_keep b"
  by (simp_all add: update_timeout_def Let_def split: list.splits prod.splits)

section \<open>Length prefixes\<close>

definition dec_bytes :: "nat \<Rightarrow> bytes" where
  "dec_bytes n = map (\<lambda>d. word_of_nat (48 + d)) (digits10 n)"

definition frame_bytes :: "bytes \<Rightarrow> bytes" where
  "frame_bytes f = dec_bytes (length f) @ 58 # f"

lemma digit_byte_facts:
  assumes "d < 10"
  shows "is_digit_byte (word_of_nat (48 + d))" and "digit_of_byte (word_of_nat (48 + d)) = d"
    and "word_of_nat (48 + d) = (48 :: byte) \<longleftrightarrow> d = 0"
proof -
  have u: "unat (word_of_nat (48 + d) :: byte) = 48 + d"
    using assms by (simp only: unat_of_nat) (simp add: take_bit_nat_eq_self)
  show "is_digit_byte (word_of_nat (48 + d))" "digit_of_byte (word_of_nat (48 + d)) = d"
    unfolding is_digit_byte_def digit_of_byte_def word_le_nat_alt u using assms by simp_all
  show "word_of_nat (48 + d) = (48 :: byte) \<longleftrightarrow> d = 0" unfolding word_unat_eq_iff u by simp
qed

lemma colon_not_digit: "\<not> is_digit_byte 58"
  by (simp add: is_digit_byte_def)

lemma dec_bytes_facts:
  shows "list_all is_digit_byte (dec_bytes n)" and "dec_bytes n \<noteq> []"
    and "undigits10 (map digit_of_byte (dec_bytes n)) = n"
    and "0 < n \<Longrightarrow> hd (dec_bytes n) \<noteq> 48"
    and "n < 10 ^ 10 \<Longrightarrow> length (dec_bytes n) \<le> 10"
proof -
  show "list_all is_digit_byte (dec_bytes n)"
    using digits10_less digit_byte_facts(1) by (auto simp: dec_bytes_def list_all_iff)
  show "dec_bytes n \<noteq> []" by (simp add: dec_bytes_def)
  have "map (digit_of_byte \<circ> (\<lambda>d. word_of_nat (48 + d))) (digits10 n) = map id (digits10 n)"
    using digits10_less digit_byte_facts(2) by (intro map_cong) auto
  then show "undigits10 (map digit_of_byte (dec_bytes n)) = n" by (simp add: dec_bytes_def)
  show "hd (dec_bytes n) \<noteq> 48" if "0 < n"
    using that hd_digits10 [of n] digits10_less [of "hd (digits10 n)" n] digit_byte_facts(3) [of "hd (digits10 n)"]
    by (simp add: dec_bytes_def hd_map)
  show "length (dec_bytes n) \<le> 10" if "n < 10 ^ 10" using that length_digits10_le by (simp add: dec_bytes_def)
qed

lemma prefix_digits:
  "list_all is_digit_byte ds \<Longrightarrow> length partial + length ds \<le> MAX_REQ_LEN_ENCODED \<Longrightarrow>
   prefix_accumulator partial (ds @ rest) = prefix_accumulator (partial @ ds) rest"
  by (induction ds arbitrary: partial) (auto simp: Let_def)

lemma prefix_more:
  assumes "list_all is_digit_byte ds" "length partial + length ds \<le> MAX_REQ_LEN_ENCODED"
  shows "prefix_accumulator partial ds = PrefixMore (partial @ ds)"
  using prefix_digits [OF assms, of "[]"] by simp

lemma prefix_complete:
  assumes "partial @ ds = dec_bytes n" "0 < n" "n < 10 ^ 10"
  shows "prefix_accumulator partial (ds @ 58 # rest) = PrefixSize n rest"
proof -
  note d = dec_bytes_facts [of n]
  have ds: "list_all is_digit_byte ds" using d(1) unfolding assms(1) [symmetric] by simp
  have l: "length partial + length ds \<le> MAX_REQ_LEN_ENCODED"
    using d(5) [OF assms(3)] unfolding assms(1) [symmetric] by (simp add: MAX_REQ_LEN_ENCODED_def)
  have "prefix_accumulator (dec_bytes n) (58 # rest) = PrefixSize n rest"
    using d(2,3) d(4) [OF assms(2)] colon_not_digit by simp
  then show ?thesis using prefix_digits [OF ds l, of "58 # rest"] assms(1) by simp
qed

section \<open>Frames do not depend on the framing state\<close>

fun upd_result :: "(btstream \<Rightarrow> btstream) \<Rightarrow> bt_result \<Rightarrow> bt_result" where
  "upd_result f (BtOk b) = BtOk (f b)"
| "upd_result f (BtThrow e b) = BtThrow e (f b)"
| "upd_result f BtAbort = BtAbort"

abbreviation set_len :: "nat \<Rightarrow> btstream \<Rightarrow> btstream" where
  "set_len n b \<equiv> b\<lparr>current_len := n\<rparr>"

lemma respond_len: "bt_respond env rid body err (set_len n b) = upd_result (set_len n) (bt_respond env rid body err b)"
  by (cases b) (simp add: bt_respond_def bt_send_string_def bt_send_def split: sum.splits option.splits)

lemma handle_reply_len: "handle_reply env msg (set_len n b) = upd_result (set_len n) (handle_reply env msg b)"
  by (cases b) (simp add: handle_reply_def deliver_def update_timeout_def Let_def split: option.splits list.splits prod.splits)

lemma handle_input_len: "handle_input env msg (set_len n b) = upd_result (set_len n) (handle_input env msg b)"
proof -
  have "handle_command env msg (set_len n b) = upd_result (set_len n) (handle_command env msg b)"
    by (cases b)
      (simp add: handle_command_def bt_respond_def bt_send_string_def bt_send_def Let_def
        split: handler_outcome.splits sum.splits option.splits)
  then show ?thesis by (simp add: handle_input_def handle_reply_len)
qed

lemma send_impl_closing: "stream_send_impl data ended keep s = Some s' \<Longrightarrow> is_closing s' = is_closing s"
  by (auto simp: stream_send_impl_def append_buffer_def check_watermark_if_enabled_def check_watermark_def emit_def
      Let_def split: if_splits option.splits)

lemma bt_respond_keeps:
  assumes "bt_respond env rid body err b = BtOk b'"
  shows "size_buf b' = size_buf b" "bt_buf b' = bt_buf b" "max_req_len b' = max_req_len b"
    "is_closing (bt_base b') = is_closing (bt_base b)" "bt_out b' = bt_out b"
  using assms send_impl_closing
  by (auto simp: bt_respond_def bt_send_string_def bt_send_def split: sum.splits option.splits)

lemma handle_input_keeps:
  assumes "handle_input env msg b = BtOk b'"
  shows "size_buf b' = size_buf b \<and> max_req_len b' = max_req_len b \<and>
    is_closing (bt_base b') = is_closing (bt_base b)"
  using assms
  by (auto simp: handle_input_def handle_reply_def handle_command_def deliver_def update_timeout_def Let_def
      dest: bt_respond_keeps split: if_splits option.splits list.splits prod.splits handler_outcome.splits)

section \<open>Frames in any chunks\<close>

text \<open>The frames of a list handled one after the other.\<close>

fun handle_all :: "bt_env \<Rightarrow> bytes list \<Rightarrow> btstream \<Rightarrow> bt_result" where
  "handle_all env [] b = BtOk b"
| "handle_all env (f # fs) b = (case handle_frame env f b of BtOk b \<Rightarrow> handle_all env fs b | r \<Rightarrow> r)"

definition clean :: "btstream \<Rightarrow> btstream" where
  "clean b = b\<lparr>bt_buf := [], size_buf := [], current_len := 0\<rparr>"

text \<open>What has been taken of the frame at hand.\<close>

definition taken :: "btstream \<Rightarrow> bytes" where
  "taken b = (if current_len b = 0 then size_buf b else dec_bytes (current_len b) @ 58 # bt_buf b)"

definition framing_ok :: "btstream \<Rightarrow> bool" where
  "framing_ok b \<longleftrightarrow>
     (if current_len b = 0 then bt_buf b = [] \<and> list_all is_digit_byte (size_buf b) else size_buf b = [] \<and> length (bt_buf b) < current_len b)"

lemma clean_taken: "framing_ok b \<Longrightarrow> taken b = [] \<Longrightarrow> clean b = b"
  by (cases b) (auto simp: clean_def taken_def framing_ok_def split: if_splits)

text \<open>A frame is handled the same with and without the bytes gathered for it.\<close>

lemma handle_frame_clean:
  assumes "size_buf b = []"
  shows "handle_frame env f b =
    (case handle_frame env f (clean b) of BtThrow e b' \<Rightarrow> BtThrow e (set_len (current_len b) b') | r \<Rightarrow> r)"
proof -
  have c: "b\<lparr>bt_buf := []\<rparr> = set_len (current_len b) (clean b)" "(clean b)\<lparr>bt_buf := []\<rparr> = clean b"
    using assms by (cases b; simp add: clean_def)+
  show ?thesis
  proof (cases "message_ctor (bt_items env) f")
    case (Inl e)
    then show ?thesis using c by (simp add: handle_frame_def)
  next
    case (Inr msg)
    show ?thesis
      unfolding handle_frame_def Inr c handle_input_len
      by (cases "handle_input env msg (clean b)") simp_all
  qed
qed

lemma handle_frame_keeps:
  assumes "handle_frame env f b = BtOk b'" and "size_buf b = []"
  shows "clean b' = b'" and "max_req_len b' = max_req_len b"
    and "is_closing (bt_base b') = is_closing (bt_base b)"
proof -
  obtain msg b1 where m: "handle_input env msg (b\<lparr>bt_buf := []\<rparr>) = BtOk b1" "b' = b1\<lparr>bt_buf := [], current_len := 0\<rparr>"
    using assms(1) by (auto simp: handle_frame_def split: sum.splits bt_result.splits)
  note k = handle_input_keeps [OF m(1)]
  show "clean b' = b'" using k assms(2) by (cases b1) (simp add: m(2) clean_def)
  show "max_req_len b' = max_req_len b" "is_closing (bt_base b') = is_closing (bt_base b)" using k by (simp_all add: m(2))
qed

definition good_frame :: "btstream \<Rightarrow> bytes \<Rightarrow> bool" where
  "good_frame b f \<longleftrightarrow> f \<noteq> [] \<and> length f \<le> max_req_len b \<and> max_req_len b < 10 ^ 10"

lemma incoming_partial:
  assumes len: "current_len b = length f" "0 < length f" and sb: "size_buf b = []"
    and split: "bt_buf b @ x @ y = f @ rest"
  shows "length (bt_buf b) + length x < length f \<Longrightarrow>
      incoming_data env x b = Inl ([], b\<lparr>bt_buf := bt_buf b @ x\<rparr>)"
    and "length f \<le> length (bt_buf b) + length x \<Longrightarrow> length (bt_buf b) < length f \<Longrightarrow>
      handle_frame env f (clean b) = BtOk b' \<Longrightarrow>
      \<exists>x'. incoming_data env x b = Inl (x', b') \<and> x' @ y = rest \<and> (\<exists>z. x = z @ x')"
proof -
  assume l: "length (bt_buf b) + length x < length f"
  then show "incoming_data env x b = Inl ([], b\<lparr>bt_buf := bt_buf b @ x\<rparr>)"
    using len by (simp add: incoming_data_def data_accumulator_def Let_def)
next
  assume l: "length f \<le> length (bt_buf b) + length x" "length (bt_buf b) < length f"
    and h: "handle_frame env f (clean b) = BtOk b'"
  let ?k = "length f - length (bt_buf b)"
  have "take (length f) (bt_buf b @ x @ y) = f" unfolding split by simp
  then have f: "bt_buf b @ take ?k x = f" using l by simp
  have "drop (length f) (bt_buf b @ x @ y) = rest" unfolding split by simp
  then have r: "drop ?k x @ y = rest" using l by simp
  have "handle_frame env f b = BtOk b'" using handle_frame_clean [OF sb, of env f] h by simp
  moreover have "data_accumulator (bt_buf b) x (length f) = Some (True, f, drop ?k x)"
  proof -
    have "min (length (bt_buf b) + length x) (length f) = length f" using l(1) by simp
    then show ?thesis unfolding data_accumulator_def Let_def using l(2) f by simp
  qed
  ultimately have "incoming_data env x b = Inl (drop ?k x, b')"
    unfolding incoming_data_def len(1) by simp
  then show "\<exists>x'. incoming_data env x b = Inl (x', b') \<and> x' @ y = rest \<and> (\<exists>z. x = z @ x')"
    using r by (intro exI [of _ "drop ?k x"]) (auto intro: exI [of _ "take ?k x"])
qed

lemma append_eq_cases:
  assumes "x @ y = d @ c # r"
  shows "(\<exists>d'. d = x @ d') \<or> (\<exists>x'. x = d @ c # x' \<and> x' @ y = r)"
  using assms unfolding append_eq_append_conv2 append_eq_Cons_conv by auto

lemma good_frame_cong: "max_req_len b' = max_req_len b \<Longrightarrow> good_frame b' = good_frame b"
  by (simp add: good_frame_def fun_eq_iff)

lemma clean_simps [simp]:
  "size_buf (clean b) = []" "max_req_len (clean b) = max_req_len b" "bt_base (clean b) = bt_base b"
  "bt_buf (clean b) = []" "current_len (clean b) = 0"
  by (simp_all add: clean_def)

lemma clean_eqI:
  "clean (b\<lparr>bt_buf := x\<rparr>) = clean b" "clean (b\<lparr>size_buf := x\<rparr>) = clean b" "clean (b\<lparr>current_len := n\<rparr>) = clean b"
  by (cases b; simp add: clean_def)+

lemma digits_colon: "list_all is_digit_byte d \<Longrightarrow> takeWhile is_digit_byte (d @ 58 # r) = d"
  by (induction d) (simp_all add: colon_not_digit)

text \<open>Digits already taken are a prefix of the length at hand.\<close>

lemma digits_split:
  assumes "list_all is_digit_byte p" "list_all is_digit_byte d" "p @ q = d @ 58 # r"
  shows "\<exists>ds. d = p @ ds \<and> q = ds @ 58 # r"
  using assms by (auto simp: append_eq_append_conv2 append_eq_Cons_conv colon_not_digit)

text \<open>
  A round on data \<open>x\<close> of a frame \<open>f\<close>: it is taken whole and the frame is still incomplete, or the frame is
  handled and \<open>x'\<close> is left.
\<close>

definition absorbed :: "bt_env \<Rightarrow> bytes \<Rightarrow> btstream \<Rightarrow> btstream \<Rightarrow> bool" where
  "absorbed env x b b' \<longleftrightarrow> clean b' = clean b \<and> framing_ok b' \<and> taken b' = taken b @ x"

lemma data_step:
  assumes "current_len b = length f" "f \<noteq> []" "size_buf b = []" "length (bt_buf b) < length f"
    and sp: "bt_buf b @ x @ y = f @ rest" and h: "handle_frame env f (clean b) = BtOk b1"
  shows "(\<exists>b'. incoming_data env x b = Inl ([], b') \<and> absorbed env x b b') \<or>
    (\<exists>x'. incoming_data env x b = Inl (x', b1) \<and> x' @ y = rest)"
proof (cases "length (bt_buf b) + length x < length f")
  case True
  let ?b = "b\<lparr>bt_buf := bt_buf b @ x\<rparr>"
  have "incoming_data env x b = Inl ([], ?b)" using assms True by (intro incoming_partial(1) [OF _ _ _ sp]) auto
  moreover have "absorbed env x b ?b"
    using assms(1-4) True by (simp add: absorbed_def clean_eqI taken_def framing_ok_def)
  ultimately show ?thesis by blast
next
  case False
  then show ?thesis using incoming_partial(2) [OF assms(1) _ assms(3) sp _ assms(4) h] assms(2) by fastforce
qed

lemma round_step:
  assumes sp: "taken b @ x @ y = frame_bytes f @ rest" and ok: "framing_ok b" and gf: "good_frame b f"
    and h: "handle_frame env f (clean b) = BtOk b1"
  shows "(\<exists>b'. incoming_round env x b \<in> {Inl ([], b'), Inr (BtOk b')} \<and> absorbed env x b b') \<or>
    (\<exists>x'. incoming_round env x b = Inl (x', b1) \<and> x' @ y = rest)"
proof -
  have f: "f \<noteq> []" "length f \<le> max_req_len b" "length f < 10 ^ 10" using gf by (auto simp: good_frame_def)
  let ?d = "dec_bytes (length f)"
  note d = dec_bytes_facts(1) [of "length f"]
  show ?thesis
  proof (cases "current_len b = 0")
    case cl: True
    have b: "bt_buf b = []" "list_all is_digit_byte (size_buf b)" using ok cl by (simp_all add: framing_ok_def)
    have "size_buf b @ x @ y = ?d @ 58 # (f @ rest)" using sp cl by (simp add: taken_def frame_bytes_def)
    then obtain ds where ds: "?d = size_buf b @ ds" "x @ y = ds @ 58 # (f @ rest)" using digits_split [OF b(2) d] by blast
    have dg: "list_all is_digit_byte ds" "length (size_buf b) + length ds \<le> MAX_REQ_LEN_ENCODED"
      using d dec_bytes_facts(5) [OF f(3)] unfolding ds(1) by (simp_all add: MAX_REQ_LEN_ENCODED_def)
    consider z where "ds = x @ z" | x' where "x = ds @ 58 # x'" "x' @ y = f @ rest"
      using append_eq_cases [OF ds(2)] by blast
    then show ?thesis
    proof cases
      case 1
      have "prefix_accumulator (size_buf b) x = PrefixMore (size_buf b @ x)" using dg by (intro prefix_more) (simp_all add: 1)
      then have "incoming_round env x b = Inr (BtOk (b\<lparr>size_buf := size_buf b @ x\<rparr>))" by (simp add: incoming_round_def cl)
      moreover have "absorbed env x b (b\<lparr>size_buf := size_buf b @ x\<rparr>)"
        using b dg cl by (simp add: absorbed_def clean_eqI taken_def framing_ok_def 1)
      ultimately show ?thesis by blast
    next
      case 2
      let ?b = "b\<lparr>size_buf := [], current_len := length f\<rparr>"
      have "prefix_accumulator (size_buf b) x = PrefixSize (length f) x'"
        unfolding 2(1) by (rule prefix_complete) (use ds(1) f in simp_all)
      then have r: "incoming_round env x b = incoming_data env x' ?b" using cl f by (simp add: incoming_round_def Let_def)
      have "absorbed env x b b'" if "absorbed env x' ?b b'" for b'
        using that f(1) cl ds(1) b(1) 2(1) by (simp add: absorbed_def clean_eqI taken_def)
      then show ?thesis using data_step [of ?b f x' y rest env b1] f(1) b(1) 2(2) h unfolding r by (auto simp: clean_eqI)
    qed
  next
    case cl: False
    have b: "size_buf b = []" "length (bt_buf b) < current_len b" using ok cl by (simp_all add: framing_ok_def)
    have sp': "dec_bytes (current_len b) @ 58 # (bt_buf b @ x @ y) = ?d @ 58 # (f @ rest)"
      using sp cl by (simp add: taken_def frame_bytes_def)
    then have eq: "dec_bytes (current_len b) = ?d" using digits_colon dec_bytes_facts(1) by metis
    then have "current_len b = length f" by (metis dec_bytes_facts(3))
    then show ?thesis using data_step [of b f x y rest env b1] sp' eq b f(1) h cl by (auto simp: incoming_round_def)
  qed
qed

text \<open>
  A chunk of a stream of good frames: the frames completed by it are handled, and what the state has taken
  of the next one, followed by the bytes still to come, are the frames left.
\<close>

lemma process_chunk:
  "taken b @ x @ y = concat (map frame_bytes fs) \<Longrightarrow> framing_ok b \<Longrightarrow> list_all (good_frame b) fs \<Longrightarrow>
   handle_all env fs (clean b) = BtOk bf \<Longrightarrow>
   \<exists>b' fs'. process_incoming env x b = BtOk b' \<and> taken b' @ y = concat (map frame_bytes fs') \<and> framing_ok b' \<and>
     list_all (good_frame b') fs' \<and> handle_all env fs' (clean b') = BtOk bf \<and>
     is_closing (bt_base b') = is_closing (bt_base b)"
proof (induction "length x" arbitrary: x b fs rule: less_induct)
  case less
  show ?case
  proof (cases "x = []")
    case True
    then show ?thesis using less.prems by (subst process_incoming.simps) auto
  next
    case x: False
    obtain f fs1 where fs: "fs = f # fs1" using less.prems(1) x by (cases fs) auto
    obtain b1 where h: "handle_frame env f (clean b) = BtOk b1" "handle_all env fs1 b1 = BtOk bf"
      using less.prems(4) by (auto simp: fs split: bt_result.splits)
    note k = handle_frame_keeps [OF h(1)]
    consider b' where "incoming_round env x b \<in> {Inl ([], b'), Inr (BtOk b')}" "absorbed env x b b'"
      | x' where "incoming_round env x b = Inl (x', b1)" "x' @ y = concat (map frame_bytes fs1)"
      using round_step [of b x y f "concat (map frame_bytes fs1)" env b1] less.prems h(1) by (auto simp: fs)
    then show ?thesis
    proof cases
      case 1
      have c: "clean b' = clean b" "framing_ok b'" "taken b' = taken b @ x" using 1(2) by (simp_all add: absorbed_def)
      then have e: "max_req_len b' = max_req_len b" "bt_base b' = bt_base b" by (metis clean_simps(2,3))+
      moreover have "process_incoming env x b = BtOk b'"
        using 1(1) x by (subst process_incoming.simps) (auto simp: process_incoming.simps [of env "[]"])
      ultimately show ?thesis
        using less.prems c by (intro exI [of _ b'] exI [of _ fs]) (simp add: good_frame_cong [OF e(1)])
    next
      case 2
      have p: "process_incoming env x b = process_incoming env x' b1" using x 2(1) by (subst process_incoming.simps) simp
      have "taken b1 = []" "framing_ok b1"
        by (subst k(1) [symmetric], simp, simp add: taken_def framing_ok_def)+
      moreover have "list_all (good_frame b1) fs1" using less.prems(3) good_frame_cong [of b1 b] k(2) by (simp add: fs)
      ultimately show ?thesis
        using less.hyps [OF incoming_round_shorter [OF 2(1) x], of b1 fs1] 2(2) h(2) k p by simp
    qed
  qed
qed

section \<open>Requests from one side to the other\<close>

fun bt_feed :: "bt_env \<Rightarrow> bytes list \<Rightarrow> btstream \<Rightarrow> btstream option" where
  "bt_feed env [] b = Some b"
| "bt_feed env (x # xs) b = (case bt_receive env x b of None \<Rightarrow> None | Some b \<Rightarrow> bt_feed env xs b)"

lemma taken_no_frame:
  assumes "taken b = concat (map frame_bytes fs)" "framing_ok b"
  shows "fs = []"
proof (rule ccontr)
  assume "fs \<noteq> []"
  then obtain f fs' where fs: "fs = f # fs'" by (cases fs) auto
  have t: "taken b = dec_bytes (length f) @ 58 # (f @ concat (map frame_bytes fs'))"
    using assms(1) by (simp add: fs frame_bytes_def)
  show False
  proof (cases "current_len b = 0")
    case True
    then have "list_all is_digit_byte (taken b)" using assms(2) by (simp add: taken_def framing_ok_def)
    then show False by (simp add: t colon_not_digit)
  next
    case False
    then have e: "dec_bytes (current_len b) @ 58 # bt_buf b = dec_bytes (length f) @ 58 # (f @ concat (map frame_bytes fs'))"
      using t by (simp add: taken_def)
    then have d: "dec_bytes (current_len b) = dec_bytes (length f)" using digits_colon dec_bytes_facts(1) by metis
    then have "current_len b = length f" by (metis dec_bytes_facts(3))
    moreover have "length f \<le> length (bt_buf b)" using e unfolding d by simp
    ultimately show False using assms(2) False by (simp add: framing_ok_def)
  qed
qed

text \<open>Good frames are handled one after the other, in whatever chunks their bytes arrive.\<close>

lemma feed_frames:
  "taken b @ concat chunks = concat (map frame_bytes fs) \<Longrightarrow> framing_ok b \<Longrightarrow> list_all (good_frame b) fs \<Longrightarrow>
   handle_all env fs (clean b) = BtOk bf \<Longrightarrow> \<not> is_closing (bt_base b) \<Longrightarrow> bt_feed env chunks b = Some bf"
proof (induction chunks arbitrary: b fs)
  case Nil
  then have "fs = []" using taken_no_frame by simp
  then show ?case using Nil clean_taken [of b] by simp
next
  case (Cons x xs)
  obtain b' fs' where "process_incoming env x b = BtOk b'" "taken b' @ concat xs = concat (map frame_bytes fs')" "framing_ok b'"
     "list_all (good_frame b') fs'" "handle_all env fs' (clean b') = BtOk bf" "is_closing (bt_base b') = is_closing (bt_base b)"
    using process_chunk [of b x "concat xs" fs env bf] Cons.prems by auto
  then show ?case using Cons.IH [of b' fs'] Cons.prems(5) by (simp add: bt_receive_def)
qed

type_synonym request = "bytes \<times> bytes \<times> nat option \<times> int option \<times> bool"

fun run_commands :: "bt_env \<Rightarrow> request list \<Rightarrow> btstream \<Rightarrow> bt_result" where
  "run_commands env [] b = BtOk b"
| "run_commands env ((ep, body, cb, timeout, after) # rs) b =
     (case command env ep body cb timeout after b of BtOk b \<Rightarrow> run_commands env rs b | r \<Rightarrow> r)"

fun request_frames :: "bt_env \<Rightarrow> int \<Rightarrow> request list \<Rightarrow> bytes list" where
  "request_frames env rid [] = []"
| "request_frames env rid ((ep, body, _) # rs) = encode_command env ep rid body # request_frames env (rid + 1) rs"

fun request_messages :: "int \<Rightarrow> request list \<Rightarrow> message list" where
  "request_messages rid [] = []"
| "request_messages rid ((ep, body, _) # rs) =
     \<lparr>msg_type = TYPE_COMMAND, req_id = rid, msg_endpoint = ep, msg_body = body\<rparr> # request_messages (rid + 1) rs"

definition handler_call :: "btstream \<Rightarrow> message \<Rightarrow> bt_call" where
  "handler_call b m =
     (if msg_endpoint m \<in> set (registered_endpoints b) then EndpointHandler (msg_endpoint m) m else GenericHandler m)"

definition can_send :: "bt_env \<Rightarrow> btstream \<Rightarrow> bool" where
  "can_send env b \<longleftrightarrow> conn (bt_base b) \<and> \<not> conn_ended env \<and> \<not> is_closing (bt_base b) \<and> \<not> send_fin (bt_base b) \<and>
     \<not> sent_fin (bt_base b)"

lemma send_impl_sends:
  assumes "data \<noteq> []" "conn s" "\<not> is_closing s" "\<not> send_fin s" "\<not> sent_fin s"
  shows "\<exists>s'. stream_send_impl data False keep s = Some s' \<and> buf_cat (user_buffers s') = buf_cat (user_buffers s) @ data \<and>
    conn s' \<and> \<not> is_closing s' \<and> \<not> send_fin s' \<and> \<not> sent_fin s'"
  using assms by (simp add: stream_send_impl_def append_buffer_def check_watermark_if_enabled_eq Let_def)

lemma bt_send_sends:
  assumes "can_send env b" "data \<noteq> []"
  shows "\<exists>b'. bt_send env data keep b = BtOk b' \<and> can_send env b' \<and> max_req_len b' = max_req_len b \<and>
    next_rid b' = next_rid b \<and> buf_cat (user_buffers (bt_base b')) = buf_cat (user_buffers (bt_base b)) @ data"
  using send_impl_sends [of data "bt_base b" keep] assms by (auto simp: can_send_def bt_send_def)


lemma command_sends:
  assumes "can_send env b" "bt_serialize env f = data" "f = encode_command env ep (next_rid b) body" "data \<noteq> []"
    "length data \<le> max_req_len b"
  shows "\<exists>b'. command env ep body cb timeout after b = BtOk b' \<and> can_send env b' \<and> max_req_len b' = max_req_len b \<and>
    next_rid b' = next_rid b + 1 \<and> buf_cat (user_buffers (bt_base b')) = buf_cat (user_buffers (bt_base b)) @ data"
proof -
  have s: "\<exists>b'. bt_send env data keep b1 = BtOk b' \<and> can_send env b' \<and> max_req_len b' = max_req_len b \<and>
      next_rid b' = next_rid b + 1 \<and> buf_cat (user_buffers (bt_base b')) = buf_cat (user_buffers (bt_base b)) @ data"
    if "bt_base b1 = bt_base b" "max_req_len b1 = max_req_len b" "next_rid b1 = next_rid b + 1" for keep b1
    using bt_send_sends [of env b1 data keep] assms(1,4) that by (simp add: can_send_def)
  have "\<not> is_closing (bt_base b)" using assms(1) by (simp add: can_send_def)
  then show ?thesis
    unfolding command_def sent_request_ctor_def Let_def
    using assms(2,3,5) s by (simp add: bt_send_string_def add_sent_request_def Let_def)
qed

lemma run_commands_sends:
  assumes "\<And>f. bt_serialize env f = frame_bytes f"
  shows "can_send env b \<Longrightarrow> list_all (\<lambda>f. length (frame_bytes f) \<le> max_req_len b) (request_frames env (next_rid b) rs) \<Longrightarrow>
    \<exists>b'. run_commands env rs b = BtOk b' \<and>
      buf_cat (user_buffers (bt_base b')) =
        buf_cat (user_buffers (bt_base b)) @ concat (map frame_bytes (request_frames env (next_rid b) rs))"
proof (induction rs arbitrary: b)
  case (Cons r rs)
  obtain ep body cb timeout after where r: "r = (ep, body, cb, timeout, after)" by (cases r)
  have "frame_bytes (encode_command env ep (next_rid b) body) \<noteq> []" by (simp add: frame_bytes_def)
  then obtain b1 where c: "command env ep body cb timeout after b = BtOk b1" "can_send env b1" "max_req_len b1 = max_req_len b"
    "next_rid b1 = next_rid b + 1"
    "buf_cat (user_buffers (bt_base b1)) =
      buf_cat (user_buffers (bt_base b)) @ frame_bytes (encode_command env ep (next_rid b) body)"
    using command_sends [OF Cons.prems(1) assms refl] Cons.prems(2) by (simp add: r) blast
  then show ?case using Cons.IH [OF c(2)] Cons.prems(2) by (simp add: r)
qed simp

lemma request_frame_handled:
  assumes "\<And>vs. bt_items er (bt_list es vs) = Some vs" "\<And>m. handler er m = HandlerOk" "generic_handler b"
    "clean b = b" "int64_ok rid"
  shows "handle_frame er (encode_command es ep rid body) b =
    BtOk (b\<lparr>bt_out := bt_out b @
      [handler_call b \<lparr>msg_type = TYPE_COMMAND, req_id = rid, msg_endpoint = ep, msg_body = body\<rparr>]\<rparr>)"
proof -
  have "b\<lparr>bt_buf := []\<rparr> = b" "current_len b = 0" using assms(4) by (cases b; simp add: clean_def)+
  then show ?thesis
    using assms
    by (cases b) (simp add: handle_frame_def encode_command_def message_ctor_def handle_input_def handle_command_def
        handler_call_def TYPE_COMMAND_def TYPE_REPLY_def TYPE_ERROR_def)
qed

lemma request_frames_handled:
  assumes "\<And>vs. bt_items er (bt_list es vs) = Some vs" "\<And>m. handler er m = HandlerOk"
  shows "generic_handler b \<Longrightarrow> clean b = b \<Longrightarrow> 0 \<le> rid \<Longrightarrow> rid + int (length rs) \<le> 2 ^ 63 \<Longrightarrow>
    handle_all er (request_frames es rid rs) b =
      BtOk (b\<lparr>bt_out := bt_out b @ map (handler_call b) (request_messages rid rs)\<rparr>)"
proof (induction rs arbitrary: b rid)
  case (Cons r rs)
  obtain ep body x where r: "r = (ep, body, x)" by (cases r)
  have i: "int64_ok rid" using Cons.prems(3,4) by (simp add: int64_ok_def)
  let ?m = "\<lparr>msg_type = TYPE_COMMAND, req_id = rid, msg_endpoint = ep, msg_body = body\<rparr>"
  let ?b = "b\<lparr>bt_out := bt_out b @ [handler_call b ?m]\<rparr>"
  have "clean ?b = ?b" using Cons.prems(2) by (cases b) (simp add: clean_def)
  moreover have "handler_call ?b = handler_call b" by (simp add: handler_call_def fun_eq_iff)
  ultimately show ?case
    using Cons.IH [of ?b "rid + 1"] Cons.prems request_frame_handled [OF assms Cons.prems(1,2) i, of ep body]
    by (simp add: r)
qed simp

section \<open>An example of the encoding parameters\<close>

text \<open>
  A list encoding with a decoder, to show that the laws assumed of the encoding can hold: a string is
  its bytes each after a 1, then a 0; a number is its sign and as many 1s, then a 0.
\<close>

fun example_value :: "bt_value \<Rightarrow> bytes" where
  "example_value (BStr s) = 115 # concat (map (\<lambda>c. [1, c]) s) @ [0]"
| "example_value (BInt n) = (if n < 0 then 45 else 43) # replicate (nat \<bar>n\<bar>) 1 @ [0]"

definition example_list :: "bt_value list \<Rightarrow> bytes" where
  "example_list vs = concat (map example_value vs) @ [101]"

fun example_str :: "bytes \<Rightarrow> (bytes \<times> bytes) option" where
  "example_str (t # c # r) = (if t = 0 then Some ([], c # r) else map_option (\<lambda>(s, r'). (c # s, r')) (example_str r))"
| "example_str _ = None"

fun example_int :: "bytes \<Rightarrow> (int \<times> bytes) option" where
  "example_int [] = None"
| "example_int (t # r) = (if t = 0 then Some (0, r) else map_option (\<lambda>(n, r'). (n + 1, r')) (example_int r))"

fun example_items :: "nat \<Rightarrow> bytes \<Rightarrow> bt_value list option" where
  "example_items (Suc n) (t # r) =
     (if t = 101 then Some []
      else if t = 115 then (case example_str r of None \<Rightarrow> None | Some (s, r) \<Rightarrow> map_option (Cons (BStr s)) (example_items n r))
      else case example_int r of
             None \<Rightarrow> None
           | Some (i, r) \<Rightarrow> map_option (Cons (BInt (if t = 45 then - i else i))) (example_items n r))"
| "example_items _ _ = None"

lemma example_str_inv: "r \<noteq> [] \<Longrightarrow> example_str (concat (map (\<lambda>c. [1, c]) s) @ 0 # r) = Some (s, r)"
  by (induction s) (cases r; simp)+

lemma example_int_inv: "example_int (replicate n 1 @ 0 # r) = Some (int n, r)"
  by (induction n) auto

lemma example_items_inv: "length vs < n \<Longrightarrow> example_items n (example_list vs) = Some vs"
proof (induction vs arbitrary: n)
  case Nil
  then show ?case by (cases n) (simp_all add: example_list_def)
next
  case (Cons v vs)
  obtain n' where n: "n = Suc n'" "length vs < n'" using Cons.prems by (cases n) auto
  have e: "example_list (v # vs) = example_value v @ example_list vs" by (simp add: example_list_def)
  have "example_list vs \<noteq> []" by (simp add: example_list_def)
  then show ?case
    unfolding e n(1) using Cons.IH [OF n(2)] by (cases v) (simp_all add: example_str_inv example_int_inv)
qed

lemma example_list_length: "length vs < length (example_list vs)"
proof (induction vs)
  case (Cons v vs)
  have "1 \<le> length (example_value v)" by (cases v) simp_all
  then show ?case using Cons unfolding example_list_def by (simp del: One_nat_def)
qed (simp add: example_list_def)

definition bt_example :: bt_env where
  "bt_example = \<lparr>bt_items = (\<lambda>x. example_items (length x) x), bt_list = example_list, bt_serialize = frame_bytes,
     handler = (\<lambda>_. HandlerOk), conn_ended = False, clock = 0\<rparr>"

section \<open>Main results\<close>

text \<open>
  C12: Requests reach the other side's handlers whatever the chunks. The sender issues commands on a stream that can
  send; the bytes it has queued, received by the other side in any chunks at all, make it call for each
  command, in order, the handler of its endpoint (or the generic one) with the message of that
  command, the ids counting up; nothing else of the receiver changes. Assumed of the encoding: decoding a
  list gives back its items, and a serialised string is its length, a colon, and the string.
\<close>

theorem bt_requests_arrive:
  assumes "\<And>vs. bt_items er (bt_list es vs) = Some vs" and "\<And>vs. bt_list es vs \<noteq> []"
    and "\<And>s. bt_serialize es s = frame_bytes s"
    and "can_send es a" "user_buffers (bt_base a) = []" "0 \<le> next_rid a" "next_rid a + int (length rs) \<le> 2 ^ 63"
    and "list_all (\<lambda>f. length (frame_bytes f) \<le> max_req_len a) (request_frames es (next_rid a) rs)"
    and "clean b = b" "\<not> is_closing (bt_base b)" "max_req_len a \<le> max_req_len b" "max_req_len b < MAX_REQ_LEN_LIMIT"
    and "\<And>m. handler er m = HandlerOk" "generic_handler b"
  shows "\<exists>a'. run_commands es rs a = BtOk a' \<and>
    (\<forall>chunks. concat chunks = buf_cat (user_buffers (bt_base a')) \<longrightarrow>
       bt_feed er chunks b =
         Some (b\<lparr>bt_out := bt_out b @ map (handler_call b) (request_messages (next_rid a) rs)\<rparr>))"
proof -
  let ?fs = "request_frames es (next_rid a) rs"
  obtain a' where a': "run_commands es rs a = BtOk a'" "buf_cat (user_buffers (bt_base a')) = concat (map frame_bytes ?fs)"
    using run_commands_sends [OF assms(3,4,8)] assms(5) by auto
  have fs: "f \<noteq> []" if "f \<in> set (request_frames es rid rs)" for f rid
    using that assms(2) [symmetric] by (induction rs arbitrary: rid) (auto simp: encode_command_def)
  have "good_frame b f" if "f \<in> set ?fs" for f
  proof -
    have "length (frame_bytes f) \<le> max_req_len a" using assms(8) that by (auto simp: list_all_iff)
    then show ?thesis
      using fs [OF that] assms(11,12) by (simp add: good_frame_def frame_bytes_def MAX_REQ_LEN_LIMIT_def)
  qed
  then have g: "list_all (good_frame b) ?fs" by (simp add: list_all_iff)
  have "taken (clean b) = []" "framing_ok (clean b)" by (simp_all add: taken_def framing_ok_def)
  then have t: "taken b = []" "framing_ok b" unfolding assms(9) .
  have h: "handle_all er ?fs (clean b) = BtOk (b\<lparr>bt_out := bt_out b @ map (handler_call b) (request_messages (next_rid a) rs)\<rparr>)"
    unfolding assms(9) by (rule request_frames_handled [OF assms(1,13,14,9,6,7)])
  have "bt_feed er chunks b = Some (b\<lparr>bt_out := bt_out b @ map (handler_call b) (request_messages (next_rid a) rs)\<rparr>)"
    if "concat chunks = buf_cat (user_buffers (bt_base a'))" for chunks
    by (rule feed_frames [OF _ t(2) g h assms(10)]) (simp add: that t(1) a'(2))
  then show ?thesis using a'(1) by blast
qed

theorem bt_requests_arrive_witness:
  "\<exists>a'. run_commands bt_example [([112], [1, 2], None, None, False), ([113], [], Some 7, Some 5, True)]
      (bt_ctor (stream_ctor True [])) = BtOk a' \<and>
    (\<forall>chunks. concat chunks = buf_cat (user_buffers (bt_base a')) \<longrightarrow>
       bt_feed bt_example chunks (register_handler [113] (handle_opt_generic (bt_ctor (stream_ctor True [])))) =
         Some ((register_handler [113] (handle_opt_generic (bt_ctor (stream_ctor True []))))\<lparr>bt_out :=
           [GenericHandler \<lparr>msg_type = TYPE_COMMAND, req_id = 0, msg_endpoint = [112], msg_body = [1, 2]\<rparr>,
            EndpointHandler [113] \<lparr>msg_type = TYPE_COMMAND, req_id = 1, msg_endpoint = [113], msg_body = []\<rparr>]\<rparr>))"
proof -
  let ?a = "bt_ctor (stream_ctor True [])"
  let ?b = "register_handler [113] (handle_opt_generic ?a)"
  let ?rs = "[([112], [1, 2], None, None, False), ([113], [], Some 7, Some 5, True)]
    :: (bytes \<times> bytes \<times> nat option \<times> int option \<times> bool) list"
  note ev = bt_ctor_def stream_ctor_def stream_base_ctor_def stream_set_default_callbacks_def register_handler_def
    handle_opt_generic_def
  have 1: "bt_items bt_example (bt_list bt_example vs) = Some vs" "bt_list bt_example vs \<noteq> []" for vs
    using example_items_inv [OF example_list_length, of vs] by (simp_all add: bt_example_def example_list_def)
  have 2: "bt_serialize bt_example s = frame_bytes s" "handler bt_example m = HandlerOk" for s m by (simp_all add: bt_example_def)
  have 3: "can_send bt_example ?a" "user_buffers (bt_base ?a) = []" "0 \<le> next_rid ?a" "next_rid ?a + int (length ?rs) \<le> 2 ^ 63"
    by (simp_all add: can_send_def bt_example_def ev)
  have 4: "list_all (\<lambda>f. length (frame_bytes f) \<le> max_req_len ?a) (request_frames bt_example (next_rid ?a) ?rs)"
    by (simp add: ev frame_bytes_def dec_bytes_def encode_command_def bt_example_def example_list_def TYPE_COMMAND_def
        DEFAULT_MAX_REQ_LEN_def digits10.simps)
  have 5: "clean ?b = ?b" "\<not> is_closing (bt_base ?b)" "max_req_len ?a \<le> max_req_len ?b" "max_req_len ?b < MAX_REQ_LEN_LIMIT"
    "generic_handler ?b"
    by (simp_all add: ev clean_def DEFAULT_MAX_REQ_LEN_def MAX_REQ_LEN_LIMIT_def)
  have 6: "bt_out ?b @ map (handler_call ?b) (request_messages (next_rid ?a) ?rs) =
      [GenericHandler \<lparr>msg_type = TYPE_COMMAND, req_id = 0, msg_endpoint = [112], msg_body = [1, 2]\<rparr>,
       EndpointHandler [113] \<lparr>msg_type = TYPE_COMMAND, req_id = 1, msg_endpoint = [113], msg_body = []\<rparr>]"
    by (simp add: ev handler_call_def)
  show ?thesis using bt_requests_arrive [OF 1 2(1) 3 4 5(1-4) 2(2) 5(5)] unfolding 6 .
qed

text \<open>
  C29: An empty frame ends the processing of the chunk it arrives in: between two frames, whatever follows
  \<open>0:\<close> in the same chunk is dropped and the stream is as before, requests and
  responses in it included, while in a chunk of their own the same bytes are processed.
\<close>

theorem bt_empty_frame_drops_chunk:
  assumes "\<not> is_closing (bt_base b)" "clean b = b"
  shows "bt_receive env (48 # 58 # rest) b = Some b \<and>
    bt_feed env [[48, 58], rest] b = bt_feed env [rest] b"
proof -
  have b: "current_len b = 0" "size_buf b = []" using assms(2) by (metis clean_simps)+
  then have "b\<lparr>size_buf := [], current_len := 0\<rparr> = b" by (cases b) simp
  moreover have "prefix_accumulator [] (48 # 58 # x) = PrefixSize 0 x" for x
    by (simp add: is_digit_byte_def digit_of_byte_def MAX_REQ_LEN_ENCODED_def undigits10_def)
  ultimately have "process_incoming env (48 # 58 # x) b = BtOk b" for x
    by (subst process_incoming.simps) (simp add: incoming_round_def b Let_def)
  then show ?thesis using assms(1) by (simp add: bt_receive_def)
qed

theorem bt_empty_frame_drops_chunk_witness:
  "bt_receive bt_example ([48, 58] @ frame_bytes (encode_command bt_example [112] 0 [1])) (bt_ctor (stream_ctor True [])) =
     Some (bt_ctor (stream_ctor True []))"
proof -
  have "\<not> is_closing (bt_base (bt_ctor (stream_ctor True [])))" "clean (bt_ctor (stream_ctor True [])) = bt_ctor (stream_ctor True [])"
    by (simp_all add: bt_ctor_def clean_def stream_ctor_def stream_base_ctor_def stream_set_default_callbacks_def)
  then show ?thesis using bt_empty_frame_drops_chunk by simp
qed

end
