(* ===== verification/BTStream_Requests.thy ===== *)
theory BTStream_Requests
  imports BTStream_Frames
begin

text \<open>
  The bookkeeping of requests in \<open>BTRequestStream\<close>: the table of sent requests, their expiries and the timer agree
  over every run of the stream, and every response callback is called exactly once.
\<close>

section \<open>The ledger of requests\<close>

text \<open>The request map, the expiries and the id counter agree: one expiry per request, in the order of time.\<close>

definition expiry_entry :: "int \<times> sent_request \<Rightarrow> int \<times> int" where
  "expiry_entry p = (sr_expiry (snd p), fst p)"

definition ledger :: "int \<Rightarrow> (int \<times> sent_request) list \<Rightarrow> (int \<times> int) list \<Rightarrow> bool" where
  "ledger rid reqs es \<longleftrightarrow> distinct (map fst reqs) \<and> (\<forall>(i, sr) \<in> set reqs. sr_id sr = i \<and> i < rid) \<and>
     sorted (map fst es) \<and> mset es = mset (map expiry_entry reqs)"

lemma ledger_put:
  assumes "ledger rid reqs es" "sr_id sr = rid"
  shows "ledger (rid + 1) (map_put rid sr reqs) (multimap_emplace (sr_expiry sr) rid es)"
    and "mset (map_put rid sr reqs) = add_mset (rid, sr) (mset reqs)"
proof -
  have n: "rid \<notin> fst ` set reqs" using assms(1) by (auto simp: ledger_def)
  show m: "mset (map_put rid sr reqs) = add_mset (rid, sr) (mset reqs)" by (rule mset_map_put [OF n])
  then have s: "set (map_put rid sr reqs) = insert (rid, sr) (set reqs)" by (metis set_mset_add_mset_insert set_mset_mset)
  have "mset (map fst (map_put rid sr reqs)) = mset (rid # map fst reqs)" using m by simp
  then have "distinct (map fst (map_put rid sr reqs))"
    using assms(1) n by (metis distinct.simps(2) ledger_def list.set_map mset_eq_imp_distinct_iff)
  then show "ledger (rid + 1) (map_put rid sr reqs) (multimap_emplace (sr_expiry sr) rid es)"
    using assms s m
    by (auto simp: ledger_def mset_multimap_emplace sorted_multimap_emplace expiry_entry_def)
qed

lemma ledger_erase:
  assumes "ledger rid reqs es" "map_of reqs i = Some sr"
  shows "ledger rid (map_erase i reqs) (remove1 (sr_expiry sr, sr_id sr) es)"
    and "mset reqs = add_mset (i, sr) (mset (map_erase i reqs))" and "sr_id sr = i"
    and "(sr_expiry sr, i) \<in> set es"
proof -
  have mem: "(i, sr) \<in> set reqs" using assms(2) by (rule map_of_SomeD)
  show i: "sr_id sr = i" using mem assms(1) by (auto simp: ledger_def)
  show m: "mset reqs = add_mset (i, sr) (mset (map_erase i reqs))"
    by (rule mset_map_erase [OF _ assms(2)]) (use assms(1) in \<open>simp add: ledger_def\<close>)
  have es: "mset es = add_mset (sr_expiry sr, i) (mset (map expiry_entry (map_erase i reqs)))"
    using assms(1) m by (simp add: ledger_def expiry_entry_def)
  then have m': "mset (remove1 (sr_expiry sr, i) es) = mset (map expiry_entry (map_erase i reqs))" by simp
  show "(sr_expiry sr, i) \<in> set es" using es by (metis set_mset_mset union_single_eq_member)
  have "distinct (map fst (map_erase i reqs))" "set (map_erase i reqs) \<subseteq> set reqs"
    using assms(1) by (auto simp: ledger_def map_erase_def intro: distinct_map_filter)
  moreover have "sorted (map fst (remove1 (sr_expiry sr, i) es))"
    using assms(1) by (auto simp: ledger_def sorted_map_remove1)
  ultimately show "ledger rid (map_erase i reqs) (remove1 (sr_expiry sr, sr_id sr) es)"
    using assms(1) i m' by (auto simp: ledger_def simp del: mset_remove1)
qed

lemma ledger_entry:
  assumes "ledger rid reqs es" "(t, i) \<in> set es"
  shows "\<exists>sr. map_of reqs i = Some sr \<and> sr_expiry sr = t"
proof -
  have "(t, i) \<in> set (map expiry_entry reqs)" using assms by (metis ledger_def set_mset_mset)
  then obtain sr where "(i, sr) \<in> set reqs" "sr_expiry sr = t" by (auto simp: expiry_entry_def)
  then show ?thesis using assms(1) by (auto simp: ledger_def)
qed

definition due :: "int option \<Rightarrow> int \<times> sent_request \<Rightarrow> bool" where
  "due now p \<longleftrightarrow> now = None \<or> sr_expiry (snd p) \<le> the now"

lemma take_expired_spec:
  "ledger rid reqs es \<Longrightarrow> take_expired now es reqs = (ex, es', reqs') \<Longrightarrow>
   ledger rid reqs' es' \<and> reqs' = filter (Not \<circ> due now) reqs \<and>
   mset ex = mset (map snd (filter (due now) reqs))"
proof (induction now es reqs arbitrary: ex es' reqs' rule: take_expired.induct)
  case (1 now reqs)
  then show ?case by (auto simp: ledger_def)
next
  case (2 now t i es reqs)
  obtain sr where sr: "map_of reqs i = Some sr" "sr_expiry sr = t" using ledger_entry [OF 2(3)] by fastforce
  note e = ledger_erase [OF 2(3) sr(1)]
  show ?case
  proof (cases "now = None \<or> t \<le> the now")
    case True
    obtain ex1 where ex: "take_expired now es (map_erase i reqs) = (ex1, es', reqs')" "ex = sr # ex1"
      using 2(4) True sr(1) by (auto split: prod.splits)
    have d: "due now (i, sr)" using True sr(2) by (simp add: due_def)
    have l: "ledger rid (map_erase i reqs) es" using e(1,3) sr(2) by simp
    note IH = 2(2) [OF True sr(1) l ex(1)]
    have f: "filter (Not \<circ> due now) (map_erase i reqs) = filter (Not \<circ> due now) reqs"
    proof -
      have "i \<noteq> fst p" if "p \<in> set reqs" "\<not> due now p" for p
      proof
        assume "i = fst p"
        moreover have "map_of reqs (fst p) = Some (snd p)" using 2(3) that(1) by (simp add: ledger_def)
        ultimately show False using sr(1) d that(2) by (cases p) simp
      qed
      then have "(fst p \<noteq> i \<and> \<not> due now p) = (\<not> due now p)" if "p \<in> set reqs" for p using that by blast
      then show ?thesis by (simp add: map_erase_def case_prod_unfold conj_commute cong: filter_cong)
    qed
    have "mset (filter (due now) reqs) = add_mset (i, sr) (mset (filter (due now) (map_erase i reqs)))"
      using e(2) d by simp
    then show ?thesis using IH f by (auto simp: ex(2) comp_def)
  next
    case False
    have "\<not> due now p" if "p \<in> set reqs" for p
    proof -
      have "expiry_entry p \<in> set ((t, i) # es)" using 2(3) that by (metis image_eqI ledger_def list.set_map set_mset_mset)
      then have "t \<le> sr_expiry (snd p)" using 2(3) by (auto simp: ledger_def expiry_entry_def)
      then show ?thesis using False by (simp add: due_def)
    qed
    then show ?thesis using 2(3,4) False by (auto simp: filter_id_conv filter_empty_conv)
  qed
qed

section \<open>Running a request stream\<close>

datatype bt_op =
    BtCommand bytes bytes "nat option" "int option" bool
  | BtRespond int bytes bool
  | BtReceive bytes
  | BtTimer
  | BtClosed nat
  | BtRegister bytes
  | BtRegisterGeneric
  | BtBase stream_op

fun bt_state :: "bt_result \<Rightarrow> btstream option" where
  "bt_state (BtOk b) = Some b"
| "bt_state (BtThrow e b) = Some b"
| "bt_state BtAbort = None"

fun bt_act :: "bt_env \<Rightarrow> bt_op \<Rightarrow> btstream \<Rightarrow> btstream option" where
  "bt_act env (BtCommand ep body cb timeout after) b = bt_state (command env ep body cb timeout after b)"
| "bt_act env (BtRespond rid body err) b = bt_state (bt_respond env rid body err b)"
| "bt_act env (BtReceive data) b = bt_receive env data b"
| "bt_act env BtTimer b = Some (on_timeout (clock env) b)"
| "bt_act env (BtClosed code) b = Some (bt_closed code b)"
| "bt_act env (BtRegister ep) b = Some (register_handler ep b)"
| "bt_act env BtRegisterGeneric b = Some (register_generic_handler b)"
| "bt_act env (BtBase x) b = map_option (\<lambda>s. b\<lparr>bt_base := s\<rparr>) (stream_step x (bt_base b))"

text \<open>The state of a run is the stream and the time of its last operation.\<close>

fun bt_step :: "bt_env \<times> bt_op \<Rightarrow> int \<times> btstream \<Rightarrow> (int \<times> btstream) option" where
  "bt_step (env, x) (now, b) = map_option (Pair (clock env)) (bt_act env x b)"

fun bt_op_ok :: "bt_env \<times> bt_op \<Rightarrow> int \<times> btstream \<Rightarrow> bool" where
  "bt_op_ok (env, x) (now, b) \<longleftrightarrow> now \<le> clock env"

text \<open>The timer is armed when a request is waiting: not before the first expiry and within a microsecond of it.\<close>

definition timer_armed :: "int \<Rightarrow> (int \<times> int) list \<Rightarrow> int option \<Rightarrow> bool" where
  "timer_armed now es timer =
     (case es of [] \<Rightarrow> timer = None
      | (first, _) # _ \<Rightarrow> (\<exists>t. timer = Some t \<and> first \<le> t \<and> t < max first now + 1000))"

definition bt_inv :: "int \<Rightarrow> btstream \<Rightarrow> bool" where
  "bt_inv now b \<longleftrightarrow> ledger (next_rid b) (sent_reqs b) (req_expiries b) \<and> timer_armed now (req_expiries b) (timer_at b) \<and>
     (timer_at b \<noteq> None \<longrightarrow> timeout_event b)"

text \<open>How often callback \<open>f\<close> has been called, and how many waiting requests have it.\<close>

definition answered :: "nat \<Rightarrow> btstream \<Rightarrow> nat" where
  "answered f b = length (filter (\<lambda>c. case c of ResponseCallback g _ \<Rightarrow> g = f | _ \<Rightarrow> False) (bt_out b))"

definition has_cb :: "nat \<Rightarrow> sent_request \<Rightarrow> bool" where
  "has_cb f sr \<longleftrightarrow> sr_cb sr = Some f"

definition waiting :: "nat \<Rightarrow> btstream \<Rightarrow> nat" where
  "waiting f b = length (filter (has_cb f \<circ> snd) (sent_reqs b))"

definition owed :: "nat \<Rightarrow> btstream \<Rightarrow> nat" where
  "owed f b = answered f b + waiting f b"

lemma waiting_mset: "waiting f b = size (filter_mset (has_cb f) (mset (map snd (sent_reqs b))))"
  unfolding waiting_def by (simp add: filter_mset_image_mset flip: mset_filter mset_map)

lemma answered_deliver: "answered f (deliver r sr b) = answered f b + of_bool (has_cb f sr)"
  by (simp add: deliver_def answered_def has_cb_def split: option.splits)

lemma deliver_fields [simp]:
  "sent_reqs (deliver r sr b) = sent_reqs b" "req_expiries (deliver r sr b) = req_expiries b"
  "next_rid (deliver r sr b) = next_rid b" "timer_at (deliver r sr b) = timer_at b"
  "timeout_event (deliver r sr b) = timeout_event b" "bt_base (deliver r sr b) = bt_base b"
  by (simp_all add: deliver_def split: option.splits)


lemma update_timeout_armed:
  assumes "timer_at b \<noteq> None \<longrightarrow> timeout_event b"
  shows "timer_armed now (req_expiries b) (timer_at (update_timeout now b))"
    "timer_at (update_timeout now b) \<noteq> None \<longrightarrow> timeout_event (update_timeout now b)"
proof -
  have c: "x \<le> 1000 * (- ((- x) div 1000))" "1000 * (- ((- x) div 1000)) < x + 1000" for x :: int
    by linarith+
  show "timer_armed now (req_expiries b) (timer_at (update_timeout now b))"
  proof (cases "req_expiries b")
    case Nil
    then show ?thesis using assms by (auto simp: update_timeout_def timer_armed_def)
  next
    case (Cons e es)
    obtain first i where e: "e = (first, i)" by (cases e)
    show ?thesis
      using c [of "first - now"] by (auto simp: update_timeout_def timer_armed_def Cons e Let_def max_def)
  qed
  show "timer_at (update_timeout now b) \<noteq> None \<longrightarrow> timeout_event (update_timeout now b)"
    using assms by (auto simp: update_timeout_def Let_def split: list.splits prod.splits)
qed

lemma timer_armed_mono: "timer_armed T es t \<Longrightarrow> T \<le> now \<Longrightarrow> timer_armed now es t"
  by (auto simp: timer_armed_def split: list.splits)

text \<open>An operation that changes none of these fields keeps the invariant and the callbacks owed.\<close>

definition same_ledger :: "btstream \<Rightarrow> btstream \<Rightarrow> bool" where
  "same_ledger b b' \<longleftrightarrow> sent_reqs b' = sent_reqs b \<and> req_expiries b' = req_expiries b \<and> next_rid b' = next_rid b \<and>
     timer_at b' = timer_at b \<and> timeout_event b' = timeout_event b \<and> (\<forall>f. answered f b' = answered f b)"

lemma same_ledgerD: "same_ledger b b' \<Longrightarrow> bt_inv now b' = bt_inv now b" "same_ledger b b' \<Longrightarrow> owed f b' = owed f b"
  by (simp_all add: same_ledger_def bt_inv_def owed_def waiting_def)

lemma same_ledger_trans: "same_ledger a b \<Longrightarrow> same_ledger b c \<Longrightarrow> same_ledger a c"
  by (simp add: same_ledger_def)

lemma bt_send_same: "bt_state (bt_send env data keep b) = Some b' \<Longrightarrow> same_ledger b b'"
  by (auto simp: bt_send_def same_ledger_def answered_def split: option.splits)

lemma bt_respond_same: "bt_state (bt_respond env rid body err b) = Some b' \<Longrightarrow> same_ledger b b'"
  by (auto simp: bt_respond_def bt_send_string_def bt_send_def same_ledger_def answered_def split: sum.splits option.splits)

text \<open>What a step does to the ledger: the invariant holds at its time, and it owes \<open>n\<close> more calls of \<open>f\<close>.\<close>

definition keeps_ledger :: "int \<Rightarrow> (nat \<Rightarrow> nat) \<Rightarrow> btstream \<Rightarrow> btstream \<Rightarrow> bool" where
  "keeps_ledger now n b b' \<longleftrightarrow> bt_inv now b' \<and> (\<forall>f. owed f b' = owed f b + n f)"

lemma keeps_same:
  assumes "bt_inv T b" "T \<le> now" "same_ledger b b'"
  shows "keeps_ledger now (\<lambda>_. 0) b b'"
  using assms timer_armed_mono [of T "req_expiries b" "timer_at b" now] same_ledgerD(1) [OF assms(3), of now]
  by (simp add: keeps_ledger_def same_ledgerD(2) bt_inv_def)

lemma keeps_trans:
  "keeps_ledger now (\<lambda>_. 0) a b \<Longrightarrow> keeps_ledger now n b c \<Longrightarrow> keeps_ledger now n a c"
  "keeps_ledger now n a b \<Longrightarrow> keeps_ledger now (\<lambda>_. 0) b c \<Longrightarrow> keeps_ledger now n a c"
  by (simp_all add: keeps_ledger_def)

lemma keeps_then_same: "keeps_ledger now n a b \<Longrightarrow> same_ledger b c \<Longrightarrow> keeps_ledger now n a c"
  using keeps_same [of now b now c] keeps_trans(2) by (simp add: keeps_ledger_def)

lemma add_sent_request_keeps:
  assumes "bt_inv T b" "T \<le> clock env" "sr_id sr = next_rid b" "add_sent_request env sr (b\<lparr>next_rid := next_rid b + 1\<rparr>) = (added, b')"
  shows "keeps_ledger (clock env) (\<lambda>f. of_bool (has_cb f sr)) b b'"
proof -
  let ?b = "b\<lparr>next_rid := next_rid b + 1\<rparr>"
  have l: "ledger (next_rid b) (sent_reqs b) (req_expiries b)" and t: "timer_armed (clock env) (req_expiries b) (timer_at b)"
    "timer_at b \<noteq> None \<longrightarrow> timeout_event b"
    using assms(1,2) timer_armed_mono by (auto simp: bt_inv_def)
  show ?thesis
  proof (cases "is_closing (bt_base b)")
    case True
    then have b': "b' = deliver TimedOut sr ?b" using assms(4) by (simp add: add_sent_request_def sr_time_out_def)
    have "ledger (next_rid b + 1) (sent_reqs b) (req_expiries b)" using l by (auto simp: ledger_def)
    then show ?thesis
      using t by (simp add: b' keeps_ledger_def bt_inv_def owed_def answered_deliver waiting_def) (simp add: answered_def)
  next
    case False
    let ?reqs = "map_put (next_rid b) sr (sent_reqs b)" and ?es = "multimap_emplace (sr_expiry sr) (next_rid b) (req_expiries b)"
    let ?c = "?b\<lparr>sent_reqs := ?reqs, req_expiries := ?es\<rparr>"
    have b': "b' = (if snd (hd ?es) = next_rid b then update_timeout (clock env) ?c else ?c)"
      using assms(3,4) False by (auto simp: add_sent_request_def Let_def cong: if_cong)
    note p = ledger_put [OF l assms(3)]
    have "timer_armed (clock env) ?es (timer_at b)" if "snd (hd ?es) \<noteq> next_rid b"
    proof -
      obtain e es where e: "req_expiries b = e # es" using \<open>snd (hd ?es) \<noteq> next_rid b\<close> by (cases "req_expiries b") auto
      then have "fst (hd ?es) = fst e" "?es \<noteq> []" using \<open>snd (hd ?es) \<noteq> next_rid b\<close> by (cases e; auto split: if_splits)+
      then show ?thesis using t(1) by (cases ?es) (auto simp: timer_armed_def e split: prod.splits)
    qed
    then have "bt_inv (clock env) b'"
      using p(1) t(2) update_timeout_armed [of ?c] by (auto simp: b' bt_inv_def)
    moreover have "waiting f b' = waiting f b + of_bool (has_cb f sr)" for f
      using p(2) by (simp add: waiting_mset b')
    moreover have "answered f b' = answered f b" for f by (simp add: b' answered_def)
    ultimately show ?thesis by (simp add: keeps_ledger_def owed_def)
  qed
qed

text \<open>A request is issued if it is not refused for its length.\<close>

definition issues :: "bt_env \<Rightarrow> bytes \<Rightarrow> bytes \<Rightarrow> btstream \<Rightarrow> bool" where
  "issues env ep body b \<longleftrightarrow> length (bt_serialize env (encode_command env ep (next_rid b) body)) \<le> max_req_len b"

lemma command_keeps:
  assumes "bt_inv T b" "T \<le> clock env" "bt_state (command env ep body cb timeout after b) = Some b'"
  shows "keeps_ledger (clock env) (\<lambda>f. of_bool (cb = Some f \<and> issues env ep body b)) b b'"
proof -
  let ?b = "b\<lparr>next_rid := next_rid b + 1\<rparr>"
  have n: "keeps_ledger (clock env) (\<lambda>_. 0) b ?b"
    using assms(1,2) timer_armed_mono [of T "req_expiries b" "timer_at b" "clock env"]
    by (auto simp: keeps_ledger_def bt_inv_def ledger_def owed_def answered_def waiting_def)
  consider "\<not> issues env ep body b" | "issues env ep body b" "cb = None" | f where "issues env ep body b" "cb = Some f" by blast
  then show ?thesis
  proof cases
    case 1
    then have "b' = ?b" using assms(3) by (simp add: command_def Let_def sent_request_ctor_def issues_def)
    then show ?thesis using n 1 by simp
  next
    case 2
    obtain data where "bt_state (bt_send_string env data ?b) = Some b'"
      using assms(3) 2 by (simp add: command_def Let_def sent_request_ctor_def issues_def)
    then have "same_ledger ?b b'"
      by (auto simp: bt_send_string_def bt_send_def same_ledger_def answered_def split: option.splits)
    then show ?thesis using keeps_then_same [OF n] 2 by simp
  next
    case 3
    let ?sr = "\<lparr>sr_id = next_rid b, sr_data = bt_serialize env (encode_command env ep (next_rid b) body),
        sr_expiry = clock env + (case timeout of Some t \<Rightarrow> t | None \<Rightarrow> DEFAULT_TIMEOUT), withdraw_on_timeout = \<not> after,
        sr_queued = (if after then None else Some (next_keep b)), sr_cb = cb\<rparr>"
    obtain added b1 where ad: "add_sent_request env ?sr ?b = (added, b1)" by fastforce
    have b': "if added then (\<exists>data keep. bt_state (bt_send env data keep (b1\<lparr>next_keep := next_keep b1 + 1\<rparr>)) = Some b')
        else b' = b1"
      using assms(3) 3 ad
      by (cases after) (auto simp: command_def Let_def sent_request_ctor_def issues_def split: if_splits)
    have k: "keeps_ledger (clock env) (\<lambda>g. of_bool (has_cb g ?sr)) b b1"
      by (rule add_sent_request_keeps [OF assms(1,2) _ ad]) simp
    have "same_ledger b1 b'"
    proof (cases added)
      case True
      then have "same_ledger (b1\<lparr>next_keep := next_keep b1 + 1\<rparr>) b'" using b' bt_send_same by auto
      then show ?thesis by (simp add: same_ledger_def answered_def)
    qed (use b' in \<open>simp add: same_ledger_def\<close>)
    then show ?thesis using keeps_then_same [OF k] 3 by (simp add: has_cb_def)
  qed
qed

lemma handle_reply_keeps:
  assumes "bt_inv T b" "T \<le> clock env" "bt_state (handle_reply env msg b) = Some b'"
  shows "keeps_ledger (clock env) (\<lambda>_. 0) b b'"
proof (cases "map_of (sent_reqs b) (req_id msg)")
  case None
  then show ?thesis using assms keeps_same [OF assms(1,2), of b] by (simp add: handle_reply_def same_ledger_def)
next
  case (Some sr)
  have l: "ledger (next_rid b) (sent_reqs b) (req_expiries b)" and t: "timer_armed (clock env) (req_expiries b) (timer_at b)"
    "timer_at b \<noteq> None \<longrightarrow> timeout_event b"
    using assms(1,2) timer_armed_mono by (auto simp: bt_inv_def)
  note e = ledger_erase [OF l Some]
  let ?entry = "(sr_expiry sr, sr_id sr)"
  let ?c = "b\<lparr>sent_reqs := map_erase (req_id msg) (sent_reqs b), req_expiries := remove1 ?entry (req_expiries b)\<rparr>"
  obtain x es where es: "req_expiries b = x # es" using e(4) by (cases "req_expiries b") auto
  have b': "b' = deliver (Answered msg) sr (if x = ?entry then update_timeout (clock env) ?c else ?c)"
    using assms(3) Some by (auto simp: handle_reply_def Let_def es)
  have "timer_armed (clock env) (req_expiries ?c) (timer_at b)" if "x \<noteq> ?entry"
    using t(1) that by (simp add: es timer_armed_def split: prod.splits)
  then have "bt_inv (clock env) b'" using e(1) t(2) update_timeout_armed [of ?c] by (auto simp: b' bt_inv_def)
  moreover have "owed f b' = owed f b" for f
    using e(2) by (simp add: owed_def waiting_mset b' answered_deliver) (simp add: answered_def)
  ultimately show ?thesis by (simp add: keeps_ledger_def)
qed

lemma handle_command_same:
  assumes "bt_state (handle_command env msg b) = Some b'"
  shows "same_ledger b b'"
proof -
  define b1 where "b1 = (if msg_endpoint msg \<in> set (registered_endpoints b)
    then b\<lparr>bt_out := bt_out b @ [EndpointHandler (msg_endpoint msg) msg]\<rparr>
    else if generic_handler b then b\<lparr>bt_out := bt_out b @ [GenericHandler msg]\<rparr> else b)"
  have s1: "same_ledger b b1" by (simp add: same_ledger_def b1_def answered_def)
  have "b' = b1 \<or> (\<exists>text. bt_state (bt_respond env (req_id msg) text True b1) = Some b')"
    using assms by (auto simp: handle_command_def Let_def b1_def split: if_splits handler_outcome.splits)
  then show ?thesis using s1 same_ledger_trans [OF s1] bt_respond_same by blast
qed

lemma handle_frame_ledger:
  assumes "bt_inv T b" "T \<le> clock env" "bt_state (handle_frame env f b) = Some b'"
  shows "keeps_ledger (clock env) (\<lambda>_. 0) b b'"
proof -
  let ?b = "b\<lparr>bt_buf := []\<rparr>"
  have c: "same_ledger b ?b" by (simp add: same_ledger_def answered_def)
  note k = keeps_same [OF assms(1,2) c]
  show ?thesis
  proof (cases "message_ctor (bt_items env) f")
    case (Inl e)
    then show ?thesis using assms(3) k by (simp add: handle_frame_def)
  next
    case (Inr msg)
    obtain b1 where b1: "bt_state (handle_input env msg ?b) = Some b1" "same_ledger b1 b'"
      using assms(3) Inr by (auto simp: handle_frame_def same_ledger_def answered_def split: bt_result.splits)
    have i: "bt_inv (clock env) ?b" using k by (simp add: keeps_ledger_def)
    have "keeps_ledger (clock env) (\<lambda>_. 0) ?b b1"
    proof (cases "msg_type msg = TYPE_REPLY \<or> msg_type msg = TYPE_ERROR")
      case True
      then show ?thesis
        using b1(1) handle_reply_keeps [OF i order.refl] by (simp add: handle_input_def)
    next
      case False
      then show ?thesis using b1(1) keeps_same [OF i order.refl] handle_command_same by (simp add: handle_input_def)
    qed
    then show ?thesis using keeps_then_same [OF keeps_trans(1) [OF k] b1(2)] by simp
  qed
qed

text \<open>A round of \<open>process_incoming\<close> changes the framing state, or handles a frame.\<close>

fun round_state :: "(bytes \<times> btstream) + bt_result \<Rightarrow> btstream option" where
  "round_state (Inl (x, b)) = Some b"
| "round_state (Inr r) = bt_state r"

lemma incoming_data_keeps:
  assumes "bt_inv T b" "T \<le> clock env" "round_state (incoming_data env x b) = Some b'"
  shows "keeps_ledger (clock env) (\<lambda>_. 0) b b'"
proof -
  obtain full f rest where d: "data_accumulator (bt_buf b) x (current_len b) = Some (full, f, rest)"
    using assms(3) by (cases "data_accumulator (bt_buf b) x (current_len b)") (auto simp: incoming_data_def)
  show ?thesis
  proof (cases full)
    case True
    have "bt_state (handle_frame env f b) = Some b'"
      using assms(3) d True by (cases "handle_frame env f b") (simp_all add: incoming_data_def)
    then show ?thesis by (rule handle_frame_ledger [OF assms(1,2)])
  next
    case False
    then have "b' = b\<lparr>bt_buf := f\<rparr>" using assms(3) d by (simp add: incoming_data_def)
    then show ?thesis using keeps_same [OF assms(1,2), of b'] by (simp add: same_ledger_def answered_def)
  qed
qed

lemma incoming_round_keeps:
  assumes "bt_inv T b" "T \<le> clock env" "round_state (incoming_round env x b) = Some b'"
  shows "keeps_ledger (clock env) (\<lambda>_. 0) b b'"
proof (cases "current_len b = 0")
  case True
  have s: "same_ledger b (b\<lparr>size_buf := p\<rparr>)" "same_ledger b (b\<lparr>size_buf := p, current_len := n\<rparr>)" for p n
    by (simp_all add: same_ledger_def answered_def)
  note k = keeps_same [OF assms(1,2) s(1)] keeps_same [OF assms(1,2) s(2)]
  show ?thesis
  proof (cases "prefix_accumulator (size_buf b) x")
    case (PrefixSize n rest)
    let ?b = "b\<lparr>size_buf := [], current_len := n\<rparr>"
    consider "b' = ?b" | "round_state (incoming_data env rest ?b) = Some b'"
      using assms(3) True PrefixSize by (auto simp: incoming_round_def Let_def split: if_splits)
    then show ?thesis
    proof cases
      case 2
      have "keeps_ledger (clock env) (\<lambda>_. 0) ?b b'"
        using incoming_data_keeps [OF _ order.refl 2] k(2) by (simp add: keeps_ledger_def)
      then show ?thesis by (rule keeps_trans(1) [OF k(2)])
    qed (use k(2) in simp)
  qed (use assms(3) True k(1) in \<open>auto simp: incoming_round_def\<close>)
next
  case False
  then show ?thesis using assms(3) incoming_data_keeps [OF assms(1,2)] by (simp add: incoming_round_def)
qed

lemma process_incoming_keeps:
  "bt_inv T b \<Longrightarrow> T \<le> clock env \<Longrightarrow> bt_state (process_incoming env x b) = Some b' \<Longrightarrow>
   keeps_ledger (clock env) (\<lambda>_. 0) b b'"
proof (induction env x b arbitrary: T rule: process_incoming.induct)
  case (1 env x b)
  show ?case
  proof (cases "x = []")
    case True
    then show ?thesis using 1(2-4) keeps_same [OF 1(2,3), of b] by (simp add: process_incoming.simps [of env "[]"] same_ledger_def)
  next
    case x: False
    show ?thesis
    proof (cases "incoming_round env x b")
      case (Inr r)
      then have "bt_state r = Some b'" using 1(4) x by (simp add: process_incoming.simps [of env x])
      then show ?thesis using incoming_round_keeps [OF 1(2,3), of x] Inr by simp
    next
      case (Inl p)
      obtain x' b1 where p: "p = (x', b1)" by (cases p)
      have r: "incoming_round env x b = Inl (x', b1)" using Inl p by simp
      have k: "keeps_ledger (clock env) (\<lambda>_. 0) b b1" by (rule incoming_round_keeps [OF 1(2,3), of x]) (simp add: r)
      have "bt_state (process_incoming env x' b1) = Some b'" using 1(4) x r by (simp add: process_incoming.simps [of env x])
      then have "keeps_ledger (clock env) (\<lambda>_. 0) b1 b'"
        using 1(1) [OF x Inl p [symmetric] _ order.refl] k by (simp add: keeps_ledger_def)
      then show ?thesis by (rule keeps_trans(1) [OF k])
    qed
  qed
qed

lemma expire_fields [simp]:
  "sent_reqs (expire_request timed sr b) = sent_reqs b" "req_expiries (expire_request timed sr b) = req_expiries b"
  "next_rid (expire_request timed sr b) = next_rid b" "timer_at (expire_request timed sr b) = timer_at b"
  "timeout_event (expire_request timed sr b) = timeout_event b"
  by (simp_all add: expire_request_def Let_def sr_time_out_def)

lemma answered_expire: "answered f (expire_request timed sr b) = answered f b + of_bool (has_cb f sr)"
  by (simp add: expire_request_def Let_def sr_time_out_def answered_deliver) (simp add: answered_def)

lemma fold_expire_fields [simp]:
  "sent_reqs (fold (expire_request timed) ex b) = sent_reqs b"
  "req_expiries (fold (expire_request timed) ex b) = req_expiries b"
  "next_rid (fold (expire_request timed) ex b) = next_rid b"
  "timer_at (fold (expire_request timed) ex b) = timer_at b"
  "timeout_event (fold (expire_request timed) ex b) = timeout_event b"
  by (induction ex arbitrary: b) simp_all

lemma answered_fold_expire:
  "answered f (fold (expire_request timed) ex b) = answered f b + size (filter_mset (has_cb f) (mset ex))"
  by (induction ex arbitrary: b) (simp_all add: answered_expire)

lemma length_filter_split: "length (filter P xs) = length (filter P (filter Q xs)) + length (filter P (filter (Not \<circ> Q) xs))"
  by (induction xs) auto

text \<open>Every request that is due is answered once, the others stay.\<close>

lemma check_timeouts_spec:
  assumes "ledger (next_rid b) (sent_reqs b) (req_expiries b)"
  shows "sent_reqs (check_timeouts now b) = filter (Not \<circ> due now) (sent_reqs b)"
    and "ledger (next_rid b) (sent_reqs (check_timeouts now b)) (req_expiries (check_timeouts now b))"
    and "next_rid (check_timeouts now b) = next_rid b" "timer_at (check_timeouts now b) = timer_at b"
      "timeout_event (check_timeouts now b) = timeout_event b"
    and "answered f (check_timeouts now b) =
      answered f b + length (filter (has_cb f \<circ> snd) (filter (due now) (sent_reqs b)))"
    and "owed f (check_timeouts now b) = owed f b"
proof -
  obtain ex es reqs where t: "take_expired now (req_expiries b) (sent_reqs b) = (ex, es, reqs)" by (metis prod_cases3)
  let ?b = "b\<lparr>req_expiries := es, sent_reqs := reqs\<rparr>"
  note s = take_expired_spec [OF assms t]
  have c: "check_timeouts now b = fold (expire_request (now \<noteq> None)) ex ?b" by (simp add: check_timeouts_def t)
  show "sent_reqs (check_timeouts now b) = filter (Not \<circ> due now) (sent_reqs b)"
    "ledger (next_rid b) (sent_reqs (check_timeouts now b)) (req_expiries (check_timeouts now b))"
    "next_rid (check_timeouts now b) = next_rid b" "timer_at (check_timeouts now b) = timer_at b"
    "timeout_event (check_timeouts now b) = timeout_event b"
    using s by (auto simp: c)
  have m: "size (filter_mset (has_cb f) (mset ex)) = length (filter (has_cb f \<circ> snd) (filter (due now) (sent_reqs b)))"
    using s by (simp add: filter_mset_image_mset comp_def flip: mset_filter)
  then show "answered f (check_timeouts now b) =
      answered f b + length (filter (has_cb f \<circ> snd) (filter (due now) (sent_reqs b)))"
    by (simp add: c answered_fold_expire) (simp add: answered_def)
  have "length (filter (has_cb f \<circ> snd) (sent_reqs b)) =
      length (filter (has_cb f \<circ> snd) (filter (due now) (sent_reqs b))) + length (filter (has_cb f \<circ> snd) reqs)"
    using s length_filter_split [of "has_cb f \<circ> snd" "sent_reqs b" "due now"] by simp
  then show "owed f (check_timeouts now b) = owed f b"
    using m by (simp add: owed_def waiting_def c answered_fold_expire) (simp add: answered_def)
qed

lemma on_timeout_keeps:
  assumes "bt_inv T b"
  shows "keeps_ledger now (\<lambda>_. 0) b (on_timeout now b)"
proof -
  let ?b = "b\<lparr>timer_at := None\<rparr>"
  have l: "ledger (next_rid ?b) (sent_reqs ?b) (req_expiries ?b)" using assms by (simp add: bt_inv_def)
  note c = check_timeouts_spec [OF l, where now = "Some now"]
  have "bt_inv now (on_timeout now b)"
    using c(2-5) update_timeout_armed [of "check_timeouts (Some now) ?b" now] by (simp add: on_timeout_def bt_inv_def)
  moreover have "owed f (on_timeout now b) = owed f b" for f
    using c(7) [of f] by (simp add: on_timeout_def owed_def waiting_def answered_def)
  ultimately show ?thesis by (simp add: keeps_ledger_def)
qed

lemma bt_closed_keeps:
  assumes "bt_inv T b"
  shows "keeps_ledger now (\<lambda>_. 0) b (bt_closed code b)" and "sent_reqs (bt_closed code b) = []"
proof -
  let ?b = "b\<lparr>timeout_event := False, timer_at := None\<rparr>"
  let ?c = "check_timeouts None ?b"
  have l: "ledger (next_rid ?b) (sent_reqs ?b) (req_expiries ?b)" using assms by (simp add: bt_inv_def)
  note c = check_timeouts_spec [OF l, where now = None]
  have s: "same_ledger ?c (bt_closed code b)"
    by (simp add: bt_closed_def Let_def bt_close_def same_ledger_def answered_def split: sum.splits)
  have r: "sent_reqs ?c = []" using c(1) by (simp add: due_def comp_def)
  then show "sent_reqs (bt_closed code b) = []" using s by (simp add: same_ledger_def)
  have "req_expiries ?c = []" using c(2) r by (simp add: ledger_def)
  then have "bt_inv now ?c" using c(2-5) r by (simp add: bt_inv_def timer_armed_def)
  moreover have "owed f ?c = owed f b" for f using c(7) [of f] by (simp add: owed_def waiting_def answered_def)
  ultimately show "keeps_ledger now (\<lambda>_. 0) b (bt_closed code b)"
    using same_ledgerD [OF s] by (simp add: keeps_ledger_def)
qed

text \<open>The callback a step issues.\<close>

fun issued_cb :: "bt_env \<times> bt_op \<Rightarrow> btstream \<Rightarrow> nat \<Rightarrow> nat" where
  "issued_cb (env, BtCommand ep body cb timeout after) b = (\<lambda>f. of_bool (cb = Some f \<and> issues env ep body b))"
| "issued_cb _ b = (\<lambda>_. 0)"

lemma bt_receive_keeps:
  assumes "bt_inv T b" "T \<le> clock env" "bt_receive env data b = Some b'"
  shows "keeps_ledger (clock env) (\<lambda>_. 0) b b'"
proof (cases "is_closing (bt_base b)")
  case True
  then show ?thesis using keeps_same [OF assms(1,2), of b'] assms(3) by (simp add: bt_receive_def same_ledger_def)
next
  case False
  have c: "same_ledger b1 (bt_close code b1)" for code b1
    by (simp add: bt_close_def same_ledger_def answered_def split: sum.splits)
  note k = process_incoming_keeps [OF assms(1,2), of data]
  show ?thesis
    using assms(3) False k keeps_then_same [OF _ c] by (cases "process_incoming env data b") (auto simp: bt_receive_def)
qed

lemma bt_act_keeps:
  assumes "bt_inv T b" "T \<le> clock env" "bt_act env x b = Some b'"
  shows "keeps_ledger (clock env) (issued_cb (env, x) b) b b'"
proof (cases x)
  case (BtCommand ep body cb timeout after)
  then show ?thesis using command_keeps [OF assms(1,2)] assms(3) by simp
next
  case (BtRespond rid body err)
  then show ?thesis using keeps_same [OF assms(1,2) bt_respond_same] assms(3) by simp
next
  case (BtReceive data)
  then show ?thesis using bt_receive_keeps [OF assms(1,2)] assms(3) by simp
next
  case BtTimer
  then show ?thesis using on_timeout_keeps [OF assms(1)] assms(3) by auto
next
  case (BtClosed code)
  then show ?thesis using bt_closed_keeps(1) [OF assms(1)] assms(3) by auto
next
  case (BtBase op)
  then show ?thesis using keeps_same [OF assms(1,2), of b'] assms(3) by (auto simp: same_ledger_def answered_def)
qed (use keeps_same [OF assms(1,2), of b'] assms(3) in
    \<open>auto simp: same_ledger_def answered_def register_handler_def register_generic_handler_def\<close>)

fun issued :: "nat \<Rightarrow> (bt_env \<times> bt_op) list \<Rightarrow> int \<times> btstream \<Rightarrow> nat" where
  "issued f [] s = 0"
| "issued f (x # xs) s =
     issued_cb x (snd s) f + (case bt_step x s of None \<Rightarrow> 0 | Some s' \<Rightarrow> issued f xs s')"

lemma bt_run_keeps:
  "bt_inv T b \<Longrightarrow> ops_ok bt_step bt_op_ok xs (T, b) \<Longrightarrow> run_ops bt_step xs (T, b) = Some (T', b') \<Longrightarrow>
   bt_inv T' b' \<and> owed f b' = owed f b + issued f xs (T, b)"
proof (induction xs arbitrary: T b)
  case (Cons x xs)
  obtain env op where x: "x = (env, op)" by (cases x)
  obtain b1 where a: "bt_act env op b = Some b1" using Cons.prems(3) by (auto simp: x split: option.splits)
  have "keeps_ledger (clock env) (issued_cb (env, op) b) b b1"
    using bt_act_keeps [OF Cons.prems(1) _ a] Cons.prems(2) by (simp add: x)
  then show ?case using Cons.IH [of "clock env" b1] Cons.prems(2,3) a by (simp add: x keeps_ledger_def)
qed simp

lemma bt_ctor_inv: "bt_inv T (bt_ctor base)" "owed f (bt_ctor base) = 0"
  by (simp_all add: bt_inv_def bt_ctor_def ledger_def timer_armed_def owed_def answered_def waiting_def)

lemma fold_time_out:
  "answered f (fold (\<lambda>(_, sr) b. sr_time_out sr b) reqs b) = answered f b + length (filter (has_cb f \<circ> snd) reqs)"
  "sent_reqs (fold (\<lambda>(_, sr) b. sr_time_out sr b) reqs b) = sent_reqs b"
  by (induction reqs arbitrary: b) (auto simp: sr_time_out_def answered_deliver)

lemma bt_destroy_answers: "answered f (bt_destroy b) = owed f b" "sent_reqs (bt_destroy b) = []"
proof -
  have "answered f (b\<lparr>req_expiries := [], sent_reqs := []\<rparr>) = answered f b" by (simp add: answered_def)
  then show "answered f (bt_destroy b) = owed f b" by (simp add: bt_destroy_def Let_def fold_time_out owed_def waiting_def)
  show "sent_reqs (bt_destroy b) = []" by (simp add: bt_destroy_def Let_def fold_time_out)
qed

section \<open>Main results\<close>

lemmas bt_eval = bt_ctor_def stream_ctor_def stream_base_ctor_def stream_set_default_callbacks_def bt_example_def
  command_def Let_def sent_request_ctor_def frame_bytes_def dec_bytes_def digits10.simps encode_command_def
  example_list_def TYPE_COMMAND_def DEFAULT_MAX_REQ_LEN_def DEFAULT_TIMEOUT_def add_sent_request_def update_timeout_def
  bt_send_def stream_send_impl_def append_buffer_def check_watermark_if_enabled_eq check_watermark_def issues_def

text \<open>
  C4: Every request that asked for a response gets exactly one. For any sequence of commands, responses, received data,
  timer events, operations of the stream and closings, with time not running backwards, and then the destruction
  of the stream: a response callback has been called as often as commands were issued with it, by a
  response or by a timeout, and no request is left.
\<close>

theorem bt_callbacks_exactly_once:
  assumes "ops_ok bt_step bt_op_ok ops (T, bt_ctor base)"
    and "run_ops bt_step ops (T, bt_ctor base) = Some (T', b)"
  shows "answered f (bt_destroy b) = issued f ops (T, bt_ctor base) \<and> sent_reqs (bt_destroy b) = []"
  using bt_run_keeps [OF bt_ctor_inv(1) assms, of f] bt_ctor_inv(2) bt_destroy_answers by simp

theorem bt_callbacks_exactly_once_witness:
  "\<exists>T' b. run_ops bt_step
      [(bt_example, BtCommand [112] [1] (Some 7) (Some 5) False), (bt_example, BtCommand [112] [] (Some 7) None True),
       (bt_example\<lparr>clock := 6\<rparr>, BtTimer)] (0, bt_ctor (stream_ctor True [])) = Some (T', b) \<and>
     answered 7 (bt_destroy b) = 2 \<and> sent_reqs (bt_destroy b) = []"
proof -
  let ?b = "bt_ctor (stream_ctor True [])"
  let ?ops = "[(bt_example, BtCommand [112] [1] (Some 7) (Some 5) False), (bt_example, BtCommand [112] [] (Some 7) None True),
       (bt_example\<lparr>clock := 6\<rparr>, BtTimer)]"
  obtain T' b where r: "run_ops bt_step ?ops (0, ?b) = Some (T', b)" and i: "issued 7 ?ops (0, ?b) = 2"
    and k: "ops_ok bt_step bt_op_ok ?ops (0, ?b)"
    by (simp add: bt_eval)
  show ?thesis using bt_callbacks_exactly_once [OF k r, of 7] r i by auto
qed

text \<open>
  C28: While a request waits, the timer is set, not before the first expiry of the waiting requests and less than a
  microsecond after it (or after the present, if it has passed); with none waiting, the timer is off.
  When the timer fires, every request whose time has come leaves the table and its callback is called
  once more; the other requests stay.
\<close>

theorem bt_timer_serves_requests:
  assumes "ops_ok bt_step bt_op_ok ops (T, bt_ctor base)"
    and "run_ops bt_step ops (T, bt_ctor base) = Some (T', b)"
  shows "(sent_reqs b = [] \<longleftrightarrow> timer_at b = None) \<and>
    (sent_reqs b \<noteq> [] \<longrightarrow> (\<exists>t. timer_at b = Some t \<and>
       (let first = Min (sr_expiry ` snd ` set (sent_reqs b)) in first \<le> t \<and> t < max first T' + 1000))) \<and>
    sent_reqs (on_timeout now b) = filter (\<lambda>(_, sr). now < sr_expiry sr) (sent_reqs b) \<and>
    answered f (on_timeout now b) =
      answered f b + length (filter (\<lambda>(_, sr). sr_expiry sr \<le> now \<and> has_cb f sr) (sent_reqs b))"
proof -
  have i: "bt_inv T' b" using bt_run_keeps [OF bt_ctor_inv(1) assms] by simp
  then have l: "ledger (next_rid b) (sent_reqs b) (req_expiries b)"
    and t: "timer_armed T' (req_expiries b) (timer_at b)" by (simp_all add: bt_inv_def)
  have es: "set (req_expiries b) = expiry_entry ` set (sent_reqs b)"
    using l by (metis ledger_def list.set_map set_mset_mset)
  have e: "sent_reqs b = [] \<longleftrightarrow> req_expiries b = []" using es by auto
  have first: "fst (hd (req_expiries b)) = Min (sr_expiry ` snd ` set (sent_reqs b))" if "req_expiries b \<noteq> []"
  proof -
    have f: "fst ` set (req_expiries b) = sr_expiry ` snd ` set (sent_reqs b)"
      unfolding es image_image by (simp add: expiry_entry_def)
    have "Min (fst ` set (req_expiries b)) = fst (hd (req_expiries b))"
      using l that by (intro Min_eqI) (cases "req_expiries b"; auto simp: ledger_def)+
    then show ?thesis using f by simp
  qed
  have "ledger (next_rid (b\<lparr>timer_at := None\<rparr>)) (sent_reqs (b\<lparr>timer_at := None\<rparr>)) (req_expiries (b\<lparr>timer_at := None\<rparr>))"
    using l by simp
  note c = check_timeouts_spec [OF this, where now = "Some now"]
  have "sent_reqs (on_timeout now b) = filter (\<lambda>(_, sr). now < sr_expiry sr) (sent_reqs b)"
    using c(1) by (auto simp: on_timeout_def due_def not_le intro!: filter_cong)
  moreover have "answered f (on_timeout now b) =
      answered f b + length (filter (\<lambda>(_, sr). sr_expiry sr \<le> now \<and> has_cb f sr) (sent_reqs b))"
    using c(6) [of f] by (simp add: on_timeout_def answered_def due_def case_prod_unfold conj_commute)
  moreover have "sent_reqs b = [] \<longleftrightarrow> timer_at b = None" using e t by (auto simp: timer_armed_def split: list.splits)
  moreover have "\<exists>t. timer_at b = Some t \<and>
       (let first = Min (sr_expiry ` snd ` set (sent_reqs b)) in first \<le> t \<and> t < max first T' + 1000)" if "sent_reqs b \<noteq> []"
    using e that t first by (auto simp: timer_armed_def Let_def split: list.splits)
  ultimately show ?thesis by blast
qed

theorem bt_timer_serves_requests_witness:
  "\<exists>T' b. run_ops bt_step [(bt_example, BtCommand [112] [1] (Some 7) (Some 5) False)] (0, bt_ctor (stream_ctor True [])) =
       Some (T', b) \<and> sent_reqs b \<noteq> [] \<and> (\<exists>t. timer_at b = Some t) \<and>
     sent_reqs (on_timeout 6 b) = [] \<and> answered 7 (on_timeout 6 b) = 1"
proof -
  let ?b = "bt_ctor (stream_ctor True [])"
  let ?ops = "[(bt_example, BtCommand [112] [1] (Some 7) (Some 5) False)]"
  obtain T' b where r: "run_ops bt_step ?ops (0, ?b) = Some (T', b)" and k: "ops_ok bt_step bt_op_ok ?ops (0, ?b)"
    and s: "map (\<lambda>(i, sr). (sr_expiry sr, sr_cb sr)) (sent_reqs b) = [(5, Some 7)]" "answered 7 b = 0"
    by (simp add: bt_eval answered_def)
  obtain i sr where sr: "sent_reqs b = [(i, sr)]" "sr_expiry sr = 5" "sr_cb sr = Some 7" using s(1) by auto
  show ?thesis
    using bt_timer_serves_requests [OF k r, of 6 7] r s(2) sr by (auto simp: has_cb_def)
qed

end
