(* ===== verification/Loop.thy ===== *)
theory Loop
  imports Quic_Prelude "HOL-Library.Multiset" "HOL-Library.Sublist"
begin

text \<open>
  The job queue of the event loop (\<open>loop.hpp\<close>, \<open>loop.cpp\<close>): queued jobs, blocking calls from other threads, the
  registry of timers, and stopping. All of it runs on the loop thread, apart from \<open>call_soon\<close>, which takes
  the queue's mutex, so a run is a sequence of operations.

  A job is what it does to the queue: a list of calls, each of which may throw and so end the job. Calls into
  libevent are entries of the log, their results arguments; of the state of the queue's own event only whether an
  activation is outstanding is kept.
\<close>

section \<open>Jobs\<close>

text \<open>The flag of a job is whether it is that of a \<open>call_get\<close>, whose caller waits for the outcome.\<close>

datatype job = Job nat bool "action list"
and action =
    CallSoon job
  | Call job
  | CallLater int "job option"
  | AddTimer int "job option"
  | Wake int
  | Repeat int int bool
  | StopTimer int
  | Remove int
  | StopQueue
  | Throw

datatype loop_error = EmptyCallback | QueueStopped | EventFailed | NoSuchJob int | UserException

datatype loop_call =
    Accepted nat bool
  | Ran nat bool
  | RanNow nat
  | Dropped nat bool
  | Answer nat "loop_error option"
  | Broken nat
  | WakerActive
  | EventAdd int "int \<times> int"
  | EventDel int
  | EventAssign int
  | EventActive int
  | EventFinalize int
  | Fired int

section \<open>State\<close>

record entry =
  entry_f :: job
  one_shot :: bool

record jobqueue =
  jq_running :: bool
  job_waker :: bool
  waker_pending :: bool
  job_queue :: "job list"
  registry :: "(int \<times> entry) list"
  registry_stopped :: bool
  next_timer_id :: int
  jq_out :: "loop_call list"

definition jq_ctor :: "int \<Rightarrow> jobqueue" where
  "jq_ctor next_id =
     \<lparr>jq_running = True, job_waker = True, waker_pending = False, job_queue = [], registry = [],
      registry_stopped = False, next_timer_id = next_id, jq_out = []\<rparr>"

definition jq_log :: "loop_call \<Rightarrow> jobqueue \<Rightarrow> jobqueue" where
  "jq_log c q = q\<lparr>jq_out := jq_out q @ [c]\<rparr>"

text \<open>Microseconds as seconds and the rest; the division of C++ truncates.\<close>

definition loop_time_to_timeval :: "int \<Rightarrow> int \<times> int" where
  "loop_time_to_timeval t = (sgn t * (\<bar>t\<bar> div 1000000), sgn t * (\<bar>t\<bar> mod 1000000))"

section \<open>Queued jobs\<close>

definition jq_call_soon :: "job \<Rightarrow> jobqueue \<Rightarrow> loop_error option \<times> jobqueue" where
  "jq_call_soon j q =
     (if \<not> jq_running q then (Some QueueStopped, q)
      else case j of Job i g _ \<Rightarrow>
        (None, jq_log WakerActive (jq_log (Accepted i g) (q\<lparr>job_queue := job_queue q @ [j], waker_pending := True\<rparr>))))"

text \<open>
  Destroying a job that has not run: the promise of a \<open>call_get\<close> is destroyed unfulfilled, so its caller gets the
  exception for that.
\<close>

fun drop_job :: "job \<Rightarrow> jobqueue \<Rightarrow> jobqueue" where
  "drop_job (Job i g _) q =
     (let q = jq_log (Dropped i g) q in if g then jq_log (Broken i) q else q)"

definition jq_stop :: "jobqueue \<Rightarrow> jobqueue" where
  "jq_stop q =
     (if \<not> job_waker q then q
      else let dropped = job_queue q;
               q = q\<lparr>jq_running := False, job_waker := False, waker_pending := False, job_queue := []\<rparr>;
               q = fold drop_job dropped q;
               entries = registry q;
               q = q\<lparr>registry_stopped := True, registry := []\<rparr>
           in fold (\<lambda>(i, _). jq_log (EventFinalize i)) entries q)"

definition jq_destroy :: "jobqueue \<Rightarrow> jobqueue" where
  "jq_destroy q = (if job_waker q then jq_stop q else q)"

section \<open>Timers\<close>

text \<open>The first argument tells for an id whether \<open>event_new\<close> succeeds.\<close>

definition jq_add_entry :: "(int \<Rightarrow> bool) \<Rightarrow> int \<Rightarrow> job option \<Rightarrow> bool \<Rightarrow> jobqueue \<Rightarrow> (loop_error + int) \<times> jobqueue" where
  "jq_add_entry new_ok interval f one q =
     (case f of
        None \<Rightarrow> (Inl EmptyCallback, q)
      | Some j \<Rightarrow>
          if registry_stopped q then (Inl QueueStopped, q)
          else let i = next_timer_id q; q = q\<lparr>next_timer_id := i + 1\<rparr>
               in if \<not> new_ok i then (Inl EventFailed, q)
                  else let q = q\<lparr>registry := registry q @ [(i, \<lparr>entry_f = j, one_shot = one\<rparr>)]\<rparr>;
                           q = (if one \<or> interval > 0
                                then jq_log (EventAdd i (loop_time_to_timeval (max interval 0))) q else q)
                       in (Inr i, q))"

definition jq_find :: "int \<Rightarrow> jobqueue \<Rightarrow> entry option" where
  "jq_find i q = map_of (registry q) i"

definition jq_disarm :: "int \<Rightarrow> jobqueue \<Rightarrow> jobqueue" where
  "jq_disarm i q = jq_log (EventAssign i) (jq_log (EventDel i) q)"

definition jq_call_later :: "(int \<Rightarrow> bool) \<Rightarrow> int \<Rightarrow> job option \<Rightarrow> jobqueue \<Rightarrow> (loop_error + int) \<times> jobqueue" where
  "jq_call_later new_ok delay f q = jq_add_entry new_ok delay f True q"

definition jq_add_timer :: "(int \<Rightarrow> bool) \<Rightarrow> int \<Rightarrow> job option \<Rightarrow> jobqueue \<Rightarrow> (loop_error + int) \<times> jobqueue" where
  "jq_add_timer new_ok interval f q = jq_add_entry new_ok interval f False q"

definition jq_add_wakeable :: "(int \<Rightarrow> bool) \<Rightarrow> job option \<Rightarrow> jobqueue \<Rightarrow> (loop_error + int) \<times> jobqueue" where
  "jq_add_wakeable new_ok f q = jq_add_timer new_ok 0 f q"

definition jq_wake :: "int \<Rightarrow> jobqueue \<Rightarrow> loop_error option \<times> jobqueue" where
  "jq_wake i q = (if jq_find i q = None then (Some (NoSuchJob i), q) else (None, jq_log (EventActive i) q))"

definition jq_repeat :: "int \<Rightarrow> int \<Rightarrow> bool \<Rightarrow> jobqueue \<Rightarrow> loop_error option \<times> jobqueue" where
  "jq_repeat i interval now q =
     (if jq_find i q = None then (Some (NoSuchJob i), q)
      else let q = (if interval > 0 then jq_log (EventAdd i (loop_time_to_timeval interval)) q else jq_disarm i q)
           in (None, if now then jq_log (EventActive i) q else q))"

text \<open>The results of \<open>event_pending\<close> are arguments.\<close>

definition jq_armed :: "(int \<Rightarrow> bool) \<Rightarrow> int \<Rightarrow> jobqueue \<Rightarrow> bool" where
  "jq_armed pending i q \<longleftrightarrow> jq_find i q \<noteq> None \<and> pending i"

definition jq_stop_timer :: "(int \<Rightarrow> bool) \<Rightarrow> int \<Rightarrow> jobqueue \<Rightarrow> bool \<times> jobqueue" where
  "jq_stop_timer pending i q = (if jq_find i q = None then (False, q) else (pending i, jq_disarm i q))"

definition jq_remove :: "int \<Rightarrow> jobqueue \<Rightarrow> bool \<times> jobqueue" where
  "jq_remove i q =
     (if jq_find i q = None then (False, q)
      else (True, jq_log (EventDel i) (q\<lparr>registry := filter (\<lambda>(j, _). j \<noteq> i) (registry q)\<rparr>)))"

section \<open>Running jobs\<close>

record ev_env =
  new_event :: "int \<Rightarrow> bool"
  event_pending :: "int \<Rightarrow> bool"

definition raised :: "(loop_error + int) \<times> jobqueue \<Rightarrow> loop_error option \<times> jobqueue" where
  "raised r = (case r of (Inl e, q) \<Rightarrow> (Some e, q) | (Inr _, q) \<Rightarrow> (None, q))"

text \<open>
  \<open>Call\<close> and \<open>call_get\<close> on the loop thread run the job at once, and its exception is the caller's.
\<close>

fun run_actions :: "ev_env \<Rightarrow> action list \<Rightarrow> jobqueue \<Rightarrow> loop_error option \<times> jobqueue"
and run_action :: "ev_env \<Rightarrow> action \<Rightarrow> jobqueue \<Rightarrow> loop_error option \<times> jobqueue" where
  "run_actions env [] q = (None, q)"
| "run_actions env (a # as) q =
     (case run_action env a q of (Some e, q) \<Rightarrow> (Some e, q) | (None, q) \<Rightarrow> run_actions env as q)"
| "run_action env (CallSoon j) q = jq_call_soon j q"
| "run_action env (Call (Job i g as)) q = run_actions env as (jq_log (RanNow i) q)"
| "run_action env (CallLater delay f) q = raised (jq_call_later (new_event env) delay f q)"
| "run_action env (AddTimer interval f) q = raised (jq_add_timer (new_event env) interval f q)"
| "run_action env (Wake i) q = jq_wake i q"
| "run_action env (Repeat i interval now) q = jq_repeat i interval now q"
| "run_action env (StopTimer i) q = (None, snd (jq_stop_timer (event_pending env) i q))"
| "run_action env (Remove i) q = (None, snd (jq_remove i q))"
| "run_action env StopQueue q = (None, jq_stop q)"
| "run_action env Throw q = (Some UserException, q)"

text \<open>A queued job: exceptions are caught, by the getter of a \<open>call_get\<close> (which passes them on) or by the loop.\<close>

fun run_queued :: "ev_env \<Rightarrow> job \<Rightarrow> jobqueue \<Rightarrow> jobqueue" where
  "run_queued env (Job i g as) q =
     (let (e, q) = run_actions env as (jq_log (Ran i g) q) in if g then jq_log (Answer i e) q else q)"

text \<open>The loop over the swapped-out queue, which is destroyed with what is left in it.\<close>

fun run_jobs :: "ev_env \<Rightarrow> job list \<Rightarrow> jobqueue \<Rightarrow> jobqueue" where
  "run_jobs env [] q = q"
| "run_jobs env (j # js) q =
     (if jq_running q then run_jobs env js (run_queued env j q) else fold drop_job (j # js) q)"

definition process_job_queue :: "ev_env \<Rightarrow> jobqueue \<Rightarrow> jobqueue" where
  "process_job_queue env q = run_jobs env (job_queue q) (q\<lparr>job_queue := [], waker_pending := False\<rparr>)"

text \<open>A timer fires: exceptions are caught, and a one-shot removes itself.\<close>

definition jq_dispatch :: "ev_env \<Rightarrow> int \<Rightarrow> entry \<Rightarrow> jobqueue \<Rightarrow> jobqueue" where
  "jq_dispatch env i e q =
     (case entry_f e of Job _ _ as \<Rightarrow>
        let q = snd (run_actions env as (jq_log (Fired i) q))
        in if one_shot e then snd (jq_remove i q) else q)"

section \<open>Runs\<close>

text \<open>
  What happens to a queue: a call from another thread (the job of a \<open>call_get\<close> has its flag set), the queue's event,
  a timer's event, and other code on the loop thread. libevent calls back an event only if it is
  activated or registered.
\<close>

datatype loop_op =
    OffLoop job
  | WakerEvent
  | TimerEvent int
  | OnLoop "action list"
  | NewTimerElsewhere

fun loop_step :: "ev_env \<Rightarrow> loop_op \<Rightarrow> jobqueue \<Rightarrow> jobqueue" where
  "loop_step env (OffLoop j) q = snd (jq_call_soon j q)"
| "loop_step env WakerEvent q = (if waker_pending q then process_job_queue env q else q)"
| "loop_step env (TimerEvent i) q = (case jq_find i q of None \<Rightarrow> q | Some e \<Rightarrow> jq_dispatch env i e q)"
| "loop_step env (OnLoop as) q = snd (run_actions env as q)"
| "loop_step env NewTimerElsewhere q = q\<lparr>next_timer_id := next_timer_id q + 1\<rparr>"

fun loop_run :: "(ev_env \<times> loop_op) list \<Rightarrow> jobqueue \<Rightarrow> jobqueue" where
  "loop_run [] q = q"
| "loop_run ((env, x) # xs) q = loop_run xs (loop_step env x q)"

end
