(* ===== verification/Loop_Correct.thy ===== *)
theory Loop_Correct
  imports Loop
begin

text \<open>
  The job queue keeps its jobs in order and loses none, answers every blocking call, and its timer registry is
  sound, over every run of the loop.
\<close>

section \<open>What the log tells\<close>

text \<open>The jobs accepted, run and dropped, with their flags, and the callers of \<open>call_get\<close> who have an outcome.\<close>

fun accepted_of :: "loop_call \<Rightarrow> (nat \<times> bool) list" where
  "accepted_of (Accepted i g) = [(i, g)]"
| "accepted_of _ = []"

fun ran_of :: "loop_call \<Rightarrow> (nat \<times> bool) list" where
  "ran_of (Ran i g) = [(i, g)]"
| "ran_of _ = []"

fun dropped_of :: "loop_call \<Rightarrow> (nat \<times> bool) list" where
  "dropped_of (Dropped i g) = [(i, g)]"
| "dropped_of _ = []"

fun settled_of :: "loop_call \<Rightarrow> nat list" where
  "settled_of (Answer i _) = [i]"
| "settled_of (Broken i) = [i]"
| "settled_of _ = []"

definition accepted_jobs :: "jobqueue \<Rightarrow> (nat \<times> bool) list" where
  "accepted_jobs q = concat (map accepted_of (jq_out q))"

definition ran_jobs :: "jobqueue \<Rightarrow> (nat \<times> bool) list" where
  "ran_jobs q = concat (map ran_of (jq_out q))"

definition dropped_jobs :: "jobqueue \<Rightarrow> (nat \<times> bool) list" where
  "dropped_jobs q = concat (map dropped_of (jq_out q))"

definition settled_callers :: "jobqueue \<Rightarrow> nat list" where
  "settled_callers q = concat (map settled_of (jq_out q))"

lemmas log_defs = accepted_jobs_def ran_jobs_def dropped_jobs_def settled_callers_def

lemma log_views [simp]:
  "accepted_jobs (jq_log c q) = accepted_jobs q @ accepted_of c" "ran_jobs (jq_log c q) = ran_jobs q @ ran_of c"
  "dropped_jobs (jq_log c q) = dropped_jobs q @ dropped_of c" "settled_callers (jq_log c q) = settled_callers q @ settled_of c"
  by (simp_all add: log_defs jq_log_def)

lemma log_fields [simp]:
  "jq_running (jq_log c q) = jq_running q" "job_waker (jq_log c q) = job_waker q"
  "waker_pending (jq_log c q) = waker_pending q" "job_queue (jq_log c q) = job_queue q" "registry (jq_log c q) = registry q"
  "registry_stopped (jq_log c q) = registry_stopped q" "next_timer_id (jq_log c q) = next_timer_id q"
  by (simp_all add: jq_log_def)

fun job_key :: "job \<Rightarrow> nat \<times> bool" where
  "job_key (Job i g _) = (i, g)"

definition getters :: "(nat \<times> bool) list \<Rightarrow> nat list" where
  "getters ks = map fst (filter snd ks)"

lemma getters_simps [simp]:
  "getters [] = []" "getters ((i, g) # ks) = (if g then [i] else []) @ getters ks" "getters (ks @ ks') = getters ks @ getters ks'"
  by (simp_all add: getters_def)

section \<open>Invariant\<close>

text \<open>
  \<open>js\<close> are the jobs swapped out and not yet reached, \<open>c\<close> the caller of a \<open>call_get\<close> whose job is running.
\<close>

definition jobs_inv :: "nat list \<Rightarrow> job list \<Rightarrow> jobqueue \<Rightarrow> bool" where
  "jobs_inv c js q \<longleftrightarrow>
     (jq_running q \<longrightarrow> ran_jobs q @ map job_key (js @ job_queue q) = accepted_jobs q \<and> dropped_jobs q = []) \<and>
     (\<not> jq_running q \<longrightarrow> job_queue q = []) \<and> (job_queue q \<noteq> [] \<longrightarrow> waker_pending q) \<and>
     prefix (ran_jobs q) (accepted_jobs q) \<and>
     mset (accepted_jobs q) = mset (ran_jobs q) + mset (dropped_jobs q) + mset (map job_key (js @ job_queue q)) \<and>
     mset (settled_callers q) + mset c = mset (getters (ran_jobs q)) + mset (getters (dropped_jobs q))"

definition timers_inv :: "jobqueue \<Rightarrow> bool" where
  "timers_inv q \<longleftrightarrow> jq_running q = job_waker q \<and> registry_stopped q = (\<not> jq_running q) \<and>
     (\<not> jq_running q \<longrightarrow> registry q = []) \<and>
     distinct (map fst (registry q)) \<and> (\<forall>i \<in> fst ` set (registry q). i < next_timer_id q)"

definition loop_inv :: "nat list \<Rightarrow> job list \<Rightarrow> jobqueue \<Rightarrow> bool" where
  "loop_inv c js q \<longleftrightarrow> jobs_inv c js q \<and> timers_inv q"

text \<open>Log entries that concern neither jobs nor callers.\<close>

definition neutral :: "loop_call \<Rightarrow> bool" where
  "neutral c \<longleftrightarrow> accepted_of c = [] \<and> ran_of c = [] \<and> dropped_of c = [] \<and> settled_of c = []"

lemma neutral_simps [simp]:
  "neutral (RanNow i)" "neutral WakerActive" "neutral (EventAdd k t)" "neutral (EventDel k)" "neutral (EventAssign k)"
  "neutral (EventActive k)" "neutral (EventFinalize k)" "neutral (Fired k)"
  by (simp_all add: neutral_def)

lemma loop_inv_log: "neutral x \<Longrightarrow> loop_inv c js (jq_log x q) = loop_inv c js q"
  by (simp add: loop_inv_def jobs_inv_def timers_inv_def neutral_def)

text \<open>A change of the registry and the id counter alone.\<close>

lemma loop_inv_registry:
  assumes "loop_inv c js q" "distinct (map fst r)" "\<forall>i \<in> fst ` set r. i < n" "jq_running q \<or> r = []"
  shows "loop_inv c js (q\<lparr>registry := r, next_timer_id := n\<rparr>)"
proof -
  let ?q = "q\<lparr>registry := r, next_timer_id := n\<rparr>"
  have "accepted_jobs ?q = accepted_jobs q" "ran_jobs ?q = ran_jobs q" "dropped_jobs ?q = dropped_jobs q" "settled_callers ?q = settled_callers q" by (simp_all add: log_defs)
  then have "jobs_inv c js ?q = jobs_inv c js q" by (simp add: jobs_inv_def)
  then show ?thesis using assms by (auto simp: loop_inv_def timers_inv_def)
qed

lemma call_soon_inv:
  assumes "loop_inv c js q"
  shows "loop_inv c js (snd (jq_call_soon j q))"
proof (cases "jq_running q")
  case True
  obtain i g as where j: "j = Job i g as" by (cases j)
  let ?q = "q\<lparr>job_queue := job_queue q @ [j], waker_pending := True\<rparr>"
  have "accepted_jobs ?q = accepted_jobs q" "ran_jobs ?q = ran_jobs q" "dropped_jobs ?q = dropped_jobs q" "settled_callers ?q = settled_callers q" by (simp_all add: log_defs)
  then have "loop_inv c js (jq_log (Accepted i g) ?q)"
    using assms True by (simp add: j loop_inv_def jobs_inv_def timers_inv_def prefix_prefix)
  then show ?thesis using True by (simp add: jq_call_soon_def j loop_inv_log)
qed (use assms in \<open>simp add: jq_call_soon_def\<close>)

lemma drop_job_effect:
  "dropped_jobs (drop_job j q) = dropped_jobs q @ [job_key j]" "settled_callers (drop_job j q) = settled_callers q @ getters [job_key j]"
  "accepted_jobs (drop_job j q) = accepted_jobs q" "ran_jobs (drop_job j q) = ran_jobs q"
  "jq_running (drop_job j q) = jq_running q" "job_waker (drop_job j q) = job_waker q"
  "waker_pending (drop_job j q) = waker_pending q" "job_queue (drop_job j q) = job_queue q"
  "registry (drop_job j q) = registry q" "registry_stopped (drop_job j q) = registry_stopped q"
  "next_timer_id (drop_job j q) = next_timer_id q"
  by (cases j; simp add: Let_def)+

lemma drop_jobs_effect:
  "dropped_jobs (fold drop_job js q) = dropped_jobs q @ map job_key js"
  "settled_callers (fold drop_job js q) = settled_callers q @ getters (map job_key js)"
  "accepted_jobs (fold drop_job js q) = accepted_jobs q" "ran_jobs (fold drop_job js q) = ran_jobs q"
  "jq_running (fold drop_job js q) = jq_running q" "job_waker (fold drop_job js q) = job_waker q"
  "waker_pending (fold drop_job js q) = waker_pending q" "job_queue (fold drop_job js q) = job_queue q"
  "registry (fold drop_job js q) = registry q" "registry_stopped (fold drop_job js q) = registry_stopped q"
  "next_timer_id (fold drop_job js q) = next_timer_id q"
  by (induction js arbitrary: q) (simp_all add: drop_job_effect getters_def)

lemma finalize_inv: "loop_inv c js (fold (\<lambda>(i, _). jq_log (EventFinalize i)) es q) = loop_inv c js q"
  by (induction es arbitrary: q) (simp_all add: loop_inv_log case_prod_unfold)

lemma jq_stop_inv:
  assumes "loop_inv c js q"
  shows "loop_inv c js (jq_stop q)"
proof (cases "job_waker q")
  case True
  let ?q = "q\<lparr>jq_running := False, job_waker := False, waker_pending := False, job_queue := []\<rparr>"
  let ?d = "fold drop_job (job_queue q) ?q"
  let ?r = "?d\<lparr>registry_stopped := True, registry := []\<rparr>"
  have v: "accepted_jobs ?q = accepted_jobs q" "ran_jobs ?q = ran_jobs q" "dropped_jobs ?q = dropped_jobs q" "settled_callers ?q = settled_callers q"
    "accepted_jobs ?r = accepted_jobs ?d" "ran_jobs ?r = ran_jobs ?d" "dropped_jobs ?r = dropped_jobs ?d" "settled_callers ?r = settled_callers ?d"
    by (simp_all add: log_defs)
  have "jq_running q" using assms True by (simp add: loop_inv_def timers_inv_def)
  then have "loop_inv c js ?r"
    using assms by (simp add: loop_inv_def jobs_inv_def timers_inv_def v drop_jobs_effect)
  then show ?thesis using True by (simp add: jq_stop_def Let_def finalize_inv)
qed (use assms in \<open>simp add: jq_stop_def\<close>)

lemma add_entry_inv:
  assumes "loop_inv c js q"
  shows "loop_inv c js (snd (jq_add_entry ok interval f one q))"
proof (cases "f = None \<or> registry_stopped q")
  case True
  then show ?thesis using assms by (auto simp: jq_add_entry_def split: option.splits)
next
  case False
  then obtain j where j: "f = Some j" "\<not> registry_stopped q" by auto
  have t: "timers_inv q" "jq_running q" using assms j(2) by (auto simp: loop_inv_def timers_inv_def)
  let ?n = "next_timer_id q"
  let ?r = "registry q @ [(?n, \<lparr>entry_f = j, one_shot = one\<rparr>)]"
  have "loop_inv c js (q\<lparr>registry := registry q, next_timer_id := ?n + 1\<rparr>)"
    by (rule loop_inv_registry [OF assms]) (use t in \<open>auto simp: timers_inv_def\<close>)
  moreover have "loop_inv c js (q\<lparr>registry := ?r, next_timer_id := ?n + 1\<rparr>)"
    by (rule loop_inv_registry [OF assms]) (use t in \<open>auto simp: timers_inv_def\<close>)
  moreover have "q\<lparr>registry := registry q, next_timer_id := ?n + 1\<rparr> = q\<lparr>next_timer_id := ?n + 1\<rparr>"
    "q\<lparr>registry := ?r, next_timer_id := ?n + 1\<rparr> = q\<lparr>next_timer_id := ?n + 1, registry := ?r\<rparr>" by simp_all
  ultimately show ?thesis using j by (simp add: jq_add_entry_def Let_def loop_inv_log) auto
qed

lemma remove_inv:
  assumes "loop_inv c js q"
  shows "loop_inv c js (snd (jq_remove i q))"
proof -
  have t: "timers_inv q" using assms by (simp add: loop_inv_def)
  have "loop_inv c js (q\<lparr>registry := filter (\<lambda>(j, _). j \<noteq> i) (registry q), next_timer_id := next_timer_id q\<rparr>)"
    by (rule loop_inv_registry [OF assms]) (use t in \<open>auto simp: timers_inv_def intro: distinct_map_filter\<close>)
  then show ?thesis using assms by (simp add: jq_remove_def loop_inv_log)
qed

lemma timer_ops_inv:
  assumes "loop_inv c js q"
  shows "loop_inv c js (snd (jq_wake i q))" "loop_inv c js (snd (jq_repeat i t now q))"
    "loop_inv c js (snd (jq_stop_timer p i q))"
  using assms
  by (simp_all add: jq_wake_def jq_repeat_def jq_stop_timer_def jq_disarm_def Let_def loop_inv_log)

lemma raised_snd [simp]: "snd (raised r) = snd r"
  by (simp add: raised_def split: prod.splits sum.splits)

lemma run_actions_inv:
  "loop_inv c js q \<Longrightarrow> loop_inv c js (snd (run_actions env as q))"
  "loop_inv c js q \<Longrightarrow> loop_inv c js (snd (run_action env a q))"
proof (induction env as q and env a q rule: run_actions_run_action.induct)
  case (2 env a as q)
  obtain e q' where r: "run_action env a q = (e, q')" by fastforce
  have i: "loop_inv c js q'" using 2(1) [OF 2(3)] r by simp
  show ?case using 2(2) [OF r [symmetric] _ i] i r by (cases e) simp_all
next
  case (4 env i g as q)
  then show ?case by (simp add: loop_inv_log)
qed (simp_all add: call_soon_inv add_entry_inv jq_call_later_def jq_add_timer_def timer_ops_inv remove_inv jq_stop_inv)

lemma loop_inv_answer: "loop_inv [i] js q \<Longrightarrow> loop_inv [] js (jq_log (Answer i e) q)"
  by (simp add: loop_inv_def jobs_inv_def timers_inv_def)

lemma run_queued_inv:
  assumes "loop_inv [] (j # js) q" "jq_running q"
  shows "loop_inv [] js (run_queued env j q)"
proof -
  obtain i g as where j: "j = Job i g as" by (cases j)
  let ?q = "jq_log (Ran i g) q"
  have "loop_inv (if g then [i] else []) js ?q"
  proof -
    have "ran_jobs q @ (i, g) # map job_key (js @ job_queue q) = accepted_jobs q" using assms by (simp add: loop_inv_def jobs_inv_def j)
    then have "prefix (ran_jobs q @ [(i, g)]) (accepted_jobs q)" by (metis append.assoc append_Cons append_Nil prefixI)
    then show ?thesis using assms by (simp add: loop_inv_def jobs_inv_def timers_inv_def j)
  qed
  then have i: "loop_inv (if g then [i] else []) js (snd (run_actions env as ?q))" by (rule run_actions_inv)
  obtain e q' where r: "run_actions env as ?q = (e, q')" by fastforce
  show ?thesis using i loop_inv_answer [of i js q' e] unfolding j run_queued.simps r by (cases g) simp_all
qed

lemma drop_rest_inv:
  assumes "loop_inv [] js q" "\<not> jq_running q"
  shows "loop_inv [] [] (fold drop_job js q)"
  using assms by (simp add: loop_inv_def jobs_inv_def timers_inv_def drop_jobs_effect)

lemma run_jobs_inv: "loop_inv [] js q \<Longrightarrow> loop_inv [] [] (run_jobs env js q)"
proof (induction env js q rule: run_jobs.induct)
  case (2 env j js q)
  show ?case
  proof (cases "jq_running q")
    case True
    then show ?thesis using 2 run_queued_inv by simp
  next
    case False
    then have "run_jobs env (j # js) q = fold drop_job (j # js) q" by simp
    then show ?thesis using drop_rest_inv [OF 2(2) False] by simp
  qed
qed simp

lemma process_inv:
  assumes "loop_inv [] [] q"
  shows "loop_inv [] [] (process_job_queue env q)"
proof -
  let ?q = "q\<lparr>job_queue := [], waker_pending := False\<rparr>"
  have "accepted_jobs ?q = accepted_jobs q" "ran_jobs ?q = ran_jobs q" "dropped_jobs ?q = dropped_jobs q" "settled_callers ?q = settled_callers q" by (simp_all add: log_defs)
  then have "loop_inv [] (job_queue q) ?q" using assms by (simp add: loop_inv_def jobs_inv_def timers_inv_def)
  then show ?thesis unfolding process_job_queue_def by (rule run_jobs_inv)
qed

lemma dispatch_inv:
  assumes "loop_inv c js q"
  shows "loop_inv c js (jq_dispatch env i e q)"
proof -
  obtain k g as where f: "entry_f e = Job k g as" by (cases "entry_f e")
  have "loop_inv c js (jq_log (Fired i) q)" using assms by (simp add: loop_inv_log)
  note r = run_actions_inv(1) [OF this, of env as]
  show ?thesis using r remove_inv [OF r, of i] by (simp add: jq_dispatch_def f Let_def)
qed

lemma loop_step_inv:
  assumes "loop_inv [] [] q"
  shows "loop_inv [] [] (loop_step env x q)"
proof (cases x)
  case NewTimerElsewhere
  have "loop_inv [] [] (q\<lparr>registry := registry q, next_timer_id := next_timer_id q + 1\<rparr>)"
    by (rule loop_inv_registry [OF assms]) (use assms in \<open>auto simp: loop_inv_def timers_inv_def\<close>)
  then show ?thesis using NewTimerElsewhere by simp
next
  case (TimerEvent i)
  then show ?thesis using assms dispatch_inv [OF assms] by (cases "jq_find i q") simp_all
next
  case (OffLoop j)
  then show ?thesis using call_soon_inv [OF assms] by simp
next
  case (OnLoop as)
  then show ?thesis using run_actions_inv(1) [OF assms] by simp
next
  case WakerEvent
  then show ?thesis using process_inv [OF assms] assms by simp
qed

lemma loop_run_inv: "loop_inv [] [] q \<Longrightarrow> loop_inv [] [] (loop_run xs q)"
proof (induction xs q rule: loop_run.induct)
  case (2 env x xs q)
  then show ?case using 2(1) [OF loop_step_inv] by simp
qed simp

lemma jq_ctor_inv: "loop_inv [] [] (jq_ctor n)"
  by (simp add: loop_inv_def jobs_inv_def timers_inv_def jq_ctor_def log_defs)

section \<open>One pass over the queue\<close>

text \<open>Code that runs in a job runs no queued job, and never restarts the queue.\<close>

definition no_queued_run :: "jobqueue \<Rightarrow> jobqueue \<Rightarrow> bool" where
  "no_queued_run q q' \<longleftrightarrow> ran_jobs q' = ran_jobs q \<and> (jq_running q' \<longrightarrow> jq_running q)"

lemma no_queued_run_log: "neutral x \<Longrightarrow> no_queued_run q (jq_log x q') = no_queued_run q q'"
  by (simp add: no_queued_run_def neutral_def)

lemma no_queued_run_trans: "no_queued_run a b \<Longrightarrow> no_queued_run b c \<Longrightarrow> no_queued_run a c"
  by (simp add: no_queued_run_def)

lemma call_soon_no_run: "no_queued_run q (snd (jq_call_soon j q))"
  by (simp add: jq_call_soon_def no_queued_run_def log_defs jq_log_def split: job.splits)

lemma finalize_ran: "ran_jobs (fold (\<lambda>(i, _). jq_log (EventFinalize i)) es q) = ran_jobs q"
  "jq_running (fold (\<lambda>(i, _). jq_log (EventFinalize i)) es q) = jq_running q"
  by (induction es arbitrary: q) (simp_all add: case_prod_unfold)

lemma jq_stop_no_run: "no_queued_run q (jq_stop q)"
proof -
  have v: "ran_jobs (q\<lparr>jq_running := a, job_waker := b, waker_pending := c, job_queue := d\<rparr>) = ran_jobs q"
    "ran_jobs (q\<lparr>registry_stopped := e, registry := f\<rparr>) = ran_jobs q" for a b c d e f q by (simp_all add: log_defs)
  show ?thesis by (simp add: jq_stop_def Let_def no_queued_run_def finalize_ran v drop_jobs_effect)
qed

lemma add_entry_no_run: "no_queued_run q (snd (jq_add_entry ok interval f one q))"
proof -
  have v: "ran_jobs (q\<lparr>next_timer_id := n\<rparr>) = ran_jobs q" "ran_jobs (q\<lparr>next_timer_id := n, registry := r\<rparr>) = ran_jobs q" for n r
    by (simp_all add: log_defs)
  show ?thesis by (simp add: jq_add_entry_def Let_def no_queued_run_def v split: option.splits)
qed

lemma timer_ops_no_run:
  "no_queued_run q (snd (jq_wake i q))" "no_queued_run q (snd (jq_repeat i t now q))"
  "no_queued_run q (snd (jq_stop_timer p i q))" "no_queued_run q (snd (jq_remove i q))"
proof -
  have v: "ran_jobs (q\<lparr>registry := r\<rparr>) = ran_jobs q" for r by (simp add: log_defs)
  show "no_queued_run q (snd (jq_wake i q))" "no_queued_run q (snd (jq_repeat i t now q))"
    "no_queued_run q (snd (jq_stop_timer p i q))" "no_queued_run q (snd (jq_remove i q))"
    by (simp_all add: jq_wake_def jq_repeat_def jq_stop_timer_def jq_remove_def jq_disarm_def Let_def no_queued_run_def v)
qed

lemma run_actions_no_run:
  "no_queued_run q (snd (run_actions env as q))" "no_queued_run q (snd (run_action env a q))"
proof (induction env as q and env a q rule: run_actions_run_action.induct)
  case (1 env q)
  then show ?case by (simp add: no_queued_run_def)
next
  case (2 env a as q)
  obtain e q' where r: "run_action env a q = (e, q')" by fastforce
  have i: "no_queued_run q q'" using 2(1) r by simp
  show ?case
  proof (cases e)
    case None
    then show ?thesis using 2(2) [OF r [symmetric]] no_queued_run_trans [OF i] r by simp
  qed (use i r in simp)
next
  case (4 env i g as q)
  then show ?case using no_queued_run_trans [of q "jq_log (RanNow i) q"] by (simp add: no_queued_run_def)
next
  case (12 env q)
  then show ?case by (simp add: no_queued_run_def)
qed (simp_all add: call_soon_no_run add_entry_no_run jq_call_later_def jq_add_timer_def timer_ops_no_run jq_stop_no_run)

lemma run_queued_ran:
  "ran_jobs (run_queued env j q) = ran_jobs q @ [job_key j]" "jq_running (run_queued env j q) \<Longrightarrow> jq_running q"
proof -
  obtain i g as where j: "j = Job i g as" by (cases j)
  obtain e q' where r: "run_actions env as (jq_log (Ran i g) q) = (e, q')" by fastforce
  have n: "ran_jobs q' = ran_jobs q @ [(i, g)]" "jq_running q' \<Longrightarrow> jq_running q"
    using run_actions_no_run(1) [of "jq_log (Ran i g) q" env as] r by (simp_all add: no_queued_run_def)
  show "ran_jobs (run_queued env j q) = ran_jobs q @ [job_key j]" "jq_running (run_queued env j q) \<Longrightarrow> jq_running q"
    unfolding j run_queued.simps r using n by (simp_all split: if_splits)
qed

lemma run_jobs_ran:
  "\<exists>n \<le> length js. ran_jobs (run_jobs env js q) = ran_jobs q @ map job_key (take n js) \<and>
    (jq_running (run_jobs env js q) \<longrightarrow> n = length js)"
proof (induction env js q rule: run_jobs.induct)
  case (2 env j js q)
  show ?case
  proof (cases "jq_running q")
    case True
    obtain n where "n \<le> length js"
      "ran_jobs (run_jobs env js (run_queued env j q)) = ran_jobs (run_queued env j q) @ map job_key (take n js)"
      "jq_running (run_jobs env js (run_queued env j q)) \<longrightarrow> n = length js"
      using 2 [OF True] by blast
    then show ?thesis using True by (intro exI [of _ "Suc n"]) (simp add: run_queued_ran(1))
  next
    case False
    then have r: "run_jobs env (j # js) q = fold drop_job (j # js) q" by simp
    show ?thesis unfolding r using False by (intro exI [of _ 0]) (simp only: drop_jobs_effect, simp)
  qed
qed simp

section \<open>Main results\<close>

text \<open>
  A pass over the queue terminates whatever the jobs do. \<open>process_job_queue\<close> runs jobs that were queued when it
  began, in order and each once, and no other queued job: a job that queues itself again runs again in
  the next pass only. Unless a job stops the queue, all of them are run.
\<close>

theorem process_job_queue_terminates:
  "\<exists>n. n \<le> length (job_queue q) \<and>
     ran_jobs (process_job_queue env q) = ran_jobs q @ map job_key (take n (job_queue q)) \<and>
     (if jq_running (process_job_queue env q) then n = length (job_queue q) else True)"
proof -
  have "ran_jobs (q\<lparr>job_queue := [], waker_pending := False\<rparr>) = ran_jobs q" by (simp add: log_defs)
  then show ?thesis
    using run_jobs_ran [of "job_queue q" env "q\<lparr>job_queue := [], waker_pending := False\<rparr>"]
    by (auto simp: process_job_queue_def)
qed

text \<open>
  C17: Queued jobs run in the order in which they were accepted, none twice and none lost: at any point of any
  run, while the queue is running the jobs run and those still queued are exactly the accepted ones,
  in order, and if any is queued the queue's event has been activated; once it is stopped every accepted job
  has either run or been dropped. Every \<open>call_get\<close> from another thread whose job has run
  or been dropped has been given exactly one outcome, so its caller does not wait forever.
\<close>

theorem job_queue_in_order:
  "let q = loop_run ops (jq_ctor n) in
     prefix (ran_jobs q) (accepted_jobs q) \<and>
     (if jq_running q
      then ran_jobs q @ map job_key (job_queue q) = accepted_jobs q \<and> (if job_queue q = [] then True else waker_pending q)
      else job_queue q = [] \<and> mset (accepted_jobs q) = mset (ran_jobs q) + mset (dropped_jobs q)) \<and>
     mset (settled_callers q) = mset (getters (ran_jobs q)) + mset (getters (dropped_jobs q))"
  using loop_run_inv [OF jq_ctor_inv, of ops n] by (simp add: Let_def loop_inv_def jobs_inv_def)

text \<open>
  C30: Timers: at any point of any run, no id is registered twice, the id of the next timer is not
  registered, and a stopped queue has no timers and refuses new ones; an id that is not registered is refused by \<open>wake\<close>
  and \<open>repeat\<close> and ignored by \<open>stop\<close> and \<open>remove\<close>; a timer of \<open>call_later\<close> is gone after it has
  fired.
\<close>

theorem timer_registry_sound:
  "let q = loop_run ops (jq_ctor n) in
     distinct (map fst (registry q)) \<and> jq_find (next_timer_id q) q = None \<and>
     (if jq_running q then True
      else registry q = [] \<and> jq_add_entry ok interval (Some j) one q = (Inl QueueStopped, q)) \<and>
     (case jq_find i q of
        None \<Rightarrow> jq_wake i q = (Some (NoSuchJob i), q) \<and> jq_repeat i interval now q = (Some (NoSuchJob i), q) \<and>
          jq_stop_timer pending i q = (False, q) \<and> jq_remove i q = (False, q)
      | Some e \<Rightarrow> if one_shot e then jq_find i (loop_step env (TimerEvent i) q) = None else True)"
proof -
  let ?q = "loop_run ops (jq_ctor n)"
  have t: "timers_inv ?q" using loop_run_inv [OF jq_ctor_inv, of ops n] by (simp add: loop_inv_def)
  have g: "jq_find i (snd (jq_remove i q)) = None" for q
    by (auto simp: jq_remove_def jq_find_def map_of_eq_None_iff)
  have "jq_find (next_timer_id ?q) ?q = None" using t by (auto simp: timers_inv_def jq_find_def map_of_eq_None_iff)
  then show ?thesis
    using t g
    by (auto simp: Let_def timers_inv_def jq_add_entry_def jq_wake_def jq_repeat_def jq_stop_timer_def jq_remove_def
        jq_dispatch_def split: option.splits job.splits)
qed

end
