(* ===== verification/Conn_Streams.thy ===== *)
theory Conn_Streams
  imports Stream_Correct Io_Result Std_Map
begin

text \<open>
  The streams of a connection (\<open>connection.hpp\<close>, \<open>connection.cpp\<close>): the open streams by id, the streams queued for
  ids the other side has yet to open, and the streams waiting for the other side to allow more. The operations are the
  application's (opening and queuing streams, and the stream's own operations) and the callbacks of
  ngtcp2 (a stream opened, its data received or acknowledged, closed; 0-RTT data rejected).

  A stream is an object with an identity and the state of \<open>Stream_Model\<close>. One that the connection lets go of stays
  with the application, in \<open>released\<close>. What ngtcp2 answers is an argument: the ids it gives to new streams, which
  ids are bidirectional and which are ours, whether the connection is closing or draining.
\<close>

section \<open>State\<close>

type_synonym object = "nat \<times> stream"

datatype conn_call =
    EstablishedCallback
  | StreamOpenCallback nat
  | ExtendMaxStreamsBidi
  | ExtendMaxOffset nat
  | ConnPacketIoReady
  | EarlyDataEnd bool
  | DetachDatagrams
  | DetachPseudoStream

record conn_streams =
  streams :: "(int \<times> object) list"
  stream_queue :: "(int \<times> object) list"
  pending_streams :: "object list"
  next_incoming_stream_id :: int
  establish_hook_called :: bool
  released :: "object list"
  has_dgrams :: bool
  has_pseudo_stream :: bool
  conn_out :: "conn_call list"

definition conn_ctor :: "bool \<Rightarrow> bool \<Rightarrow> conn_streams" where
  "conn_ctor is_outbound datagrams =
     \<lparr>streams = [], stream_queue = [], pending_streams = [], next_incoming_stream_id = (if is_outbound then 1 else 0),
      establish_hook_called = False, released = [], has_dgrams = datagrams, has_pseudo_stream = True, conn_out = []\<rparr>"

definition conn_emit :: "conn_call \<Rightarrow> conn_streams \<Rightarrow> conn_streams" where
  "conn_emit x c = c\<lparr>conn_out := conn_out c @ [x]\<rparr>"

definition release :: "object \<Rightarrow> conn_streams \<Rightarrow> conn_streams" where
  "release x c = c\<lparr>released := released c @ [x]\<rparr>"

record ng_env =
  is_bidi_stream :: "int \<Rightarrow> bool"
  is_local_stream :: "int \<Rightarrow> bool"

text \<open>The outcome of a callback: whether it reports success, an exception that leaves it, a failed assertion.\<close>

datatype conn_error = OutOfRange | BadAppCode

datatype conn_result = ConnRet bool conn_streams | ConnThrow conn_error | ConnAbort

definition check_established :: "conn_streams \<Rightarrow> conn_streams" where
  "check_established c =
     (if establish_hook_called c then c
      else conn_emit EstablishedCallback (c\<lparr>establish_hook_called := True\<rparr>))"

section \<open>Opening streams\<close>

text \<open>The last argument but one are the ids ngtcp2 gives for new streams until it refuses.\<close>

fun check_pending_streams :: "nat \<Rightarrow> int list \<Rightarrow> conn_streams \<Rightarrow> conn_streams" where
  "check_pending_streams available [] c = c"
| "check_pending_streams available (i # ids) c =
     (if available = 0 then c
      else case pending_streams c of
             [] \<Rightarrow> c
           | (ob, s) # rest \<Rightarrow>
               let s = set_ready True (s\<lparr>stream_id := i\<rparr>)
               in check_pending_streams (available - 1) ids
                    (c\<lparr>streams := map_put i (ob, s) (streams c), pending_streams := rest\<rparr>))"

definition stream_execute_close :: "nat \<Rightarrow> stream \<Rightarrow> stream" where
  "stream_execute_close app_code s =
     (let was_closing = is_closing s;
          s = disable_watermarks (s\<lparr>is_closing := True\<rparr>)
      in if was_closing then s else stream_closed app_code s)"

text \<open>\<open>queue_incoming_stream\<close> and \<open>open_stream\<close>, given the stream that was constructed for it.\<close>

definition queue_incoming_stream :: "bool \<Rightarrow> object \<Rightarrow> conn_streams \<Rightarrow> conn_streams option" where
  "queue_incoming_stream ended x c =
     (case x of (ob, s) \<Rightarrow>
        if ready s then None
        else let s = s\<lparr>stream_id := next_incoming_stream_id c\<rparr>;
                 c = c\<lparr>next_incoming_stream_id := next_incoming_stream_id c + 4\<rparr>
             in if ended then Some (release (ob, stream_execute_close STREAM_ERROR_CONNECTION_CLOSED s) c)
                else Some (c\<lparr>stream_queue := map_put (stream_id s) (ob, s) (stream_queue c)\<rparr>))"

definition open_stream :: "bool \<Rightarrow> int option \<Rightarrow> object \<Rightarrow> conn_streams \<Rightarrow> conn_streams option" where
  "open_stream ended opened x c =
     (case x of (ob, s) \<Rightarrow>
        if ready s then None
        else if ended then Some (release (ob, stream_execute_close STREAM_ERROR_CONNECTION_CLOSED s) c)
        else case opened of
               None \<Rightarrow> Some (c\<lparr>pending_streams := pending_streams c @ [(ob, s)]\<rparr>)
             | Some i \<Rightarrow>
                 let s = set_ready True (s\<lparr>stream_id := i\<rparr>);
                     c = (if notify s then conn_emit ConnPacketIoReady c else c)
                 in Some (c\<lparr>streams := map_put i (ob, s) (streams c)\<rparr>))"

definition get_stream :: "int \<Rightarrow> conn_streams \<Rightarrow> object option" where
  "get_stream i c = (case map_of (streams c) i of Some x \<Rightarrow> Some x | None \<Rightarrow> map_of (stream_queue c) i)"

text \<open>
  The other side opens a stream: a queued one is used if there is one for the id, otherwise the constructed
  one, which the open callback (if there is one) may refuse with a code.
\<close>

definition accept_stream :: "int \<Rightarrow> object \<Rightarrow> nat option \<Rightarrow> conn_streams \<Rightarrow> conn_result" where
  "accept_stream i x open_cb c =
     (let (ob, s) = x;
          s = set_ready True (s\<lparr>stream_id := i\<rparr>);
          c = (if open_cb \<noteq> None then conn_emit (StreamOpenCallback ob) c else c);
          app_err_code = (case open_cb of None \<Rightarrow> 0 | Some k \<Rightarrow> k)
      in if app_err_code \<noteq> 0
         then (case stream_close app_err_code s of
                 Inl _ \<Rightarrow> ConnThrow BadAppCode
               | Inr s \<Rightarrow> ConnRet True (release (ob, s) c))
         else if i \<in> fst ` set (streams c) then ConnAbort
         else ConnRet True (c\<lparr>streams := map_put i (ob, s) (streams c)\<rparr>))"

definition stream_opened :: "int \<Rightarrow> object \<Rightarrow> nat option \<Rightarrow> conn_streams \<Rightarrow> conn_result" where
  "stream_opened i x open_cb c =
     (let c = check_established c
      in case map_of (stream_queue c) i of
           Some (ob, s) \<Rightarrow>
             if i \<in> fst ` set (streams c) then ConnAbort
             else ConnRet True (c\<lparr>streams := map_put i (ob, set_ready True s) (streams c),
                                  stream_queue := map_erase i (stream_queue c)\<rparr>)
         | None \<Rightarrow>
             accept_stream i x open_cb
               (if i = next_incoming_stream_id c then c\<lparr>next_incoming_stream_id := i + 4\<rparr> else c))"

section \<open>Closing streams\<close>

definition conn_stream_closed :: "ng_env \<Rightarrow> int \<Rightarrow> nat \<Rightarrow> conn_streams \<Rightarrow> conn_streams option" where
  "conn_stream_closed env i app_code c =
     (if \<not> is_bidi_stream env i then None
      else case map_of (streams c) i of
             None \<Rightarrow> Some c
           | Some (ob, s) \<Rightarrow>
               let c = c\<lparr>streams := map_erase i (streams c)\<rparr>;
                   c = release (ob, stream_execute_close app_code s) c;
                   c = (if is_local_stream env i then c else conn_emit ExtendMaxStreamsBidi c)
               in Some (conn_emit ConnPacketIoReady c))"

text \<open>The loop that closes the open streams, the first one each time.\<close>

lemma conn_stream_closed_shorter:
  assumes "conn_stream_closed env (fst (hd (streams c))) code c = Some c'" "streams c \<noteq> []"
  shows "length (streams c') < length (streams c)"
proof -
  obtain i x m where m: "streams c = (i, x) # m" using assms(2) by (cases "streams c") auto
  have "length (map_erase i ((i, x) # m)) < length ((i, x) # m)"
    by (simp add: map_erase_def less_Suc_eq_le)
  then show ?thesis
    using assms(1) m by (auto simp: conn_stream_closed_def Let_def release_def conn_emit_def split: if_splits prod.splits)
qed

function close_open_streams :: "ng_env \<Rightarrow> conn_streams \<Rightarrow> conn_streams option" where
  "close_open_streams env c =
     (if streams c = [] then Some c
      else case conn_stream_closed env (fst (hd (streams c))) STREAM_ERROR_CONNECTION_CLOSED c of
             None \<Rightarrow> None
           | Some c \<Rightarrow> close_open_streams env c)"
  by pat_completeness auto
termination
  by (relation "measure (\<lambda>(env, c). length (streams c))") (auto dest: conn_stream_closed_shorter)

declare close_open_streams.simps [simp del]

definition close_object :: "object \<Rightarrow> object" where
  "close_object x = (fst x, stream_execute_close STREAM_ERROR_CONNECTION_CLOSED (snd x))"

definition close_all_streams :: "ng_env \<Rightarrow> conn_streams \<Rightarrow> conn_streams option" where
  "close_all_streams env c =
     (let c = c\<lparr>released := released c @ map (close_object \<circ> snd) (stream_queue c), stream_queue := []\<rparr>;
          c = c\<lparr>released := released c @ map close_object (pending_streams c), pending_streams := []\<rparr>
      in close_open_streams env c)"

definition detach :: "object \<Rightarrow> object" where
  "detach x = (fst x, (snd x)\<lparr>conn := False\<rparr>)"

definition drop_streams :: "conn_streams \<Rightarrow> conn_streams" where
  "drop_streams c =
     (let c = c\<lparr>released := released c @ map (detach \<circ> snd) (streams c) @ map (detach \<circ> snd) (stream_queue c) @
                  map detach (pending_streams c),
                streams := [], stream_queue := [], pending_streams := []\<rparr>;
          c = (if has_dgrams c then conn_emit DetachDatagrams (c\<lparr>has_dgrams := False\<rparr>) else c)
      in if has_pseudo_stream c then conn_emit DetachPseudoStream (c\<lparr>has_pseudo_stream := False\<rparr>) else c)"

section \<open>Data\<close>

text \<open>A stream found by id is changed where it is.\<close>

definition put_stream :: "int \<Rightarrow> object \<Rightarrow> conn_streams \<Rightarrow> conn_streams" where
  "put_stream i x c =
     (if map_of (streams c) i \<noteq> None then c\<lparr>streams := map_put i x (streams c)\<rparr>
      else c\<lparr>stream_queue := map_put i x (stream_queue c)\<rparr>)"

definition stream_ack :: "int \<Rightarrow> nat \<Rightarrow> conn_streams \<Rightarrow> conn_streams option" where
  "stream_ack i n c =
     (case map_of (streams c) i of
        None \<Rightarrow> Some c
      | Some (ob, s) \<Rightarrow>
          (case acknowledge n s of None \<Rightarrow> None | Some s \<Rightarrow> Some (c\<lparr>streams := map_put i (ob, s) (streams c)\<rparr>)))"

text \<open>What the data callback does: returns, throws a code for closing the stream, or throws anything else.\<close>

datatype data_outcome = DataOk | DataError nat | DataException

definition conn_stream_receive :: "int \<Rightarrow> bytes \<Rightarrow> bool \<Rightarrow> data_outcome \<Rightarrow> conn_streams \<Rightarrow> conn_result" where
  "conn_stream_receive i data fin outcome c =
     (case get_stream i c of
        None \<Rightarrow> ConnThrow OutOfRange
      | Some (ob, s) \<Rightarrow>
          if data = [] then ConnRet True (put_stream i (ob, if fin then on_fin s else s) c)
          else let error = (if \<not> data_callback s then None
                            else case outcome of
                                   DataOk \<Rightarrow> None
                                 | DataError e \<Rightarrow> Some e
                                 | DataException \<Rightarrow> Some STREAM_ERROR_EXCEPTION);
                   s = stream_receive data s
               in case error of
                    Some e \<Rightarrow>
                      (case stream_close e s of
                         Inl _ \<Rightarrow> ConnThrow BadAppCode
                       | Inr s \<Rightarrow> ConnRet False (put_stream i (ob, s) c))
                  | None \<Rightarrow>
                      if fin then ConnRet True (put_stream i (ob, on_fin s) c)
                      else ConnRet True
                             (conn_emit (ExtendMaxOffset (length data))
                                (put_stream i (ob, stream_credit (length data) s) c)))"

section \<open>Rejected 0-RTT data\<close>

text \<open>
  The open streams, from the last to the first, go back to the front of the pending ones (those of the
  other side to the queue, which does not happen).
\<close>

definition revert_object :: "object \<Rightarrow> object" where
  "revert_object x = (fst x, set_ready False (revert_stream (snd x)))"

fun revert_streams :: "(int \<times> object) list \<Rightarrow> conn_streams \<Rightarrow> conn_streams" where
  "revert_streams [] c = c"
| "revert_streams ((i, x) # m) c =
     revert_streams m
       (if even i then c\<lparr>pending_streams := revert_object x # pending_streams c\<rparr>
        else c\<lparr>stream_queue := map_put i (revert_object x) (stream_queue c)\<rparr>)"

definition watermark_check_object :: "nat set \<Rightarrow> object \<Rightarrow> object" where
  "watermark_check_object obs x = (if fst x \<in> obs then (fst x, check_watermark_if_enabled (snd x)) else x)"

text \<open>The arguments are the number of streams ngtcp2 has left and the ids it gives.\<close>

definition revert_early_channels :: "nat \<Rightarrow> int list \<Rightarrow> conn_streams \<Rightarrow> conn_streams" where
  "revert_early_channels remaining ids c =
     (let reverted = set (map (fst \<circ> snd) (streams c));
          c = revert_streams (rev (streams c)) c;
          c = c\<lparr>streams := []\<rparr>;
          c = (if remaining > 0 then check_pending_streams remaining ids c else c);
          c = (if has_dgrams c then conn_emit (EarlyDataEnd False) c else c)
      in c\<lparr>streams := map (apsnd (watermark_check_object reverted)) (streams c),
           stream_queue := map (apsnd (watermark_check_object reverted)) (stream_queue c),
           pending_streams := map (watermark_check_object reverted) (pending_streams c)\<rparr>)"

definition num_streams_active :: "conn_streams \<Rightarrow> nat" where
  "num_streams_active c = length (streams c)"

definition num_streams_pending :: "conn_streams \<Rightarrow> nat" where
  "num_streams_pending c = length (pending_streams c)"

end
