(* ===== verification/Conn_Streams_Correct.thy ===== *)
theory Conn_Streams_Correct
  imports Conn_Streams
begin

text \<open>
  Where the stream objects of a connection are and what state they are in, whatever the application, ngtcp2 and the
  endpoint do. The invariant \<open>conn_inv\<close> has two parts: \<open>placed\<close> (the open, queued and pending streams are under the right ids,
  and ready or not accordingly) and \<open>held_ok\<close> (no object is in two places, every object satisfies the invariant of
  streams and its close callback ran at most once). Every operation keeps it, so the operations form an operation
  system. The last part is the rejection of 0-RTT data.
\<close>

section \<open>Objects\<close>

fun is_close_call :: "stream_call \<Rightarrow> bool" where
  "is_close_call (CloseCallback _) = True"
| "is_close_call _ = False"

definition close_calls :: "stream \<Rightarrow> nat" where
  "close_calls s = length (filter is_close_call (out s))"

lemma close_calls_emit [simp]: "close_calls (emit x s) = close_calls s + of_bool (is_close_call x)"
  by (simp add: close_calls_def emit_def)

lemma close_calls_check_watermark [simp]: "close_calls (check_watermark s) = close_calls s"
  by (simp add: check_watermark_def Let_def split: option.splits) (simp add: close_calls_def)

lemma close_calls_update [simp]:
  "close_calls (s\<lparr>conn := b\<rparr>) = close_calls s" "close_calls (s\<lparr>stream_id := i\<rparr>) = close_calls s"
  "close_calls (s\<lparr>unsent_size := a\<rparr>) = close_calls s" "close_calls (s\<lparr>unacked_size := a\<rparr>) = close_calls s"
  "close_calls (s\<lparr>acked_bytes := a\<rparr>) = close_calls s" "close_calls (s\<lparr>user_buffers := bs\<rparr>) = close_calls s"
  "close_calls (s\<lparr>current_buffer_index := a\<rparr>) = close_calls s"
  "close_calls (s\<lparr>current_buffer_offset := a\<rparr>) = close_calls s"
  "close_calls (s\<lparr>front_trimmed := a\<rparr>) = close_calls s" "close_calls (s\<lparr>notify := b\<rparr>) = close_calls s"
  "close_calls (s\<lparr>is_closing := b\<rparr>) = close_calls s" "close_calls (s\<lparr>send_fin := b\<rparr>) = close_calls s"
  "close_calls (s\<lparr>sent_fin := b\<rparr>) = close_calls s" "close_calls (s\<lparr>received_fin := b\<rparr>) = close_calls s"
  "close_calls (s\<lparr>ready := b\<rparr>) = close_calls s" "close_calls (s\<lparr>paused := b\<rparr>) = close_calls s"
  "close_calls (s\<lparr>paused_offset := a\<rparr>) = close_calls s" "close_calls (s\<lparr>data_callback := b\<rparr>) = close_calls s"
  "close_calls (s\<lparr>close_callback := b\<rparr>) = close_calls s" "close_calls (s\<lparr>fin_callback := b\<rparr>) = close_calls s"
  "close_calls (s\<lparr>watermarking := w\<rparr>) = close_calls s" "close_calls (s\<lparr>watermark_alarm := b\<rparr>) = close_calls s"
  "close_calls (s\<lparr>watermark_on_alarm := b\<rparr>) = close_calls s" "close_calls (s\<lparr>watermark_on_clear := b\<rparr>) = close_calls s"
  by (simp_all add: close_calls_def)

text \<open>A good object: the invariant of streams, and a close callback at most once, and then the stream is closing.\<close>

definition obj_ok :: "stream \<Rightarrow> bool" where
  "obj_ok s \<longleftrightarrow> stream_inv s \<and> close_calls s \<le> of_bool (is_closing s)"

text \<open>The operations the connection keeps to itself.\<close>

fun internal_op :: "stream_op \<Rightarrow> bool" where
  "internal_op (OpClosed _) = True"
| "internal_op (OpSetReady _) = True"
| "internal_op _ = False"

lemma stream_step_outside:
  assumes "stream_step x s = Some s'" "\<not> internal_op x"
  shows "close_calls s' = close_calls s \<and> (is_closing s \<longrightarrow> is_closing s') \<and> stream_id s' = stream_id s \<and> ready s' = ready s"
proof (cases "moves_data x")
  case True
  then show ?thesis using assms
    by (cases x) (auto simp: stream_send_impl_def append_buffer_def wrote_def acknowledge_def withdraw_def
        revert_stream_def check_watermark_if_enabled_eq Let_def split: if_splits option.splits prod.splits)
next
  case False
  then show ?thesis using assms
    by (cases x) (auto simp: enable_watermarks_def disable_watermarks_def stream_pause_def stream_resume_def
      stream_receive_def stream_credit_def on_fin_def stream_send_fin_def stream_close_def
      set_data_callback_def set_close_callback_def set_fin_callback_def Let_def split: if_splits sum.splits)
qed

lemma stream_op_obj_ok:
  assumes "obj_ok s" "stream_op_ok x s" "\<not> internal_op x"
  shows "\<exists>s'. stream_step x s = Some s' \<and> obj_ok s' \<and> stream_id s' = stream_id s \<and> ready s' = ready s"
proof -
  obtain s' where s': "stream_step x s = Some s'" "stream_inv s'"
    using stream_sys.step_inv [of s x] assms by (auto simp: obj_ok_def)
  show ?thesis
    using s' stream_step_outside [OF s'(1) assms(3)] assms(1) by (cases "is_closing s") (auto simp: obj_ok_def of_bool_def)
qed

lemma stream_inv_cong:
  assumes "user_buffers s' = user_buffers s" "unsent_size s' = unsent_size s" "unacked_size s' = unacked_size s"
    "acked_bytes s' = acked_bytes s" "current_buffer_index s' = current_buffer_index s"
    "current_buffer_offset s' = current_buffer_offset s" "front_trimmed s' = front_trimmed s"
    "watermarking s' = watermarking s" "watermark_alarm s' = watermark_alarm s" "paused s' = paused s"
    "paused_offset s' = paused_offset s"
  shows "stream_inv s' = stream_inv s"
  using buffer_inv_cong [of s' s] watermark_inv_cong [of s' s] assms by (simp add: stream_inv_def pause_inv_def)

lemma obj_ok_set_ready: "obj_ok s \<Longrightarrow> obj_ok (set_ready r s)"
proof -
  assume "obj_ok s"
  moreover have "stream_inv (set_ready r s) = stream_inv s" by (rule stream_inv_cong) (simp_all add: set_ready_def Let_def)
  moreover have "close_calls (set_ready r s) = close_calls s" "is_closing (set_ready r s) = is_closing s"
    by (simp_all add: set_ready_def Let_def)
  ultimately show ?thesis by (simp add: obj_ok_def)
qed

lemma obj_ok_id: "obj_ok (s\<lparr>stream_id := i\<rparr>) = obj_ok s"
  using stream_inv_cong [of "s\<lparr>stream_id := i\<rparr>" s] by (simp add: obj_ok_def close_calls_def)

lemma set_ready_fields [simp]: "ready (set_ready r s) = r" "stream_id (set_ready r s) = stream_id s"
  by (simp_all add: set_ready_def Let_def)

lemma obj_ok_execute_close:
  assumes "obj_ok s"
  shows "obj_ok (stream_execute_close code s)" "is_closing (stream_execute_close code s)"
proof -
  let ?d = "disable_watermarks (s\<lparr>is_closing := True\<rparr>)"
  have "stream_inv (s\<lparr>is_closing := True\<rparr>)" using assms stream_inv_cong [of "s\<lparr>is_closing := True\<rparr>" s] by (simp add: obj_ok_def)
  then have d: "stream_inv ?d" using stream_sys.step_inv [of _ OpDisableWatermarks] by auto
  then have c: "stream_inv (stream_closed code ?d)" using stream_sys.step_inv [of _ "OpClosed code"] by auto
  have n: "close_calls ?d = close_calls s" "is_closing ?d" by (simp_all add: disable_watermarks_def close_calls_def)
  have n': "close_calls (stream_closed code ?d) \<le> close_calls s + 1" "is_closing (stream_closed code ?d)"
    using n(1) by (simp_all add: stream_closed_def Let_def)
  show "obj_ok (stream_execute_close code s)" "is_closing (stream_execute_close code s)"
    using assms c d n n' by (auto simp: stream_execute_close_def Let_def obj_ok_def)
qed

lemma obj_ok_step: "obj_ok s \<Longrightarrow> stream_step x s = Some s' \<Longrightarrow> stream_op_ok x s \<Longrightarrow> \<not> internal_op x \<Longrightarrow>
    obj_ok s' \<and> stream_id s' = stream_id s \<and> ready s' = ready s"
  using stream_op_obj_ok by fastforce

section \<open>Where the streams are\<close>

definition held :: "conn_streams \<Rightarrow> object multiset" where
  "held c = mset (map snd (streams c)) + mset (map snd (stream_queue c)) + mset (pending_streams c) + mset (released c)"

text \<open>No object is in two places, and all objects are good.\<close>

abbreviation good :: "object \<Rightarrow> bool" where
  "good x \<equiv> obj_ok (snd x)"

definition held_ok :: "(object \<Rightarrow> bool) \<Rightarrow> object multiset \<Rightarrow> bool" where
  "held_ok P H \<longleftrightarrow> (\<forall>t. count (image_mset fst H) t \<le> 1) \<and> (\<forall>x \<in># H. P x)"

text \<open>The open streams are ready and under their ids; the queued and pending ones are not ready.\<close>

definition placed :: "conn_streams \<Rightarrow> bool" where
  "placed c \<longleftrightarrow> map_ok (streams c) \<and> map_ok (stream_queue c) \<and>
     (\<forall>(i, ob, s) \<in> set (streams c). stream_id s = i \<and> ready s) \<and>
     (\<forall>(i, ob, s) \<in> set (stream_queue c). stream_id s = i \<and> \<not> ready s \<and> i < next_incoming_stream_id c) \<and>
     (\<forall>(ob, s) \<in> set (pending_streams c). \<not> ready s)"

definition conn_inv :: "conn_streams \<Rightarrow> bool" where
  "conn_inv c \<longleftrightarrow> placed c \<and> held_ok good (held c)"

lemma conn_emit_fields [simp]:
  "streams (conn_emit x c) = streams c" "stream_queue (conn_emit x c) = stream_queue c"
  "pending_streams (conn_emit x c) = pending_streams c" "next_incoming_stream_id (conn_emit x c) = next_incoming_stream_id c"
  "released (conn_emit x c) = released c"
  by (simp_all add: conn_emit_def)

lemma conn_inv_emit [simp]: "conn_inv (conn_emit x c) = conn_inv c"
  by (simp add: conn_inv_def placed_def held_def)

lemma release_fields [simp]:
  "streams (release x c) = streams c" "stream_queue (release x c) = stream_queue c"
  "pending_streams (release x c) = pending_streams c" "next_incoming_stream_id (release x c) = next_incoming_stream_id c"
  "held (release x c) = add_mset x (held c)" "released (release x c) = released c @ [x]"
  by (simp_all add: release_def held_def)

lemma placed_release [simp]: "placed (release x c) = placed c"
  by (simp add: placed_def)

lemma check_established_keeps [simp]:
  "streams (check_established c) = streams c" "stream_queue (check_established c) = stream_queue c"
  "next_incoming_stream_id (check_established c) = next_incoming_stream_id c"
  "conn_inv (check_established c) = conn_inv c"
  by (simp_all add: check_established_def) (simp add: conn_inv_def placed_def held_def)

text \<open>A new object, and an object that is replaced.\<close>

definition fresh :: "object \<Rightarrow> conn_streams \<Rightarrow> bool" where
  "fresh x c \<longleftrightarrow> fst x \<notin> fst ` set_mset (held c) \<and> obj_ok (snd x) \<and> \<not> ready (snd x)"

lemma held_ok_add: "held_ok P H \<Longrightarrow> fst x \<notin> fst ` set_mset H \<Longrightarrow> P x \<Longrightarrow> held_ok P (add_mset x H)"
  by (auto simp: held_ok_def count_eq_zero_iff)

lemma held_ok_replace:
  assumes "held_ok P H" "add_mset (t, s) H' = add_mset (t, s') H" "P (t, s')"
  shows "held_ok P H'"
proof -
  have "add_mset t (image_mset fst H') = add_mset t (image_mset fst H)"
    using arg_cong [OF assms(2), of "image_mset fst"] by simp
  moreover have "set_mset H' \<subseteq> insert (t, s') (set_mset H)" using assms(2) by (metis insert_subset set_mset_add_mset_insert subset_insertI)
  ultimately show ?thesis using assms(1,3) by (auto simp: held_ok_def)
qed

lemma held_good_replace:
  "held_ok good H \<Longrightarrow> add_mset (t, s) H' = add_mset (t, s') H \<Longrightarrow> obj_ok s' \<Longrightarrow> held_ok good H'"
  using held_ok_replace [where P = good] by simp

lemma held_objects: "conn_inv c \<Longrightarrow> x \<in># held c \<Longrightarrow> obj_ok (snd x)"
  by (simp add: conn_inv_def held_ok_def)

lemma held_streams: "(i, x) \<in> set (streams c) \<Longrightarrow> x \<in># held c" "(i, x) \<in> set (stream_queue c) \<Longrightarrow> x \<in># held c"
  "x \<in> set (pending_streams c) \<Longrightarrow> x \<in># held c"
  by (force simp: held_def)+

lemma mset_put_snd: "k \<notin> fst ` set m \<Longrightarrow> mset (map snd (map_put k v m)) = add_mset v (mset (map snd m))"
  by (simp add: mset_map_put)

lemma mset_erase_snd:
  assumes "map_ok m" "map_of m k = Some v"
  shows "add_mset v (mset (map snd (map_erase k m))) = mset (map snd m)"
  using mset_map_erase [OF map_ok_distinct [OF assms(1)] assms(2)] by simp

lemma mset_update_snd:
  assumes "map_ok m" "map_of m k = Some v"
  shows "add_mset v (mset (map snd (map_put k w m))) = add_mset w (mset (map snd m))"
  using assms
proof (induction k w m rule: map_put.induct)
  case (2 k w k' w' m)
  have "\<not> k < k'" using 2(2,3) by (fastforce simp: map_ok_def dest: map_of_SomeD split: if_splits)
  then show ?case using 2 by (auto simp: map_ok_def add_mset_commute)
qed simp

section \<open>Every operation keeps the invariant\<close>

lemma held_put: "i \<notin> fst ` set (streams c) \<Longrightarrow> held (c\<lparr>streams := map_put i x (streams c)\<rparr>) = add_mset x (held c)"
  using mset_put_snd [of i "streams c" x] by (simp add: held_def)

lemma obj_ok_opened: "obj_ok s \<Longrightarrow> obj_ok (set_ready True (s\<lparr>stream_id := i\<rparr>))"
  by (simp add: obj_ok_set_ready obj_ok_id)

lemma placed_open:
  assumes "placed c" "stream_id s = i" "ready s"
  shows "placed (c\<lparr>streams := map_put i (ob, s) (streams c)\<rparr>)"
  using assms by (auto simp: placed_def set_map_put map_ok_put)

lemma open_stream_inv:
  assumes "conn_inv c" "fresh x c" "\<And>i. opened = Some i \<Longrightarrow> i \<notin> fst ` set (streams c)"
  shows "\<exists>c'. open_stream ended opened x c = Some c' \<and> conn_inv c'"
proof -
  obtain ob s where x: "x = (ob, s)" by (cases x)
  have s: "obj_ok s" "\<not> ready s" "ob \<notin> fst ` set_mset (held c)" and c: "placed c" "held_ok good (held c)"
    using assms(1,2) by (auto simp: fresh_def x conn_inv_def)
  note cl = obj_ok_execute_close(1) [OF s(1)]
  consider "ended" | "\<not> ended" "opened = None" | i where "\<not> ended" "opened = Some i" by blast
  then show ?thesis
  proof cases
    case 1
    then show ?thesis using c s cl held_ok_add [of good "held c" "(ob, stream_execute_close STREAM_ERROR_CONNECTION_CLOSED s)"]
      by (simp add: open_stream_def x conn_inv_def)
  next
    case 2
    have "placed (c\<lparr>pending_streams := pending_streams c @ [(ob, s)]\<rparr>)" using c(1) s(2) by (auto simp: placed_def)
    moreover have "held (c\<lparr>pending_streams := pending_streams c @ [(ob, s)]\<rparr>) = add_mset (ob, s) (held c)" by (simp add: held_def)
    ultimately show ?thesis using 2 c s held_ok_add [of good "held c" "(ob, s)"] by (simp add: open_stream_def x conn_inv_def)
  next
    case 3
    let ?s = "set_ready True (s\<lparr>stream_id := i\<rparr>)"
    let ?c = "if notify ?s then conn_emit ConnPacketIoReady c else c"
    have i: "i \<notin> fst ` set (streams c)" using assms(3) 3 by simp
    have e: "placed ?c" "held ?c = held c" "streams ?c = streams c" using c(1) by (simp_all add: placed_def held_def)
    have "placed (?c\<lparr>streams := map_put i (ob, ?s) (streams ?c)\<rparr>)" by (rule placed_open [OF e(1)]) simp_all
    moreover have "held (?c\<lparr>streams := map_put i (ob, ?s) (streams ?c)\<rparr>) = add_mset (ob, ?s) (held c)"
      using held_put [of i ?c] i e by simp
    ultimately show ?thesis
      using 3 c s held_ok_add [of good "held c" "(ob, ?s)"] obj_ok_opened [OF s(1)]
      by (simp add: open_stream_def x conn_inv_def Let_def)
  qed
qed

lemma queue_incoming_inv:
  assumes "conn_inv c" "fresh x c"
  shows "\<exists>c'. queue_incoming_stream ended x c = Some c' \<and> conn_inv c'"
proof -
  obtain ob s where x: "x = (ob, s)" by (cases x)
  have s: "obj_ok s" "\<not> ready s" "ob \<notin> fst ` set_mset (held c)" and c: "placed c" "held_ok good (held c)"
    using assms(1,2) by (auto simp: fresh_def x conn_inv_def)
  let ?n = "next_incoming_stream_id c"
  let ?s = "s\<lparr>stream_id := ?n\<rparr>" and ?c = "c\<lparr>next_incoming_stream_id := ?n + 4\<rparr>"
  have ok: "obj_ok ?s" "obj_ok (stream_execute_close STREAM_ERROR_CONNECTION_CLOSED ?s)"
    using s(1) obj_ok_execute_close(1) by (simp_all add: obj_ok_id)
  have c': "placed ?c" "held ?c = held c" using c(1) by (auto simp: placed_def held_def)
  show ?thesis
  proof (cases ended)
    case True
    then show ?thesis
      using c' c s ok held_ok_add [of good "held c" "(ob, stream_execute_close STREAM_ERROR_CONNECTION_CLOSED ?s)"]
      by (simp add: queue_incoming_stream_def x conn_inv_def Let_def)
  next
    case False
    have n: "?n \<notin> fst ` set (stream_queue c)" using c(1) by (auto simp: placed_def)
    let ?d = "?c\<lparr>stream_queue := map_put ?n (ob, ?s) (stream_queue c)\<rparr>"
    have "placed ?d" using c(1) s(2) by (auto simp: placed_def set_map_put map_ok_put)
    moreover have "held ?d = add_mset (ob, ?s) (held c)" using mset_put_snd [OF n, of "(ob, ?s)"] by (simp add: held_def)
    ultimately show ?thesis
      using False s c ok held_ok_add [of good "held c" "(ob, ?s)"] by (simp add: queue_incoming_stream_def x conn_inv_def Let_def)
  qed
qed

lemma stream_close_ok:
  assumes "obj_ok s" "k \<le> APP_ERRCODE_MAX"
  shows "\<exists>s'. stream_close k s = Inr s' \<and> obj_ok s' \<and> stream_id s' = stream_id s \<and> ready s' = ready s"
proof (cases "stream_close k s")
  case (Inl e)
  then show ?thesis using assms(2) unfolding stream_close_def Let_def by (simp split: if_splits)
next
  case (Inr s')
  then show ?thesis using obj_ok_step [OF assms(1), of "OpClose k" s'] by simp
qed

lemma accept_stream_inv:
  assumes "conn_inv c" "fresh x c" "i \<notin> fst ` set (streams c)" "case open_cb of Some k \<Rightarrow> k \<le> APP_ERRCODE_MAX | None \<Rightarrow> True"
  shows "\<exists>c'. accept_stream i x open_cb c = ConnRet True c' \<and> conn_inv c'"
proof -
  obtain ob s where x: "x = (ob, s)" by (cases x)
  let ?s = "set_ready True (s\<lparr>stream_id := i\<rparr>)" and ?k = "case open_cb of None \<Rightarrow> 0 | Some k \<Rightarrow> k"
  define g where "g = (if open_cb \<noteq> None then conn_emit (StreamOpenCallback ob) c else c)"
  have "conn_inv g" using assms(1) by (simp add: g_def)
  then have g: "placed g" "held_ok good (held g)" unfolding conn_inv_def by blast+
  have h: "held g = held c" "streams g = streams c" by (simp_all add: g_def held_def)
  have s: "obj_ok s" "ob \<notin> fst ` set_mset (held c)" using assms(2) by (auto simp: fresh_def x)
  note o = obj_ok_opened [OF s(1), of i]
  have op: "accept_stream i x open_cb c =
      (if ?k \<noteq> 0 then case stream_close ?k ?s of Inl _ \<Rightarrow> ConnThrow BadAppCode | Inr s \<Rightarrow> ConnRet True (release (ob, s) g)
       else if i \<in> fst ` set (streams g) then ConnAbort
       else ConnRet True (g\<lparr>streams := map_put i (ob, ?s) (streams g)\<rparr>))"
    unfolding accept_stream_def Let_def x prod.case g_def [symmetric] ..
  show ?thesis
  proof (cases "?k = 0")
    case True
    let ?d = "g\<lparr>streams := map_put i (ob, ?s) (streams g)\<rparr>"
    have "placed ?d" by (rule placed_open [OF g(1)]) simp_all
    moreover have "held ?d = add_mset (ob, ?s) (held c)" using held_put [of i g] assms(3) h by simp
    then have "held_ok good (held ?d)" using g(2) h(1) o s(2) held_ok_add [of good "held c" "(ob, ?s)"] by simp
    ultimately have "conn_inv ?d" by (simp only: conn_inv_def simp_thms)
    moreover have "accept_stream i x open_cb c = ConnRet True ?d" unfolding op using True assms(3) h(2) by simp
    ultimately show ?thesis by blast
  next
    case False
    have "?k \<le> APP_ERRCODE_MAX" using assms(4) by (simp split: option.splits)
    then obtain s' where s': "stream_close ?k ?s = Inr s'" "obj_ok s'" using stream_close_ok [OF o] by blast
    then have "conn_inv (release (ob, s') g)" using g h(1) s(2) held_ok_add [of good "held c" "(ob, s')"] by (simp add: conn_inv_def)
    moreover have "accept_stream i x open_cb c = ConnRet True (release (ob, s') g)" unfolding op using False s' by simp
    ultimately show ?thesis by blast
  qed
qed

lemma stream_opened_inv:
  assumes "conn_inv c" "fresh x c" "i \<notin> fst ` set (streams c)" "case open_cb of Some k \<Rightarrow> k \<le> APP_ERRCODE_MAX | None \<Rightarrow> True"
  shows "\<exists>c'. stream_opened i x open_cb c = ConnRet True c' \<and> conn_inv c'"
proof -
  define e where "e = check_established c"
  have "conn_inv e" using assms(1) by (simp add: e_def)
  then have c: "placed e" "held_ok good (held e)" unfolding conn_inv_def by blast+
  have h: "streams e = streams c" "held e = held c" by (simp_all add: e_def held_def) (simp add: check_established_def)
  show ?thesis
  proof (cases "map_of (stream_queue e) i")
    case (Some y)
    obtain ob s where q: "map_of (stream_queue e) i = Some (ob, s)" using Some by (cases y) simp
    have m: "map_ok (stream_queue e)" "(i, ob, s) \<in> set (stream_queue e)"
      using c(1) map_of_SomeD [OF q] by (simp_all add: placed_def)
    have s: "obj_ok s" "stream_id s = i"
      using held_objects [OF \<open>conn_inv e\<close> held_streams(2) [OF m(2)]] c(1) m(2) by (auto simp: placed_def)
    let ?s = "set_ready True s"
    let ?d = "e\<lparr>streams := map_put i (ob, ?s) (streams e)\<rparr>"
    let ?f = "e\<lparr>streams := map_put i (ob, ?s) (streams e), stream_queue := map_erase i (stream_queue e)\<rparr>"
    have "placed ?d" by (rule placed_open [OF c(1)]) (simp_all add: s)
    then have p: "placed ?f" by (auto simp: placed_def set_map_erase map_ok_erase)
    have "add_mset (ob, s) (held ?f) = add_mset (ob, ?s) (held e)"
      using mset_put_snd [of i "streams e" "(ob, ?s)"] mset_erase_snd [OF m(1) q] assms(3) h(1) by (simp add: held_def)
    then have "held_ok good (held ?f)" by (rule held_good_replace [OF c(2) _ obj_ok_set_ready [OF s(1)]])
    then have "conn_inv ?f" using p by (simp only: conn_inv_def simp_thms)
    moreover have "stream_opened i x open_cb c = ConnRet True ?f"
      unfolding stream_opened_def Let_def e_def [symmetric] q using assms(3) h(1) by simp
    ultimately show ?thesis by blast
  next
    case None
    let ?f = "if i = next_incoming_stream_id e then e\<lparr>next_incoming_stream_id := i + 4\<rparr> else e"
    have f: "conn_inv ?f" "held ?f = held c" "streams ?f = streams c"
      using \<open>conn_inv e\<close> h by (auto simp: conn_inv_def placed_def held_def)
    have "fresh x ?f" using assms(2) f(2) by (simp add: fresh_def)
    then show ?thesis
      using accept_stream_inv [OF f(1), of x i open_cb] assms(3,4) f(3)
      unfolding stream_opened_def Let_def e_def [symmetric] None by simp
  qed
qed

text \<open>Opening pending streams keeps any property of objects that does not depend on being opened.\<close>

lemma check_pending_keeps:
  assumes P: "\<And>ob s i. P (ob, s) \<Longrightarrow> P (ob, set_ready True (s\<lparr>stream_id := i\<rparr>))"
  shows "placed c \<Longrightarrow> held_ok P (held c) \<Longrightarrow> distinct ids \<Longrightarrow> set ids \<inter> fst ` set (streams c) = {} \<Longrightarrow>
    placed (check_pending_streams available ids c) \<and> held_ok P (held (check_pending_streams available ids c))"
proof (induction available ids c rule: check_pending_streams.induct)
  case (2 available i ids c)
  show ?case
  proof (cases "available = 0 \<or> pending_streams c = []")
    case True
    then show ?thesis using 2(2,3) by (auto split: list.splits)
  next
    case False
    then obtain ob s rest where p: "pending_streams c = (ob, s) # rest" "available \<noteq> 0" by (cases "pending_streams c") auto
    let ?s = "set_ready True (s\<lparr>stream_id := i\<rparr>)"
    let ?d = "c\<lparr>streams := map_put i (ob, ?s) (streams c), pending_streams := rest\<rparr>"
    have "placed (c\<lparr>streams := map_put i (ob, ?s) (streams c)\<rparr>)" by (rule placed_open [OF 2(2)]) simp_all
    then have pd: "placed ?d" using p(1) by (auto simp: placed_def)
    have "add_mset (ob, s) (held ?d) = add_mset (ob, ?s) (held c)"
      using mset_put_snd [of i "streams c" "(ob, ?s)"] 2(5) p(1) by (simp add: held_def)
    moreover have "P (ob, s)" using 2(3) held_streams(3) p(1) by (auto simp: held_ok_def)
    ultimately have hd: "held_ok P (held ?d)" using held_ok_replace [OF 2(3)] P by blast
    have "set ids \<inter> fst ` set (streams ?d) = {}" using 2(4,5) by (auto simp: keys_map_put)
    then show ?thesis using 2(1) [OF p(2) p(1) refl refl pd hd] 2(4) p by (simp add: Let_def)
  qed
qed simp

lemma check_pending_inv:
  "conn_inv c \<Longrightarrow> distinct ids \<Longrightarrow> set ids \<inter> fst ` set (streams c) = {} \<Longrightarrow> conn_inv (check_pending_streams available ids c)"
  using check_pending_keeps [of good c ids available] obj_ok_opened unfolding conn_inv_def by fastforce

lemma conn_stream_closed_inv:
  assumes "conn_inv c" "is_bidi_stream env i"
  shows "\<exists>c'. conn_stream_closed env i code c = Some c' \<and> conn_inv c' \<and>
    fst ` set (streams c') = fst ` set (streams c) - {i} \<and> stream_queue c' = stream_queue c \<and> pending_streams c' = pending_streams c"
proof (cases "map_of (streams c) i")
  case None
  then have "i \<notin> fst ` set (streams c)" by (simp add: map_of_eq_None_iff)
  then have "fst ` set (streams c) - {i} = fst ` set (streams c)" by blast
  then show ?thesis using assms None by (simp add: conn_stream_closed_def)
next
  case (Some x)
  obtain ob s where x: "x = (ob, s)" by (cases x)
  let ?s = "stream_execute_close code s"
  let ?d = "release (ob, ?s) (c\<lparr>streams := map_erase i (streams c)\<rparr>)"
  have c: "placed c" "held_ok good (held c)" "map_ok (streams c)" using assms(1) by (simp_all add: conn_inv_def placed_def)
  have "obj_ok s" using held_objects [OF assms(1) held_streams(1) [OF map_of_SomeD [OF Some]]] x by simp
  then have o: "obj_ok ?s" by (rule obj_ok_execute_close)
  have "placed ?d" using c(1) by (auto simp: placed_def set_map_erase map_ok_erase)
  moreover have "add_mset (ob, s) (held ?d) = add_mset (ob, ?s) (held c)"
    using mset_erase_snd [OF c(3) Some] x by (simp add: held_def)
  then have "held_ok good (held ?d)" by (rule held_good_replace [OF c(2) _ o])
  ultimately have "conn_inv ?d" by (simp add: conn_inv_def)
  moreover have "fst ` set (map_erase i (streams c)) = fst ` set (streams c) - {i}" by (auto simp: set_map_erase)
  ultimately show ?thesis using assms(2) Some x by (simp add: conn_stream_closed_def Let_def)
qed

lemma close_open_streams_inv:
  "conn_inv c \<Longrightarrow> \<forall>i \<in> fst ` set (streams c). is_bidi_stream env i \<Longrightarrow>
   \<exists>c'. close_open_streams env c = Some c' \<and> conn_inv c' \<and> streams c' = []"
proof (induction env c rule: close_open_streams.induct)
  case (1 env c)
  show ?case
  proof (cases "streams c = []")
    case True
    then show ?thesis using 1(2) by (subst close_open_streams.simps) simp
  next
    case False
    let ?i = "fst (hd (streams c))"
    have "is_bidi_stream env ?i" using 1(3) False by (cases "streams c") auto
    then obtain c' where c': "conn_stream_closed env ?i STREAM_ERROR_CONNECTION_CLOSED c = Some c'" "conn_inv c'"
      "fst ` set (streams c') = fst ` set (streams c) - {?i}" using conn_stream_closed_inv [OF 1(2)] by blast
    then show ?thesis using 1(1) [OF False c'(1,2)] 1(3) False by (subst close_open_streams.simps) auto
  qed
qed

lemma held_ok_change:
  assumes "held_ok P (mset xs + H)" "\<And>x. fst (f x) = fst x" "\<And>x. x \<in> set xs \<Longrightarrow> P x \<Longrightarrow> Q (f x)" "\<And>x. x \<in># H \<Longrightarrow> P x \<Longrightarrow> Q x"
  shows "held_ok Q (mset (map f xs) + H)"
proof -
  have "image_mset fst (mset (map f xs) + H) = image_mset fst (mset xs + H)" using assms(2) by (simp add: multiset.map_comp comp_def)
  then show ?thesis using assms by (auto simp: held_ok_def)
qed

lemma held_ok_map:
  "held_ok P (mset xs + H) \<Longrightarrow> (\<And>x. fst (f x) = fst x) \<Longrightarrow> (\<And>x. x \<in> set xs \<Longrightarrow> P x \<Longrightarrow> P (f x)) \<Longrightarrow>
   held_ok P (mset (map f xs) + H)"
  by (rule held_ok_change)

lemma close_object_ok: "fst (close_object x) = fst x" "obj_ok (snd x) \<Longrightarrow> obj_ok (snd (close_object x))"
  by (simp_all add: close_object_def obj_ok_execute_close)

lemma detach_ok: "fst (detach x) = fst x" "obj_ok (snd x) \<Longrightarrow> obj_ok (snd (detach x))"
  using stream_inv_cong [of "(snd x)\<lparr>conn := False\<rparr>" "snd x"] by (simp_all add: detach_def obj_ok_def)

lemma close_all_inv:
  assumes "conn_inv c" "\<forall>i \<in> fst ` set (streams c). is_bidi_stream env i"
  shows "\<exists>c'. close_all_streams env c = Some c' \<and> conn_inv c' \<and> streams c' = []"
proof -
  let ?d = "c\<lparr>released := released c @ map (close_object \<circ> snd) (stream_queue c), stream_queue := []\<rparr>"
  let ?e = "?d\<lparr>released := released ?d @ map close_object (pending_streams ?d), pending_streams := []\<rparr>"
  let ?q = "map snd (stream_queue c)" and ?p = "pending_streams c" and ?H = "mset (map snd (streams c)) + mset (released c)"
  have "held_ok good (mset (?q @ ?p) + ?H)" using assms(1) by (simp add: conn_inv_def held_def ac_simps)
  then have "held_ok good (mset (map close_object (?q @ ?p)) + ?H)" by (rule held_ok_map) (simp_all add: close_object_ok)
  then have "held_ok good (held ?e)" by (simp add: held_def ac_simps comp_def)
  moreover have "placed ?e" using assms(1) by (auto simp: conn_inv_def placed_def map_ok_def)
  ultimately have "conn_inv ?e" by (simp add: conn_inv_def)
  then show ?thesis using close_open_streams_inv [of ?e env] assms(2) by (simp add: close_all_streams_def Let_def)
qed

lemma drop_streams_inv:
  assumes "conn_inv c"
  shows "conn_inv (drop_streams c)"
proof -
  let ?xs = "map snd (streams c) @ map snd (stream_queue c) @ pending_streams c"
  have "held_ok good (mset ?xs + mset (released c))" using assms by (simp add: conn_inv_def held_def ac_simps)
  then have "held_ok good (mset (map detach ?xs) + mset (released c))" by (rule held_ok_map) (simp_all add: detach_ok)
  then show ?thesis by (simp add: conn_inv_def placed_def map_ok_def drop_streams_def held_def ac_simps comp_def Let_def)
qed

text \<open>A stream found by its id, changed in place.\<close>

lemma put_stream_inv:
  assumes "conn_inv c" "get_stream i c = Some (ob, s)" "obj_ok s'" "stream_id s' = stream_id s" "ready s' = ready s"
  shows "conn_inv (put_stream i (ob, s') c)"
proof -
  have c: "placed c" "held_ok good (held c)" using assms(1) by (simp_all add: conn_inv_def)
  have m: "map_ok (streams c)" "map_ok (stream_queue c)" using c(1) by (simp_all add: placed_def)
  show ?thesis
  proof (cases "map_of (streams c) i")
    case (Some x)
    then have x: "map_of (streams c) i = Some (ob, s)" using assms(2) by (simp add: get_stream_def)
    let ?d = "c\<lparr>streams := map_put i (ob, s') (streams c)\<rparr>"
    have "stream_id s = i" "ready s" using c(1) map_of_SomeD [OF x] by (auto simp: placed_def)
    then have "placed ?d" using assms(4,5) by (intro placed_open [OF c(1)]) simp_all
    moreover have "add_mset (ob, s) (held ?d) = add_mset (ob, s') (held c)"
      using mset_update_snd [OF m(1) x, of "(ob, s')"] by (simp add: held_def)
    then have "held_ok good (held ?d)" by (rule held_good_replace [OF c(2) _ assms(3)])
    ultimately show ?thesis using Some by (simp add: put_stream_def conn_inv_def)
  next
    case None
    then have x: "map_of (stream_queue c) i = Some (ob, s)" using assms(2) by (simp add: get_stream_def)
    let ?d = "c\<lparr>stream_queue := map_put i (ob, s') (stream_queue c)\<rparr>"
    have "stream_id s = i" "\<not> ready s" "i < next_incoming_stream_id c" using c(1) map_of_SomeD [OF x] by (auto simp: placed_def)
    then have "placed ?d" using c(1) assms(4,5) by (auto simp: placed_def set_map_put map_ok_put)
    moreover have "add_mset (ob, s) (held ?d) = add_mset (ob, s') (held c)"
      using mset_update_snd [OF m(2) x, of "(ob, s')"] by (simp add: held_def)
    then have "held_ok good (held ?d)" by (rule held_good_replace [OF c(2) _ assms(3)])
    ultimately show ?thesis using None by (simp add: put_stream_def conn_inv_def)
  qed
qed

lemma get_stream_ok: "conn_inv c \<Longrightarrow> get_stream i c = Some (ob, s) \<Longrightarrow> obj_ok s"
  using held_objects [of c "(ob, s)"] held_streams(1,2) [of i "(ob, s)" c]
  by (auto simp: get_stream_def split: option.splits dest!: map_of_SomeD)

lemma stream_ack_inv:
  assumes "conn_inv c" "\<And>ob s. map_of (streams c) i = Some (ob, s) \<Longrightarrow> n \<le> unacked_size s"
  shows "\<exists>c'. stream_ack i n c = Some c' \<and> conn_inv c'"
proof (cases "map_of (streams c) i")
  case (Some x)
  obtain ob s where x: "map_of (streams c) i = Some (ob, s)" using Some by (cases x) simp
  then have g: "get_stream i c = Some (ob, s)" by (simp add: get_stream_def)
  obtain s' where s': "acknowledge n s = Some s'" "obj_ok s'" "stream_id s' = stream_id s" "ready s' = ready s"
    using stream_op_obj_ok [OF get_stream_ok [OF assms(1) g], of "OpAck n"] assms(2) [OF x] by auto
  then show ?thesis using put_stream_inv [OF assms(1) g s'(2-4)] x by (simp add: stream_ack_def put_stream_def)
qed (use assms(1) in \<open>simp add: stream_ack_def\<close>)

lemma stream_receive_ok:
  assumes "obj_ok s"
  shows "obj_ok (stream_receive data s)" "obj_ok (on_fin s)" "obj_ok (stream_credit n s)"
    "stream_id (stream_receive data s) = stream_id s \<and> ready (stream_receive data s) = ready s"
    "stream_id (on_fin s) = stream_id s \<and> ready (on_fin s) = ready s"
    "stream_id (stream_credit n s) = stream_id s \<and> ready (stream_credit n s) = ready s"
  using obj_ok_step [OF assms, of "OpReceive data"] obj_ok_step [OF assms, of OpOnFin] obj_ok_step [OF assms, of "OpCredit n"]
  by simp_all

definition outcome_ok :: "data_outcome \<Rightarrow> bool" where
  "outcome_ok r \<longleftrightarrow> (case r of DataError e \<Rightarrow> e \<le> APP_ERRCODE_MAX | _ \<Rightarrow> True)"

lemma exception_code_ok: "STREAM_ERROR_EXCEPTION \<le> APP_ERRCODE_MAX"
  by (simp add: STREAM_ERROR_EXCEPTION_def ERROR_BASE_def APP_ERRCODE_MAX_def)

lemma conn_stream_receive_inv:
  assumes "conn_inv c" "get_stream i c = Some (ob, s)" "outcome_ok r"
  shows "\<exists>b c'. conn_stream_receive i data fin r c = ConnRet b c' \<and> conn_inv c'"
proof -
  have s: "obj_ok s" by (rule get_stream_ok [OF assms(1,2)])
  note f = put_stream_inv [OF assms(1,2)]
  let ?r = "stream_receive data s"
  let ?e = "if \<not> data_callback s then None else case r of DataOk \<Rightarrow> None | DataError e \<Rightarrow> Some e
    | DataException \<Rightarrow> Some STREAM_ERROR_EXCEPTION"
  have r: "obj_ok ?r" "stream_id ?r = stream_id s" "ready ?r = ready s" using stream_receive_ok [OF s] by simp_all
  show ?thesis
  proof (cases "data = []")
    case True
    have "conn_inv (put_stream i (ob, if fin then on_fin s else s) c)"
      using f [of "on_fin s"] f [of s] s stream_receive_ok(2,5) [OF s] by (cases fin) simp_all
    moreover have "conn_stream_receive i data fin r c = ConnRet True (put_stream i (ob, if fin then on_fin s else s) c)"
      using assms(2) True by (simp add: conn_stream_receive_def)
    ultimately show ?thesis by blast
  next
    case data: False
    show ?thesis
    proof (cases ?e)
      case None
      then have "conn_stream_receive i data fin r c =
          (if fin then ConnRet True (put_stream i (ob, on_fin ?r) c)
           else ConnRet True (conn_emit (ExtendMaxOffset (length data)) (put_stream i (ob, stream_credit (length data) ?r) c)))"
        using data assms(2) unfolding conn_stream_receive_def by (simp only: option.case prod.case if_False Let_def)
      moreover have "conn_inv (put_stream i (ob, on_fin ?r) c)" "conn_inv (put_stream i (ob, stream_credit (length data) ?r) c)"
        using f [of "on_fin ?r"] f [of "stream_credit (length data) ?r"] stream_receive_ok [OF r(1)] r(2,3) by simp_all
      ultimately show ?thesis by (cases fin) auto
    next
      case (Some k)
      have "k \<le> APP_ERRCODE_MAX"
        using Some assms(3) exception_code_ok by (auto simp: outcome_ok_def split: if_splits data_outcome.splits)
      then obtain s' where s': "stream_close k ?r = Inr s'" "obj_ok s'" "stream_id s' = stream_id s" "ready s' = ready s"
        using stream_close_ok [OF r(1)] r(2,3) by auto
      have "conn_stream_receive i data fin r c = ConnRet False (put_stream i (ob, s') c)"
        using data assms(2) Some s'(1) unfolding conn_stream_receive_def
        by (simp only: option.case prod.case if_False Let_def sum.case)
      then show ?thesis using f [OF s'(2-4)] by blast
    qed
  qed
qed

section \<open>Rejected 0-RTT data\<close>

text \<open>A reverted stream is good again once its watermarks have been checked.\<close>

definition early_ok :: "stream \<Rightarrow> bool" where
  "early_ok s \<longleftrightarrow> buffer_inv s \<and> pause_inv s \<and> thresholds_ok s \<and> close_calls s \<le> of_bool (is_closing s)"

definition partly_checked :: "nat set \<Rightarrow> object \<Rightarrow> bool" where
  "partly_checked obs x \<longleftrightarrow> (if fst x \<in> obs then early_ok (snd x) else obj_ok (snd x))"

lemma early_ok_cong:
  assumes "user_buffers s' = user_buffers s" "unsent_size s' = unsent_size s" "unacked_size s' = unacked_size s"
    "acked_bytes s' = acked_bytes s" "current_buffer_index s' = current_buffer_index s"
    "current_buffer_offset s' = current_buffer_offset s" "front_trimmed s' = front_trimmed s"
    "watermarking s' = watermarking s" "paused s' = paused s" "paused_offset s' = paused_offset s"
    "close_calls s' = close_calls s" "is_closing s' = is_closing s"
  shows "early_ok s' = early_ok s"
  using buffer_inv_cong [of s' s] assms by (simp add: early_ok_def pause_inv_def thresholds_ok_def)

lemma obj_ok_early_ok: "obj_ok s \<Longrightarrow> early_ok s"
  by (simp add: obj_ok_def early_ok_def stream_inv_def watermark_inv_def)

lemma early_ok_set_ready: "early_ok (set_ready r s) = early_ok s"
  by (rule early_ok_cong) (simp_all add: set_ready_def Let_def)

lemma early_ok_id: "early_ok (s\<lparr>stream_id := i\<rparr>) = early_ok s"
  by (rule early_ok_cong) (simp_all add: close_calls_def)

lemma early_ok_revert: "early_ok s \<Longrightarrow> early_ok (revert_stream s)"
proof -
  assume s: "early_ok s"
  have "paused (revert_stream s) = paused s" "paused_offset (revert_stream s) = paused_offset s"
    "watermarking (revert_stream s) = watermarking s" "close_calls (revert_stream s) = close_calls s"
    "is_closing (revert_stream s) = is_closing s" by (simp_all add: revert_stream_def Let_def)
  then show ?thesis using s revert_spec(1) [of s] by (simp add: early_ok_def pause_inv_def thresholds_ok_def)
qed

lemma early_ok_checked:
  assumes "early_ok s"
  shows "obj_ok (check_watermark_if_enabled s)"
proof -
  have "stream_inv (check_watermark s)"
    using assms check_watermark_inv [of s] buffer_inv_cong [of "check_watermark s" s]
    by (simp add: early_ok_def stream_inv_def pause_inv_def)
  then show ?thesis using assms by (simp add: check_watermark_if_enabled_eq obj_ok_def early_ok_def)
qed

lemma partly_checked_opened: "partly_checked obs (ob, s) \<Longrightarrow> partly_checked obs (ob, set_ready True (s\<lparr>stream_id := i\<rparr>))"
  using obj_ok_opened [of s i] by (auto simp: partly_checked_def early_ok_set_ready early_ok_id)

lemma partly_checked_revert: "obj_ok (snd x) \<Longrightarrow> partly_checked obs (revert_object x) \<or> fst x \<notin> obs"
  using early_ok_revert [OF obj_ok_early_ok] by (auto simp: partly_checked_def revert_object_def early_ok_set_ready)

lemma good_checked: "partly_checked obs x \<Longrightarrow> good (watermark_check_object obs x)"
  by (simp add: partly_checked_def watermark_check_object_def early_ok_checked)

lemma check_object_fields [simp]:
  "fst (watermark_check_object obs x) = fst x" "stream_id (snd (watermark_check_object obs x)) = stream_id (snd x)"
  "ready (snd (watermark_check_object obs x)) = ready (snd x)"
  by (simp_all add: watermark_check_object_def check_watermark_if_enabled_eq)

lemma revert_streams_eq:
  "\<forall>i \<in> fst ` set m. even i \<Longrightarrow>
   revert_streams m c = c\<lparr>pending_streams := rev (map (revert_object \<circ> snd) m) @ pending_streams c\<rparr>"
  by (induction m c rule: revert_streams.induct) auto

definition reverted_streams :: "conn_streams \<Rightarrow> conn_streams" where
  "reverted_streams c = c\<lparr>pending_streams := map (revert_object \<circ> snd) (streams c) @ pending_streams c, streams := []\<rparr>"

definition checked_streams :: "nat set \<Rightarrow> conn_streams \<Rightarrow> conn_streams" where
  "checked_streams obs c =
     c\<lparr>streams := map (apsnd (watermark_check_object obs)) (streams c),
       stream_queue := map (apsnd (watermark_check_object obs)) (stream_queue c),
       pending_streams := map (watermark_check_object obs) (pending_streams c)\<rparr>"

abbreviation reverted_tags :: "conn_streams \<Rightarrow> nat set" where
  "reverted_tags c \<equiv> set (map (fst \<circ> snd) (streams c))"

lemma check_pending_none: "check_pending_streams 0 ids c = c"
  by (cases ids) simp_all

lemma revert_early_eq:
  assumes "\<forall>i \<in> fst ` set (streams c). even i"
  shows "revert_early_channels remaining ids c =
    (let d = check_pending_streams remaining ids (reverted_streams c)
     in checked_streams (reverted_tags c) (if has_dgrams d then conn_emit (EarlyDataEnd False) d else d))"
proof -
  have "revert_streams (rev (streams c)) c = c\<lparr>pending_streams := map (revert_object \<circ> snd) (streams c) @ pending_streams c\<rparr>"
    using revert_streams_eq [of "rev (streams c)" c] assms by (simp add: rev_map)
  then show ?thesis
    by (simp add: revert_early_channels_def reverted_streams_def checked_streams_def Let_def check_pending_none)
qed

lemma reverted_streams_ok:
  assumes "conn_inv c"
  shows "placed (reverted_streams c) \<and> held_ok (partly_checked (reverted_tags c)) (held (reverted_streams c))"
proof -
  let ?H = "mset (map snd (stream_queue c)) + mset (pending_streams c) + mset (released c)"
  let ?P = "partly_checked (reverted_tags c)"
  have g: "held_ok good (mset (map snd (streams c)) + ?H)" using assms by (simp add: conn_inv_def held_def ac_simps)
  have "held_ok ?P (mset (map revert_object (map snd (streams c))) + ?H)"
    using g
  proof (rule held_ok_change)
    show "fst (revert_object x) = fst x" for x by (simp add: revert_object_def)
    show "x \<in> set (map snd (streams c)) \<Longrightarrow> good x \<Longrightarrow> ?P (revert_object x)" for x
      using partly_checked_revert [of x "reverted_tags c"] by auto
    show "x \<in># ?H \<Longrightarrow> good x \<Longrightarrow> ?P x" for x by (simp add: partly_checked_def obj_ok_early_ok)
  qed
  moreover have "placed (reverted_streams c)"
    using assms by (auto simp: conn_inv_def placed_def reverted_streams_def map_ok_def revert_object_def)
  ultimately show ?thesis by (simp add: reverted_streams_def held_def ac_simps)
qed

lemma check_pending_released [simp]: "released (check_pending_streams n ids c) = released c"
  by (induction n ids c rule: check_pending_streams.induct) (simp_all add: Let_def split: list.splits)

lemma checked_streams_inv:
  assumes "placed c" "held_ok (partly_checked obs) (held c)" "\<forall>x \<in> set (released c). good x"
  shows "conn_inv (checked_streams obs c)"
proof -
  let ?xs = "map snd (streams c) @ map snd (stream_queue c) @ pending_streams c" and ?f = "watermark_check_object obs"
  have "held_ok (partly_checked obs) (mset ?xs + mset (released c))" using assms(2) by (simp add: held_def ac_simps)
  then have "held_ok good (mset (map ?f ?xs) + mset (released c))"
    by (rule held_ok_change) (use assms(3) good_checked in auto)
  then have "held_ok good (held (checked_streams obs c))" by (simp add: held_def checked_streams_def ac_simps comp_def)
  moreover have "placed (checked_streams obs c)"
    using assms(1) by (auto simp: placed_def checked_streams_def map_ok_def comp_def case_prod_unfold)
  ultimately show ?thesis by (simp add: conn_inv_def)
qed

lemma revert_early_inv:
  assumes "conn_inv c" "\<forall>i \<in> fst ` set (streams c). even i" "distinct ids"
  shows "conn_inv (revert_early_channels remaining ids c)"
proof -
  let ?d = "check_pending_streams remaining ids (reverted_streams c)"
  have "\<forall>x \<in> set (released c). good x" using assms(1) by (auto simp: conn_inv_def held_ok_def held_def)
  then have r: "\<forall>x \<in> set (released ?d). good x" by (simp add: reverted_streams_def)
  have s: "streams (reverted_streams c) = []" by (simp add: reverted_streams_def)
  note k = check_pending_keeps [of "partly_checked (reverted_tags c)", OF partly_checked_opened]
  have d: "placed ?d \<and> held_ok (partly_checked (reverted_tags c)) (held ?d)"
    using k [of "reverted_streams c" ids remaining] reverted_streams_ok [OF assms(1)] assms(3) s by simp
  let ?e = "if has_dgrams ?d then conn_emit (EarlyDataEnd False) ?d else ?d"
  have "placed ?e" "held ?e = held ?d" "released ?e = released ?d" using d by (simp_all add: placed_def held_def)
  then have "conn_inv (checked_streams (reverted_tags c) ?e)" using checked_streams_inv [of ?e] d r by simp
  then show ?thesis using revert_early_eq [OF assms(2)] by (simp add: Let_def)
qed

text \<open>The streams opened, in the order of the pending ones.\<close>

lemma map_of_map_put [simp]: "map_ok m \<Longrightarrow> map_of (map_put k v m) j = (if j = k then Some v else map_of m j)"
  by (induction k v m rule: map_put.induct) (auto simp: map_ok_def)

lemma check_pending_others: "map_ok (streams c) \<Longrightarrow> i \<notin> set ids \<Longrightarrow> map_of (streams (check_pending_streams n ids c)) i = map_of (streams c) i"
  by (induction n ids c rule: check_pending_streams.induct) (simp_all add: Let_def map_ok_put split: list.splits)

lemma check_pending_opens:
  assumes "distinct ids" "map_ok (streams c)" "k < length ids" "k < n" "k < length (pending_streams c)"
  shows "map_of (streams (check_pending_streams n ids c)) (ids ! k) =
    Some (fst (pending_streams c ! k), set_ready True ((snd (pending_streams c ! k))\<lparr>stream_id := ids ! k\<rparr>))"
  using assms
proof (induction n ids c arbitrary: k rule: check_pending_streams.induct)
  case (2 n i ids c)
  obtain ob s rest where p: "pending_streams c = (ob, s) # rest" using 2(6) by (cases "pending_streams c") auto
  let ?d = "c\<lparr>streams := map_put i (ob, set_ready True (s\<lparr>stream_id := i\<rparr>)) (streams c), pending_streams := rest\<rparr>"
  have n: "n \<noteq> 0" and m: "map_ok (streams ?d)" using 2(3,5) by (simp_all add: map_ok_put)
  show ?case
  proof (cases k)
    case 0
    then show ?thesis using check_pending_others [OF m, of i ids "n - 1"] 2(2,3) p n by (simp add: Let_def)
  next
    case (Suc j)
    then show ?thesis using 2(1) [OF n p refl refl _ m, of j] 2(2-6) p n by (simp add: Let_def)
  qed
qed simp

lemma reverted_check:
  fixes s :: stream and ob :: nat and i :: int
  assumes "obj_ok s"
  defines "r \<equiv> check_watermark_if_enabled (set_ready True ((snd (revert_object (ob, s)))\<lparr>stream_id := i\<rparr>))"
  shows "stream_id r = i" "ready r" "inflight r = []" "queued r = inflight s @ queued s" "acked_bytes r = acked_bytes s"
proof -
  have b: "buffer_inv s" using assms(1) by (simp add: obj_ok_def stream_inv_def)
  have v: "inflight r = inflight (revert_stream s)" "queued r = queued (revert_stream s)" "acked_bytes r = acked_bytes (revert_stream s)"
    using view_cong [of r "revert_stream s"]
    by (simp_all add: r_def revert_object_def check_watermark_if_enabled_eq) (simp_all add: set_ready_def Let_def)
  show "inflight r = []" "queued r = inflight s @ queued s" "acked_bytes r = acked_bytes s" using v revert_spec [OF b] by simp_all
  show "stream_id r = i" "ready r" by (simp_all add: r_def check_watermark_if_enabled_eq)
qed

lemma revert_early_reopens:
  fixes c :: conn_streams
  assumes "conn_inv c" "\<forall>i \<in> fst ` set (streams c). even i" "(i, ob, s) \<in> set (streams c)"
    "distinct (map fst (streams c) @ later)" "length (streams c) \<le> remaining"
  defines "c' \<equiv> revert_early_channels remaining (map fst (streams c) @ later) c"
  shows "\<exists>s'. map_of (streams c') i = Some (ob, s') \<and> stream_id s' = i \<and> ready s' \<and> inflight s' = [] \<and>
    queued s' = inflight s @ queued s \<and> acked_bytes s' = acked_bytes s"
proof -
  obtain k where k: "k < length (streams c)" "streams c ! k = (i, ob, s)" using assms(3) by (auto simp: in_set_conv_nth)
  let ?ids = "map fst (streams c) @ later" and ?r = "reverted_streams c"
  let ?d = "check_pending_streams remaining ?ids ?r"
  let ?s = "set_ready True ((snd (revert_object (ob, s)))\<lparr>stream_id := i\<rparr>)"
  have i: "?ids ! k = i" using k by (simp add: nth_append)
  have p: "pending_streams ?r ! k = revert_object (ob, s)" using k by (simp add: reverted_streams_def nth_append)
  have "map_of (streams ?d) i = Some (ob, ?s)"
    using check_pending_opens [of ?ids ?r k remaining] assms(4,5) k i p
    by (simp add: reverted_streams_def map_ok_def) (simp add: revert_object_def)
  moreover have "streams (if has_dgrams ?d then conn_emit (EarlyDataEnd False) ?d else ?d) = streams ?d" by simp
  moreover have "ob \<in> reverted_tags c" using assms(3) by force
  ultimately have "map_of (streams c') i = Some (ob, check_watermark_if_enabled ?s)"
    using revert_early_eq [OF assms(2)]
    by (simp add: c'_def Let_def checked_streams_def map_of_map apsnd_def map_prod_def watermark_check_object_def)
  moreover have "obj_ok s" using held_objects [OF assms(1) held_streams(1) [OF assms(3)]] by simp
  ultimately show ?thesis using reverted_check [where s = s and ob = ob and i = i] by blast
qed

section \<open>The connection's streams as a system of operations\<close>

text \<open>
  What can happen to the streams of a connection: the application opens and queues streams and uses the ones it
  has, wherever they are; ngtcp2 calls back; the endpoint closes the connection or drops its streams.
\<close>

datatype conn_op =
    OpenStream bool "int option" object
  | QueueIncoming bool object
  | StreamOpened int object "nat option"
  | StreamClosed int nat
  | StreamAck int nat
  | StreamReceive int bytes bool data_outcome
  | CheckPending nat "int list"
  | RevertEarly nat "int list"
  | CloseAll
  | DropStreams
  | OnStream nat stream_op

definition objects :: "conn_streams \<Rightarrow> object list" where
  "objects c = map snd (streams c) @ map snd (stream_queue c) @ pending_streams c @ released c"

definition map_objects :: "(object \<Rightarrow> object) \<Rightarrow> conn_streams \<Rightarrow> conn_streams" where
  "map_objects f c =
     c\<lparr>streams := map (apsnd f) (streams c), stream_queue := map (apsnd f) (stream_queue c),
       pending_streams := map f (pending_streams c), released := map f (released c)\<rparr>"

definition on_object :: "nat \<Rightarrow> stream_op \<Rightarrow> conn_streams \<Rightarrow> conn_streams option" where
  "on_object ob x c =
     (if list_all (\<lambda>(t, s). t = ob \<longrightarrow> stream_step x s \<noteq> None) (objects c)
      then Some (map_objects (\<lambda>(t, s). (t, if t = ob then the (stream_step x s) else s)) c)
      else None)"

text \<open>An exception or failed assertion in a callback ends the run.\<close>

definition returned :: "conn_result \<Rightarrow> conn_streams option" where
  "returned r = (case r of ConnRet _ c \<Rightarrow> Some c | _ \<Rightarrow> None)"

fun conn_step :: "ng_env \<Rightarrow> conn_op \<Rightarrow> conn_streams \<Rightarrow> conn_streams option" where
  "conn_step env (OpenStream ended opened x) c = open_stream ended opened x c"
| "conn_step env (QueueIncoming ended x) c = queue_incoming_stream ended x c"
| "conn_step env (StreamOpened i x open_cb) c = returned (stream_opened i x open_cb c)"
| "conn_step env (StreamClosed i code) c = conn_stream_closed env i code c"
| "conn_step env (StreamAck i n) c = stream_ack i n c"
| "conn_step env (StreamReceive i data fin outcome) c = returned (conn_stream_receive i data fin outcome c)"
| "conn_step env (CheckPending n ids) c = Some (check_pending_streams n ids c)"
| "conn_step env (RevertEarly n ids) c = Some (revert_early_channels n ids c)"
| "conn_step env CloseAll c = close_all_streams env c"
| "conn_step env DropStreams c = Some (drop_streams c)"
| "conn_step env (OnStream ob x) c = on_object ob x c"

text \<open>
  What is owed: constructed streams are new objects; ngtcp2 gives ids that are not in use, calls back for
  bidirectional streams that exist, acknowledges what was sent, and rejects early data only while all open streams
  are the client's; codes of the application are in range; an operation on a stream is one of the application's
  or of the packet writer, within the contract of streams.
\<close>

definition unused_id :: "int \<Rightarrow> conn_streams \<Rightarrow> bool" where
  "unused_id i c \<longleftrightarrow> i \<notin> fst ` set (streams c)"

fun conn_ok :: "ng_env \<Rightarrow> conn_op \<Rightarrow> conn_streams \<Rightarrow> bool" where
  "conn_ok env (OpenStream ended opened x) c = (fresh x c \<and> (case opened of None \<Rightarrow> True | Some i \<Rightarrow> unused_id i c))"
| "conn_ok env (QueueIncoming ended x) c = fresh x c"
| "conn_ok env (StreamOpened i x open_cb) c =
     (fresh x c \<and> unused_id i c \<and> (case open_cb of Some k \<Rightarrow> k \<le> APP_ERRCODE_MAX | None \<Rightarrow> True))"
| "conn_ok env (StreamClosed i code) c = is_bidi_stream env i"
| "conn_ok env (StreamAck i n) c = (case map_of (streams c) i of None \<Rightarrow> True | Some (ob, s) \<Rightarrow> n \<le> unacked_size s)"
| "conn_ok env (StreamReceive i data fin outcome) c = (get_stream i c \<noteq> None \<and> outcome_ok outcome)"
| "conn_ok env (CheckPending n ids) c = (distinct ids \<and> list_all (\<lambda>i. unused_id i c) ids)"
| "conn_ok env (RevertEarly n ids) c = (distinct ids \<and> list_all (\<lambda>(i, x). even i) (streams c))"
| "conn_ok env CloseAll c = list_all (\<lambda>(i, x). is_bidi_stream env i) (streams c)"
| "conn_ok env DropStreams c = True"
| "conn_ok env (OnStream ob x) c = (\<not> internal_op x \<and> list_all (\<lambda>(t, s). t = ob \<longrightarrow> stream_op_ok x s) (objects c))"

lemma held_objects_mset: "held c = mset (objects c)"
  by (simp add: held_def objects_def)

lemma distinct_count_le: "\<forall>t. count (mset xs) t \<le> 1 \<Longrightarrow> distinct xs"
proof (induction xs)
  case (Cons x xs)
  have "count (mset xs) t \<le> count (mset (x # xs)) t" for t by simp
  then have "count (mset xs) t \<le> 1" for t using spec [OF Cons(2), of t] le_trans by blast
  moreover have "x \<notin> set xs" using spec [OF Cons(2), of x] by (simp add: count_eq_zero_iff)
  ultimately show ?case using Cons(1) by simp
qed simp

lemma placed_map_objects:
  assumes "placed c" "\<And>y. y \<in> set (objects c) \<Longrightarrow> stream_id (snd (f y)) = stream_id (snd y) \<and> ready (snd (f y)) = ready (snd y)"
  shows "placed (map_objects f c)"
proof -
  have "\<forall>x \<in> set (streams c) \<union> set (stream_queue c). stream_id (snd (f (snd x))) = stream_id (snd (snd x)) \<and>
      ready (snd (f (snd x))) = ready (snd (snd x))"
    "\<forall>y \<in> set (pending_streams c). ready (snd (f y)) = ready (snd y)"
    using assms(2) by (simp_all add: objects_def ball_Un image_Un)
  then show ?thesis
    using assms(1) unfolding placed_def map_objects_def by (simp add: map_ok_def comp_def case_prod_unfold)
qed

lemma on_object_inv:
  assumes "conn_inv c" "\<not> internal_op x" "list_all (\<lambda>(t, s). t = ob \<longrightarrow> stream_op_ok x s) (objects c)"
  shows "\<exists>c'. on_object ob x c = Some c' \<and> conn_inv c'"
proof -
  let ?f = "\<lambda>(t, s). (t, if t = ob then the (stream_step x s) else s)"
  have c: "placed c" "held_ok good (mset (objects c) + {#})" using assms(1) by (simp_all add: conn_inv_def held_objects_mset)
  have st: "\<exists>s'. stream_step x s = Some s' \<and> obj_ok s' \<and> stream_id s' = stream_id s \<and> ready s' = ready s"
    if "(ob, s) \<in> set (objects c)" for s
  proof (rule stream_op_obj_ok)
    show "obj_ok s" "stream_op_ok x s" "\<not> internal_op x"
      using bspec [OF _ that, of good] bspec [OF _ that, of "\<lambda>(t, s). t = ob \<longrightarrow> stream_op_ok x s"] assms(2,3) c(2)
      by (simp_all add: list_all_iff held_ok_def)
  qed
  have keep: "fst (?f y) = fst y \<and> stream_id (snd (?f y)) = stream_id (snd y) \<and> ready (snd (?f y)) = ready (snd y) \<and> good (?f y)"
    if "y \<in> set (objects c)" for y
    using st [of "snd y"] that c(2) by (cases y) (auto simp: held_ok_def)
  have "list_all (\<lambda>(t, s). t = ob \<longrightarrow> stream_step x s \<noteq> None) (objects c)" using st by (fastforce simp: list_all_iff)
  moreover have "held_ok good (mset (map ?f (objects c)) + {#})"
    using c(2) by (rule held_ok_change) (use keep in auto)
  then have "held_ok good (held (map_objects ?f c))"
    by (simp add: held_objects_mset objects_def map_objects_def comp_def)
  moreover have "placed (map_objects ?f c)" using keep by (intro placed_map_objects [OF c(1)]) blast
  ultimately show ?thesis by (simp add: on_object_def conn_inv_def)
qed

lemma conn_step_inv:
  assumes "conn_inv c" "conn_ok env x c"
  shows "\<exists>c'. conn_step env x c = Some c' \<and> conn_inv c'"
proof (cases x)
  case (OpenStream ended opened y)
  then show ?thesis using assms open_stream_inv [of c y opened ended] by (cases opened) (simp_all add: unused_id_def)
next
  case (StreamOpened i y open_cb)
  then show ?thesis using assms stream_opened_inv [of c y i open_cb] by (auto simp: unused_id_def returned_def)
next
  case (StreamAck i n)
  then have "n \<le> unacked_size s" if "map_of (streams c) i = Some (ob, s)" for ob s using assms(2) that by simp
  then show ?thesis using assms(1) stream_ack_inv [of c i n] StreamAck by simp
next
  case (StreamReceive i data fin r)
  then obtain ob s where "get_stream i c = Some (ob, s)" using assms(2) by auto
  then show ?thesis using conn_stream_receive_inv [OF assms(1), of i ob s r data fin] assms(2) StreamReceive by (auto simp: returned_def)
next
  case (CheckPending n ids)
  have "set ids \<inter> fst ` set (streams c) = {}" "distinct ids" using assms(2) CheckPending by (auto simp: list_all_iff unused_id_def)
  then show ?thesis using check_pending_inv [OF assms(1)] CheckPending by simp
next
  case (RevertEarly n ids)
  then have "\<forall>i \<in> fst ` set (streams c). even i" "distinct ids" using assms(2) by (auto simp: list_all_iff)
  then show ?thesis using revert_early_inv [OF assms(1)] RevertEarly by simp
next
  case CloseAll
  then have "\<forall>i \<in> fst ` set (streams c). is_bidi_stream env i" using assms(2) by (auto simp: list_all_iff)
  then show ?thesis using close_all_inv [OF assms(1)] CloseAll by auto
qed (use assms in \<open>auto simp: queue_incoming_inv drop_streams_inv on_object_inv dest: conn_stream_closed_inv\<close>)

interpretation conn_sys: op_system "conn_step env" "conn_ok env" conn_inv for env
  by unfold_locales (rule conn_step_inv)

lemma conn_ctor_inv: "conn_inv (conn_ctor is_outbound datagrams)"
  by (simp add: conn_inv_def placed_def held_ok_def held_def conn_ctor_def map_ok_def)

text \<open>Data that comes with the end of a stream is not given back to the connection's flow control; all other data is.\<close>

lemma receive_credit:
  assumes "get_stream i c = Some (ob, s)" "data \<noteq> []" "\<not> data_callback s \<or> outcome = DataOk"
  shows "\<exists>c'. conn_stream_receive i data fin outcome c = ConnRet True c' \<and>
    conn_out c' = conn_out c @ (if fin then [] else [ExtendMaxOffset (length data)])"
  using assms(2,3) by (cases "data_callback s") (simp_all add: assms(1) conn_stream_receive_def put_stream_def conn_emit_def Let_def)

section \<open>Properties\<close>

text \<open>The kinds of stream ids of RFC 9000, for the client or the server.\<close>

definition rfc_env :: "bool \<Rightarrow> ng_env" where
  "rfc_env server = \<lparr>is_bidi_stream = (\<lambda>i. i mod 4 < 2), is_local_stream = (\<lambda>i. odd i = server)\<rparr>"

lemma ctor_fields [simp]:
  "obj_ok (stream_ctor b [])" "user_buffers (stream_ctor b []) = []" "unsent_size (stream_ctor b []) = 0"
  "unacked_size (stream_ctor b []) = 0" "acked_bytes (stream_ctor b []) = 0" "current_buffer_index (stream_ctor b []) = 0"
  "current_buffer_offset (stream_ctor b []) = 0" "front_trimmed (stream_ctor b []) = 0" "\<not> is_closing (stream_ctor b [])"
  "\<not> send_fin (stream_ctor b [])" "\<not> sent_fin (stream_ctor b [])" "\<not> ready (stream_ctor b [])" "conn (stream_ctor b [])"
  "\<not> notify (stream_ctor b [])" "\<not> had_notify (stream_ctor b [])" "watermarking (stream_ctor b []) = None"
  "close_calls (stream_ctor b []) = 0"
  using stream_ctor_inv [of b "[]"]
  by (simp_all add: obj_ok_def) (simp_all add: stream_ctor_def stream_base_ctor_def stream_set_default_callbacks_def close_calls_def)

lemmas conn_eval = conn_ctor_def fresh_def held_def unused_id_def rfc_env_def open_stream_def queue_incoming_stream_def
  stream_opened_def accept_stream_def check_established_def conn_emit_def returned_def conn_stream_closed_def release_def
  on_object_def map_objects_def objects_def set_ready_def stream_execute_close_def map_erase_def Let_def
  stream_send_impl_def append_buffer_def check_watermark_if_enabled_def sz_add_def sz_sub_def buf_bytes_def wrote_def
  wrote_loop.simps emit_def inflight_def queued_def acknowledge_def





text \<open>
  C31: a stream that was closed on this side before ngtcp2 reports it closed is let go without its close callback, and
  still refers to the connection: \<open>Stream::closed\<close>, which clears that reference, is skipped for it.
\<close>

theorem local_close_keeps_connection:
  assumes "map_of (streams c) i = Some (ob, s)" "is_closing s" "conn s" "is_bidi_stream env i"
  shows "\<exists>c' s'. conn_stream_closed env i code c = Some c' \<and> i \<notin> fst ` set (streams c') \<and>
    released c' = released c @ [(ob, s')] \<and> conn s' \<and> close_calls s' = close_calls s"
proof -
  have "i \<notin> fst ` set (map_erase i (streams c))" by (auto simp: set_map_erase)
  moreover have "conn (disable_watermarks (s\<lparr>is_closing := True\<rparr>))"
    "close_calls (disable_watermarks (s\<lparr>is_closing := True\<rparr>)) = close_calls s"
    using assms(3) by (simp_all add: disable_watermarks_def close_calls_def)
  ultimately show ?thesis using assms by (simp add: conn_stream_closed_def Let_def stream_execute_close_def)
qed

theorem local_close_keeps_connection_witness:
  "\<exists>c'. conn_stream_closed (rfc_env False) 0 5
      ((conn_ctor True True)\<lparr>streams := [(0, 1, (stream_ctor True [])\<lparr>is_closing := True\<rparr>)]\<rparr>) = Some c' \<and>
    (\<exists>s'. released c' = [(1, s')] \<and> conn s' \<and> close_calls s' = 0)"
  using local_close_keeps_connection [of "(conn_ctor True True)\<lparr>streams := [(0, 1, (stream_ctor True [])\<lparr>is_closing := True\<rparr>)]\<rparr>" 0 1
      "(stream_ctor True [])\<lparr>is_closing := True\<rparr>" "rfc_env False" 5]
  by (auto simp: rfc_env_def conn_ctor_def)


end
