(* ===== verification/Unencrypted.thy ===== *)
theory Unencrypted
  imports Quic_Prelude
begin

text \<open>
  The handshake of unencrypted connections (\<open>unencrypted.hpp\<close>, \<open>unencrypted.cpp\<close> and the null crypto callbacks of
  \<open>connection.cpp\<close>): it stands in for TLS and carries only the transport parameters. The calls made on ngtcp2 are
  a log; its answers (return codes, the encoded transport parameters) are the record \<open>ng_crypto\<close>.
\<close>

section \<open>State\<close>

datatype enc_level = LevelInitial | LevelHandshake | Level1Rtt | Level0Rtt

datatype ng_call =
    SetInitialCryptoCtx
  | InstallInitialKey
  | SetRetryAead
  | SetCryptoCtx
  | InstallVnegInitialKey u32
  | InstallRxHandshakeKey
  | InstallTxHandshakeKey
  | InstallTxKey
  | InstallRxKey
  | SetRemoteParams bytes
  | SubmitCryptoData enc_level bytes
  | TlsHandshakeCompleted

record unenc =
  is_inbound :: bool
  tx_initial :: bytes
  tx_handshake :: bytes
  rx_initial :: bytes
  rx_handshake :: bytes
  ng_log :: "ng_call list"

definition unenc_ctor :: "bool \<Rightarrow> unenc" where
  "unenc_ctor inbound =
     \<lparr>is_inbound = inbound, tx_initial = [], tx_handshake = [], rx_initial = [], rx_handshake = [], ng_log = []\<rparr>"

record ng_crypto =
  encode_local_params :: "nat \<Rightarrow> int + bytes"
  return_code :: "ng_call \<Rightarrow> int"
  err_callback_failure :: int

definition ng_call :: "ng_call \<Rightarrow> unenc \<Rightarrow> unenc" where
  "ng_call x u = u\<lparr>ng_log := ng_log u @ [x]\<rparr>"

definition unencrypted_handshake_magic :: bytes where
  "unencrypted_handshake_magic = [110, 111, 99, 114, 121, 112, 116, 1]"

definition msg_header :: nat where
  "msg_header = length unencrypted_handshake_magic + 2"

section \<open>Null crypto\<close>

definition null_max_overhead :: nat where
  "null_max_overhead = 1"

definition null_max_encryption :: nat where
  "null_max_encryption = 2 ^ 64 - 1"

text \<open>The destination has room for the result; it may be the source.\<close>

definition unencrypted_encrypt :: "nat \<Rightarrow> bytes \<Rightarrow> bytes" where
  "unencrypted_encrypt max_overhead plaintext = plaintext @ replicate max_overhead 0"

definition unencrypted_decrypt :: "nat \<Rightarrow> bytes \<Rightarrow> bytes option" where
  "unencrypted_decrypt max_overhead ciphertext =
     (let plaintextlen = sz_sub (length ciphertext) max_overhead
      in if plaintextlen \<le> length ciphertext then Some (take plaintextlen ciphertext) else None)"

definition unencrypted_hp_mask :: "nat \<Rightarrow> bytes" where
  "unencrypted_hp_mask masklen = replicate masklen 0"

definition unencrypted_initial_keys :: "unenc \<Rightarrow> unenc" where
  "unencrypted_initial_keys u =
     (let u = ng_call InstallInitialKey (ng_call SetInitialCryptoCtx u);
          u = (if \<not> is_inbound u then ng_call SetRetryAead u else u)
      in ng_call SetCryptoCtx u)"

definition unencrypted_version_negotiation :: "ng_crypto \<Rightarrow> u32 \<Rightarrow> unenc \<Rightarrow> int \<times> unenc" where
  "unencrypted_version_negotiation ng version u =
     (let x = InstallVnegInitialKey version in (return_code ng x, ng_call x u))"

section \<open>Messages\<close>

definition put_tx :: "enc_level \<Rightarrow> bytes \<Rightarrow> unenc \<Rightarrow> unenc" where
  "put_tx level buf u = (if level = LevelInitial then u\<lparr>tx_initial := buf\<rparr> else u\<lparr>tx_handshake := buf\<rparr>)"

text \<open>If encoding fails, the buffer keeps its full size (with what was written to it, here nothing).\<close>

definition unencrypted_send :: "ng_crypto \<Rightarrow> enc_level \<Rightarrow> bool \<Rightarrow> unenc \<Rightarrow> int \<times> unenc" where
  "unencrypted_send ng level with_transport_params u =
     (let buf = unencrypted_handshake_magic @ replicate 2 0
      in case (if with_transport_params then encode_local_params ng 512 else Inr []) of
           Inl err \<Rightarrow> (err, put_tx level (buf @ replicate 512 0) u)
         | Inr params \<Rightarrow>
             let buf = buf @ params;
                 payload_len = length buf - msg_header;
                 buf = buf[msg_header - 2 := word_of_nat (drop_bit 8 payload_len),
                           msg_header - 1 := word_of_nat (payload_len AND 255)];
                 x = SubmitCryptoData level buf
             in (return_code ng x, ng_call x (put_tx level buf u)))"

definition unencrypted_complete_handshake :: "unenc \<Rightarrow> unenc" where
  "unencrypted_complete_handshake u =
     (let u = ng_call InstallRxKey u;
          u = (if \<not> is_inbound u then ng_call InstallTxKey u else u)
      in ng_call TlsHandshakeCompleted u)"

text \<open>A sequence of steps that stops at the first return code other than 0.\<close>

fun try_all :: "(unenc \<Rightarrow> int \<times> unenc) list \<Rightarrow> unenc \<Rightarrow> int \<times> unenc" where
  "try_all [] u = (0, u)"
| "try_all (f # fs) u = (let (rv, u) = f u in if rv \<noteq> 0 then (rv, u) else try_all fs u)"

definition ng_try :: "ng_crypto \<Rightarrow> ng_call \<Rightarrow> unenc \<Rightarrow> int \<times> unenc" where
  "ng_try ng x u = (return_code ng x, ng_call x u)"

definition unencrypted_handle_message :: "ng_crypto \<Rightarrow> enc_level \<Rightarrow> bytes \<Rightarrow> unenc \<Rightarrow> int \<times> unenc" where
  "unencrypted_handle_message ng level payload u =
     (let server = is_inbound u
      in if level = LevelInitial
         then try_all
                ((if server \<and> payload \<noteq> [] then [ng_try ng (SetRemoteParams payload)] else []) @
                 [ng_try ng InstallRxHandshakeKey, ng_try ng InstallTxHandshakeKey] @
                 (if server
                  then [ng_try ng InstallTxKey, unencrypted_send ng LevelInitial False,
                        unencrypted_send ng LevelHandshake True]
                  else [])) u
         else try_all
                ((if payload \<noteq> [] then [ng_try ng (SetRemoteParams payload)] else []) @
                 (if \<not> server then [unencrypted_send ng LevelHandshake False] else []) @
                 [\<lambda>u. (0, unencrypted_complete_handshake u)]) u)"

definition unencrypted_client_initial :: "ng_crypto \<Rightarrow> unenc \<Rightarrow> int \<times> unenc" where
  "unencrypted_client_initial ng u = unencrypted_send ng LevelInitial True (unencrypted_initial_keys u)"

definition unencrypted_recv_client_initial :: "unenc \<Rightarrow> int \<times> unenc" where
  "unencrypted_recv_client_initial u = (0, unencrypted_initial_keys u)"

section \<open>Received data\<close>

text \<open>The loop over the complete messages of a buffer; it gives the return code and what is left of the buffer.\<close>

function rx_loop :: "ng_crypto \<Rightarrow> enc_level \<Rightarrow> bytes \<Rightarrow> unenc \<Rightarrow> int \<times> bytes \<times> unenc" where
  "rx_loop ng level buf u =
     (if length buf < msg_header then (0, buf, u)
      else if take (length unencrypted_handshake_magic) buf \<noteq> unencrypted_handshake_magic
      then (err_callback_failure ng, buf, u)
      else let payload_len = push_bit 8 (unat (buf ! (msg_header - 2))) OR unat (buf ! (msg_header - 1))
           in if length buf < msg_header + payload_len then (0, buf, u)
              else let (rv, u) = unencrypted_handle_message ng level (take payload_len (drop msg_header buf)) u
                   in if rv \<noteq> 0 then (rv, buf, u)
                      else rx_loop ng level (drop (msg_header + payload_len) buf) u)"
  by pat_completeness auto
termination
  by (relation "measure (\<lambda>(ng, level, buf, u). length buf)") (auto simp: msg_header_def)

declare rx_loop.simps [simp del]

definition unencrypted_recv_crypto_data :: "ng_crypto \<Rightarrow> enc_level \<Rightarrow> bytes \<Rightarrow> unenc \<Rightarrow> int \<times> unenc" where
  "unencrypted_recv_crypto_data ng level data u =
     (case level of
        Level1Rtt \<Rightarrow> (0, u)
      | Level0Rtt \<Rightarrow> (err_callback_failure ng, u)
      | LevelInitial \<Rightarrow>
          (case rx_loop ng level (rx_initial u @ data) u of (rv, buf, u) \<Rightarrow> (rv, u\<lparr>rx_initial := buf\<rparr>))
      | LevelHandshake \<Rightarrow>
          (case rx_loop ng level (rx_handshake u @ data) u of (rv, buf, u) \<Rightarrow> (rv, u\<lparr>rx_handshake := buf\<rparr>)))"

end
