(* ===== verification/Unencrypted_Correct.thy ===== *)
theory Unencrypted_Correct
  imports Unencrypted
begin

text \<open>
  The unencrypted handshake: its messages survive any division of the crypto stream into chunks, and a client and
  a server that run it against each other both complete it.
\<close>

section \<open>Framing\<close>

definition frame :: "bytes \<Rightarrow> bytes" where
  "frame p = unencrypted_handshake_magic @ [word_of_nat (length p div 256), word_of_nat (length p mod 256)] @ p"

lemma magic_length: "length unencrypted_handshake_magic = 8"
  by (simp add: unencrypted_handshake_magic_def)

lemma msg_header_eq: "msg_header = 10"
  by (simp add: msg_header_def magic_length)

lemma frame_shape:
  "length (frame p) = 10 + length p" "take 8 (frame p @ rest) = unencrypted_handshake_magic" "drop 10 (frame p @ rest) = p @ rest"
  "(frame p @ rest) ! 8 = word_of_nat (length p div 256)" "(frame p @ rest) ! 9 = word_of_nat (length p mod 256)"
  by (simp_all add: frame_def magic_length nth_append)

lemma length_bytes:
  assumes "n < 65536"
  shows "push_bit 8 (unat (word_of_nat (n div 256) :: byte)) OR unat (word_of_nat (n mod 256) :: byte) = n"
proof -
  have u: "unat (word_of_nat (n div 256) :: byte) = n div 256" "unat (word_of_nat (n mod 256) :: byte) = n mod 256"
    using assms by (simp_all add: unat_of_nat)
  have "push_bit 8 (n div 256) = drop_bit 8 n * 256" "n mod 256 = take_bit 8 n"
    by (simp_all add: push_bit_eq_mult drop_bit_eq_div take_bit_eq_mod)
  moreover have "push_bit 8 (drop_bit 8 n) OR take_bit 8 n = n" by (rule bit_eqI) (auto simp: bit_or_iff bit_push_bit_iff bit_drop_bit_eq bit_take_bit_iff)
  ultimately show ?thesis unfolding u by (simp add: push_bit_eq_mult drop_bit_eq_div)
qed

lemma send_frame:
  assumes "wp \<Longrightarrow> encode_local_params ng 512 = Inr p" "\<not> wp \<Longrightarrow> p = []"
  shows "unencrypted_send ng level wp u =
    (return_code ng (SubmitCryptoData level (frame p)), ng_call (SubmitCryptoData level (frame p)) (put_tx level (frame p) u))"
proof -
  have "(unencrypted_handshake_magic @ replicate 2 0 @ p)[8 := a, 9 := b] = unencrypted_handshake_magic @ [a, b] @ p" for a b
    by (simp add: list_update_append magic_length numeral_2_eq_2)
  moreover have "word_of_nat (drop_bit 8 (length p)) = (word_of_nat (length p div 256) :: byte)"
    "word_of_nat (length p AND 255) = (word_of_nat (length p mod 256) :: byte)"
    using take_bit_eq_mask [of 8 "length p"] by (simp_all add: drop_bit_eq_div take_bit_eq_mod mask_eq_exp_minus_1)
  ultimately show ?thesis
    using assms by (cases wp) (simp_all add: unencrypted_send_def Let_def msg_header_eq magic_length frame_def)
qed

lemma rx_frame:
  assumes "length p < 65536"
  shows "rx_loop ng level (frame p @ rest) u =
    (let (rv, u) = unencrypted_handle_message ng level p u
     in if rv \<noteq> 0 then (rv, frame p @ rest, u) else rx_loop ng level rest u)"
proof -
  have d: "drop (msg_header + length p) (frame p @ rest) = rest"
    using frame_shape(1) [of p] by (simp add: msg_header_eq)
  have l: "\<not> length (frame p @ rest) < msg_header" "\<not> length (frame p @ rest) < msg_header + length p"
    using frame_shape(1) [of p] by (simp_all add: msg_header_eq)
  show ?thesis
    by (subst rx_loop.simps)
      (simp add: l frame_shape frame_shape(2,3) [of p "[]", simplified] magic_length length_bytes [OF assms] d msg_header_eq Let_def case_prod_unfold del: append_assoc)
qed

section \<open>Chunks\<close>

lemma rx_loop_append:
  "rx_loop ng level (a @ b) u =
    (case rx_loop ng level a u of (rv, r, u') \<Rightarrow> if rv \<noteq> 0 then (rv, r @ b, u') else rx_loop ng level (r @ b) u')"
proof (induction ng level a u rule: rx_loop.induct)
  case (1 ng level a u)
  let ?p = "push_bit 8 (unat (a ! (msg_header - 2))) OR unat (a ! (msg_header - 1))"
  show ?case
  proof (cases "length a < msg_header \<or> take 8 a = unencrypted_handshake_magic \<and> length a < msg_header + ?p")
    case True
    then have "rx_loop ng level a u = (0, a, u)" by (subst rx_loop.simps) (auto simp: magic_length Let_def)
    then show ?thesis by simp
  next
    case long: False
    have n: "(a @ b) ! (msg_header - 2) = a ! (msg_header - 2)" "(a @ b) ! (msg_header - 1) = a ! (msg_header - 1)"
      "take 8 (a @ b) = take 8 a" "\<not> length (a @ b) < msg_header" using long by (auto simp: nth_append msg_header_eq)
    show ?thesis
    proof (cases "take 8 a = unencrypted_handshake_magic")
      case False
      have "rx_loop ng level a u = (err_callback_failure ng, a, u)"
        using False long by (subst rx_loop.simps) (simp add: magic_length)
      moreover have "rx_loop ng level (a @ b) u = (err_callback_failure ng, a @ b, u)"
        using False n by (subst rx_loop.simps) (simp add: magic_length del: take_append length_append)
      ultimately show ?thesis by simp
    next
      case True
      then have s: "\<not> length a < msg_header + ?p" "\<not> length a < msg_header" using long by auto
      have d: "drop (msg_header + ?p) (a @ b) = drop (msg_header + ?p) a @ b"
        "take ?p (drop msg_header (a @ b)) = take ?p (drop msg_header a)" "\<not> length (a @ b) < msg_header + ?p" using s by auto
      obtain rv u' where h: "unencrypted_handle_message ng level (take ?p (drop msg_header a)) u = (rv, u')" by fastforce
      have "rx_loop ng level (a @ b) u = (if rv \<noteq> 0 then (rv, a @ b, u') else rx_loop ng level (drop (msg_header + ?p) a @ b) u')"
        by (subst rx_loop.simps) (simp add: n True magic_length Let_def d h del: drop_append take_append length_append One_nat_def)
      moreover have "rx_loop ng level a u = (if rv \<noteq> 0 then (rv, a, u') else rx_loop ng level (drop (msg_header + ?p) a) u')"
        by (subst rx_loop.simps) (simp add: s True magic_length Let_def h del: One_nat_def)
      moreover have "rv = 0 \<Longrightarrow> rx_loop ng level (drop (msg_header + ?p) a @ b) u' =
          (case rx_loop ng level (drop (msg_header + ?p) a) u' of (rv, r, u') \<Rightarrow> if rv \<noteq> 0 then (rv, r @ b, u') else rx_loop ng level (r @ b) u')"
        using 1 [OF s(2) _ refl s(1)] h True by (simp add: magic_length)
      ultimately show ?thesis by auto
    qed
  qed
qed

text \<open>Handling a message neither reads nor changes the receive buffers.\<close>

definition with_rx :: "bytes \<Rightarrow> bytes \<Rightarrow> unenc \<Rightarrow> unenc" where
  "with_rx i h u = u\<lparr>rx_initial := i, rx_handshake := h\<rparr>"

lemma ng_call_rx: "ng_call x (with_rx i h u) = with_rx i h (ng_call x u)" "is_inbound (with_rx i h u) = is_inbound u"
  "put_tx level buf (with_rx i h u) = with_rx i h (put_tx level buf u)"
  by (simp_all add: ng_call_def with_rx_def put_tx_def)

lemma try_all_rx:
  "(\<And>f u. f \<in> set fs \<Longrightarrow> f (with_rx i h u) = apsnd (with_rx i h) (f u)) \<Longrightarrow>
   try_all fs (with_rx i h u) = apsnd (with_rx i h) (try_all fs u)"
proof (induction fs arbitrary: u)
  case (Cons f fs)
  have "f (with_rx i h u) = apsnd (with_rx i h) (f u)" using Cons(2) by simp
  then show ?case using Cons by (cases "f u") simp
qed simp

lemma steps_rx:
  "ng_try ng x (with_rx i h u) = apsnd (with_rx i h) (ng_try ng x u)"
  "unencrypted_send ng level wp (with_rx i h u) = apsnd (with_rx i h) (unencrypted_send ng level wp u)"
  "unencrypted_complete_handshake (with_rx i h u) = with_rx i h (unencrypted_complete_handshake u)"
  by (simp_all add: ng_try_def unencrypted_complete_handshake_def Let_def ng_call_rx)
    (simp add: unencrypted_send_def Let_def ng_call_rx split: sum.splits)

lemma handle_rx:
  "unencrypted_handle_message ng level p (with_rx i h u) = apsnd (with_rx i h) (unencrypted_handle_message ng level p u)"
proof -
  have "\<forall>f \<in> set fs. \<forall>u. f (with_rx i h u) = apsnd (with_rx i h) (f u) \<Longrightarrow>
      try_all fs (with_rx i h u) = apsnd (with_rx i h) (try_all fs u)" for fs using try_all_rx by blast
  then show ?thesis
    unfolding unencrypted_handle_message_def Let_def ng_call_rx(2) by (simp add: steps_rx del: try_all.simps)
qed

lemma rx_loop_rx:
  "rx_loop ng level buf (with_rx i h u) = (case rx_loop ng level buf u of (rv, r, u) \<Rightarrow> (rv, r, with_rx i h u))"
proof (induction ng level buf u rule: rx_loop.induct)
  case (1 ng level buf u)
  let ?p = "push_bit 8 (unat (buf ! (msg_header - 2))) OR unat (buf ! (msg_header - 1))"
  obtain rv u' where h: "unencrypted_handle_message ng level (take ?p (drop msg_header buf)) u = (rv, u')" by fastforce
  have eq: "rx_loop ng level buf v = (if length buf < msg_header then (0, buf, v)
      else if take (length unencrypted_handshake_magic) buf \<noteq> unencrypted_handshake_magic then (err_callback_failure ng, buf, v)
      else if length buf < msg_header + ?p then (0, buf, v)
      else case unencrypted_handle_message ng level (take ?p (drop msg_header buf)) v of (rv, w) \<Rightarrow>
        if rv \<noteq> 0 then (rv, buf, w) else rx_loop ng level (drop (msg_header + ?p) buf) w)" for v
    by (subst rx_loop.simps) (simp add: Let_def del: One_nat_def)
  show ?case using 1 h by (simp add: eq [of u] eq [of "with_rx i h u"] handle_rx del: One_nat_def)
qed

abbreviation crypto_level :: "enc_level \<Rightarrow> bool" where
  "crypto_level level \<equiv> level = LevelInitial \<or> level = LevelHandshake"

definition rx_buf :: "enc_level \<Rightarrow> unenc \<Rightarrow> bytes" where
  "rx_buf level u = (if level = LevelInitial then rx_initial u else rx_handshake u)"

definition put_rx :: "enc_level \<Rightarrow> bytes \<Rightarrow> unenc \<Rightarrow> unenc" where
  "put_rx level b u = (if level = LevelInitial then with_rx b (rx_handshake u) u else with_rx (rx_initial u) b u)"

lemma put_rx_simps [simp]: "rx_buf level (put_rx level b u) = b" "put_rx level b (put_rx level a u) = put_rx level b u"
  "put_rx level (rx_buf level u) u = u"
  by (simp_all add: rx_buf_def put_rx_def with_rx_def)

lemma recv_eq:
  "crypto_level level \<Longrightarrow> unencrypted_recv_crypto_data ng level data u =
    (case rx_loop ng level (rx_buf level u @ data) u of (rv, b, u) \<Rightarrow> (rv, put_rx level b u))"
  by (auto simp: unencrypted_recv_crypto_data_def rx_buf_def put_rx_def with_rx_def split: prod.splits)

lemma rx_loop_put:
  "rx_loop ng level b (put_rx level a u) = (case rx_loop ng level b u of (rv, r, u) \<Rightarrow> (rv, r, put_rx level a u))"
proof -
  have k: "rx_initial v = rx_initial u \<and> rx_handshake v = rx_handshake u" if "rx_loop ng level b u = (rv, r, v)" for rv r v
  proof -
    have w: "with_rx (rx_initial u) (rx_handshake u) u = u" by (simp add: with_rx_def)
    have "(rv, r, v) = (rv, r, with_rx (rx_initial u) (rx_handshake u) v)"
      using rx_loop_rx [of ng level b "rx_initial u" "rx_handshake u" u] that unfolding w by simp
    then have "v = with_rx (rx_initial u) (rx_handshake u) v" by simp
    then show ?thesis by (metis unenc.select_convs(4,5) unenc.surjective unenc.update_convs(4,5) with_rx_def)
  qed
  show ?thesis using k by (auto simp: put_rx_def rx_loop_rx split: prod.splits)
qed

lemma recv_append:
  assumes "crypto_level level"
  shows "unencrypted_recv_crypto_data ng level (a @ b) u =
    (case unencrypted_recv_crypto_data ng level a u of (rv, v) \<Rightarrow>
       if rv \<noteq> 0 then (rv, put_rx level (rx_buf level v @ b) v) else unencrypted_recv_crypto_data ng level b v)"
  using rx_loop_append [of ng level "rx_buf level u @ a" b u]
  by (simp add: recv_eq [OF assms] rx_loop_put case_prod_unfold split: prod.splits)

lemma recv_chunks:
  assumes "crypto_level level"
  shows "unencrypted_recv_crypto_data ng level [] u = (0, u) \<Longrightarrow> unencrypted_recv_crypto_data ng level (concat cs) u = (0, v) \<Longrightarrow>
    try_all (map (unencrypted_recv_crypto_data ng level) cs) u = (0, v)"
proof (induction cs arbitrary: u)
  case (Cons c cs)
  obtain rv w where w: "unencrypted_recv_crypto_data ng level c u = (rv, w)" by fastforce
  then have "rv = 0" "unencrypted_recv_crypto_data ng level (concat cs) w = (0, v)"
    using Cons(3) recv_append [OF assms, of ng c "concat cs" u] by (simp_all split: if_splits)
  moreover have "unencrypted_recv_crypto_data ng level [] w = (0, w)"
    using recv_append [OF assms, of ng c "[]" u] w \<open>rv = 0\<close> by simp
  ultimately show ?case using Cons(1) [of w] w by simp
qed simp

text \<open>A whole message, in any chunks, is handled once.\<close>

lemma recv_message:
  assumes "crypto_level level" "rx_buf level u = []" "length p < 65536" "concat cs = frame p"
    "unencrypted_handle_message ng level p u = (0, v)"
  shows "try_all (map (unencrypted_recv_crypto_data ng level) cs) u = (0, put_rx level [] v)"
proof (rule recv_chunks [OF assms(1)])
  have e: "rx_loop ng level [] w = (0, [], w)" for w by (subst rx_loop.simps) (simp add: msg_header_eq)
  have "put_rx level [] u = u" using put_rx_simps(3) [of level u] assms(2) by simp
  then show "unencrypted_recv_crypto_data ng level [] u = (0, u)" by (simp add: recv_eq [OF assms(1)] assms(2) e)
  show "unencrypted_recv_crypto_data ng level (concat cs) u = (0, put_rx level [] v)"
    using rx_frame [OF assms(3), of ng level "[]" u] by (simp add: recv_eq [OF assms(1)] assms(2,4,5) e)
qed

section \<open>The whole handshake\<close>

text \<open>
  A client and a server, each with its own ngtcp2 connection. Each crypto stream is delivered in
  chunks, in the order of the handshake: the client's Initial message, the server's, the server's Handshake
  message, the client's.
\<close>

definition run_handshake :: "ng_crypto \<Rightarrow> ng_crypto \<Rightarrow> (nat \<Rightarrow> bytes \<Rightarrow> bytes list) \<Rightarrow> int list \<times> unenc \<times> unenc" where
  "run_handshake ngc ngs chunk =
     (let (r1, c) = unencrypted_client_initial ngc (unenc_ctor False);
          (r2, s) = unencrypted_recv_client_initial (unenc_ctor True);
          (r3, s) = try_all (map (unencrypted_recv_crypto_data ngs LevelInitial) (chunk 0 (tx_initial c))) s;
          (r4, c) = try_all (map (unencrypted_recv_crypto_data ngc LevelInitial) (chunk 1 (tx_initial s))) c;
          (r5, c) = try_all (map (unencrypted_recv_crypto_data ngc LevelHandshake) (chunk 2 (tx_handshake s))) c;
          (r6, s) = try_all (map (unencrypted_recv_crypto_data ngs LevelHandshake) (chunk 3 (tx_handshake c))) s
      in ([r1, r2, r3, r4, r5, r6], c, s))"

text \<open>ngtcp2 accepts everything and encodes the local transport parameters within the space it is given.\<close>

definition ng_accepts :: "bytes \<Rightarrow> ng_crypto \<Rightarrow> bool" where
  "ng_accepts p ng \<longleftrightarrow> (\<forall>x. return_code ng x = 0) \<and> encode_local_params ng 512 = Inr p \<and> length p \<le> 512 \<and> p \<noteq> []"

text \<open>A peer that does not send the magic is refused before anything is done for it.\<close>

lemma unencrypted_rejects_others:
  assumes "crypto_level level" "rx_buf level u = []" "msg_header \<le> length data"
    "take (length unencrypted_handshake_magic) data \<noteq> unencrypted_handshake_magic"
  shows "unencrypted_recv_crypto_data ng level data u = (err_callback_failure ng, put_rx level data u)"
  using assms by (subst recv_eq, simp, subst rx_loop.simps) simp

text \<open>The null cipher gives the plaintext back.\<close>

lemma unencrypted_decrypt_encrypt: "unencrypted_decrypt k (unencrypted_encrypt k p) = Some p"
  by (simp add: unencrypted_decrypt_def unencrypted_encrypt_def sz_sub_def Let_def)

definition client_start :: "bytes \<Rightarrow> ng_call list" where
  "client_start p = [SetInitialCryptoCtx, InstallInitialKey, SetRetryAead, SetCryptoCtx, SubmitCryptoData LevelInitial (frame p)]"

definition client_finish :: "bytes \<Rightarrow> ng_call list" where
  "client_finish p = [InstallRxHandshakeKey, InstallTxHandshakeKey, SetRemoteParams p,
     SubmitCryptoData LevelHandshake (frame []), InstallRxKey, InstallTxKey, TlsHandshakeCompleted]"

definition server_accept :: "bytes \<Rightarrow> bytes \<Rightarrow> ng_call list" where
  "server_accept pc ps = [SetInitialCryptoCtx, InstallInitialKey, SetCryptoCtx, SetRemoteParams pc, InstallRxHandshakeKey,
     InstallTxHandshakeKey, InstallTxKey, SubmitCryptoData LevelInitial (frame []), SubmitCryptoData LevelHandshake (frame ps)]"

lemmas handshake_eval = unencrypted_handle_message_def ng_try_def unencrypted_initial_keys_def unencrypted_complete_handshake_def
  ng_call_def put_tx_def unenc_ctor_def client_start_def client_finish_def server_accept_def Let_def

lemma handshake_steps:
  assumes "ng_accepts pc ngc" "ng_accepts ps ngs"
  shows "unencrypted_client_initial ngc (unenc_ctor False) =
      (0, (unenc_ctor False)\<lparr>tx_initial := frame pc, ng_log := client_start pc\<rparr>)" (is ?c)
    "unencrypted_handle_message ngs LevelInitial pc (unencrypted_initial_keys (unenc_ctor True)) =
      (0, (unenc_ctor True)\<lparr>tx_initial := frame [], tx_handshake := frame ps, ng_log := server_accept pc ps\<rparr>)" (is ?s)
    "unencrypted_handle_message ngc LevelInitial [] ((unenc_ctor False)\<lparr>tx_initial := frame pc, ng_log := client_start pc\<rparr>) =
      (0, (unenc_ctor False)\<lparr>tx_initial := frame pc, ng_log := client_start pc @ take 2 (client_finish ps)\<rparr>)" (is ?c2)
    "unencrypted_handle_message ngc LevelHandshake ps
        ((unenc_ctor False)\<lparr>tx_initial := frame pc, ng_log := client_start pc @ take 2 (client_finish ps)\<rparr>) =
      (0, (unenc_ctor False)\<lparr>tx_initial := frame pc, tx_handshake := frame [], ng_log := client_start pc @ client_finish ps\<rparr>)" (is ?c3)
    "unencrypted_handle_message ngs LevelHandshake []
        ((unenc_ctor True)\<lparr>tx_initial := frame [], tx_handshake := frame ps, ng_log := server_accept pc ps\<rparr>) =
      (0, (unenc_ctor True)\<lparr>tx_initial := frame [], tx_handshake := frame ps,
             ng_log := server_accept pc ps @ [InstallRxKey, TlsHandshakeCompleted]\<rparr>)" (is ?s2)
proof -
  have send: "unencrypted_send ng level False u = (return_code ng (SubmitCryptoData level (frame [])),
      ng_call (SubmitCryptoData level (frame [])) (put_tx level (frame []) u))" for ng level u by (rule send_frame) simp_all
  have sc: "unencrypted_send ngc level True u = (0, ng_call (SubmitCryptoData level (frame pc)) (put_tx level (frame pc) u))"
    and ss: "unencrypted_send ngs level True u = (0, ng_call (SubmitCryptoData level (frame ps)) (put_tx level (frame ps) u))" for level u
    using send_frame [of True ngc pc level u] send_frame [of True ngs ps level u] assms by (simp_all add: ng_accepts_def)
  have z: "return_code ngc x = 0" "return_code ngs x = 0" "pc \<noteq> []" "ps \<noteq> []" for x using assms by (simp_all add: ng_accepts_def)
  note ev = unencrypted_client_initial_def send sc ss z handshake_eval
  show ?c ?s ?c2 ?c3 ?s2 by (simp_all add: ev)
qed

text \<open>
  C33: the unencrypted handshake completes on both sides, each side having set the other's transport parameters
  and installed its keys before completing, and having made exactly the calls a handshake needs, however the
  crypto streams are cut into chunks.
\<close>

theorem unencrypted_handshake_completes:
  assumes "ng_accepts pc ngc" "ng_accepts ps ngs" "\<And>k b. concat (chunk k b) = b"
  shows "\<exists>c s. run_handshake ngc ngs chunk = ([0, 0, 0, 0, 0, 0], c, s) \<and>
    ng_log c = [SetInitialCryptoCtx, InstallInitialKey, SetRetryAead, SetCryptoCtx, SubmitCryptoData LevelInitial (frame pc),
      InstallRxHandshakeKey, InstallTxHandshakeKey, SetRemoteParams ps, SubmitCryptoData LevelHandshake (frame []),
      InstallRxKey, InstallTxKey, TlsHandshakeCompleted] \<and>
    ng_log s = [SetInitialCryptoCtx, InstallInitialKey, SetCryptoCtx, SetRemoteParams pc, InstallRxHandshakeKey,
      InstallTxHandshakeKey, InstallTxKey, SubmitCryptoData LevelInitial (frame []), SubmitCryptoData LevelHandshake (frame ps),
      InstallRxKey, TlsHandshakeCompleted]"
proof -
  note st = handshake_steps [OF assms(1,2)]
  have l: "length pc < 65536" "length ps < 65536" using assms(1,2) by (simp_all add: ng_accepts_def)
  have msg: "try_all (map (unencrypted_recv_crypto_data ng level) (chunk k (frame p))) u = (0, put_rx level [] v)"
    if "crypto_level level" "rx_buf level u = []" "length p < 65536" "unencrypted_handle_message ng level p u = (0, v)" for k ng level p u v
    using recv_message [OF that(1-3) _ that(4)] assms(3) by blast
  have fields: "put_rx level [] ((unenc_ctor b)\<lparr>tx_initial := i, tx_handshake := h, ng_log := xs\<rparr>) =
      (unenc_ctor b)\<lparr>tx_initial := i, tx_handshake := h, ng_log := xs\<rparr>"
    "put_rx level [] ((unenc_ctor b)\<lparr>tx_initial := i, ng_log := xs\<rparr>) = (unenc_ctor b)\<lparr>tx_initial := i, ng_log := xs\<rparr>"
    "rx_buf level ((unenc_ctor b)\<lparr>tx_initial := i, tx_handshake := h, ng_log := xs\<rparr>) = []"
    "rx_buf level ((unenc_ctor b)\<lparr>tx_initial := i, ng_log := xs\<rparr>) = []" "rx_buf level (unencrypted_initial_keys (unenc_ctor b)) = []"
    for b i h xs level by (simp_all add: put_rx_def rx_buf_def with_rx_def unencrypted_initial_keys_def unenc_ctor_def ng_call_def Let_def)
  have m: "try_all (map (unencrypted_recv_crypto_data ngs LevelInitial) (chunk 0 (frame pc))) (unencrypted_initial_keys (unenc_ctor True)) =
      (0, (unenc_ctor True)\<lparr>tx_initial := frame [], tx_handshake := frame ps, ng_log := server_accept pc ps\<rparr>)"
    "try_all (map (unencrypted_recv_crypto_data ngc LevelInitial) (chunk 1 (frame []))) ((unenc_ctor False)\<lparr>tx_initial := frame pc, ng_log := client_start pc\<rparr>) =
      (0, (unenc_ctor False)\<lparr>tx_initial := frame pc, ng_log := client_start pc @ take 2 (client_finish ps)\<rparr>)"
    "try_all (map (unencrypted_recv_crypto_data ngc LevelHandshake) (chunk 2 (frame ps)))
        ((unenc_ctor False)\<lparr>tx_initial := frame pc, ng_log := client_start pc @ take 2 (client_finish ps)\<rparr>) =
      (0, (unenc_ctor False)\<lparr>tx_initial := frame pc, tx_handshake := frame [], ng_log := client_start pc @ client_finish ps\<rparr>)"
    "try_all (map (unencrypted_recv_crypto_data ngs LevelHandshake) (chunk 3 (frame [])))
        ((unenc_ctor True)\<lparr>tx_initial := frame [], tx_handshake := frame ps, ng_log := server_accept pc ps\<rparr>) =
      (0, (unenc_ctor True)\<lparr>tx_initial := frame [], tx_handshake := frame ps, ng_log := server_accept pc ps @ [InstallRxKey, TlsHandshakeCompleted]\<rparr>)"
    using msg [OF _ _ l(1) st(2)] msg [OF _ _ _ st(3)] msg [OF _ _ l(2) st(4)] msg [OF _ _ _ st(5)] by (simp_all add: fields)
  show ?thesis
    by (simp add: run_handshake_def st(1) unencrypted_recv_client_initial_def m Let_def del: One_nat_def)
      (simp add: client_start_def client_finish_def server_accept_def)
qed

theorem unencrypted_handshake_completes_witness:
  "\<exists>c s. run_handshake \<lparr>encode_local_params = (\<lambda>n. Inr [1, 2, 3]), return_code = (\<lambda>x. 0), err_callback_failure = - 1\<rparr>
      \<lparr>encode_local_params = (\<lambda>n. Inr [4, 5]), return_code = (\<lambda>x. 0), err_callback_failure = - 1\<rparr> (\<lambda>k b. map (\<lambda>x. [x]) b) =
      ([0, 0, 0, 0, 0, 0], c, s) \<and>
    SetRemoteParams [4, 5] \<in> set (ng_log c) \<and> SetRemoteParams [1, 2, 3] \<in> set (ng_log s)"
proof -
  have "concat (map (\<lambda>x. [x]) b) = b" for b :: bytes by (induction b) simp_all
  then show ?thesis
    using unencrypted_handshake_completes [of "[1, 2, 3]"
      "\<lparr>encode_local_params = (\<lambda>n. Inr [1, 2, 3]), return_code = (\<lambda>x. 0), err_callback_failure = - 1\<rparr>" "[4, 5]"
      "\<lparr>encode_local_params = (\<lambda>n. Inr [4, 5]), return_code = (\<lambda>x. 0), err_callback_failure = - 1\<rparr>" "\<lambda>k b. map (\<lambda>x. [x]) b"]
    by (auto simp: ng_accepts_def)
qed

end
