(* ===== verification/Connection.thy ===== *)
theory Connection
  imports Conn_Streams Address
begin

text \<open>
  A connection's own state (\<open>connection.hpp\<close>, \<open>connection.cpp\<close>): its path and the changes of the path when the host's
  network changes, its progress from the handshake to the end, the packets it is given, and the identifiers the
  endpoint knows it by. Its streams are those of \<open>Conn_Streams\<close>.

  ngtcp2's answers are arguments: the return codes of its calls, and what reading a packet does to the connection by
  ngtcp2's callbacks. What a connection asks of its endpoint (closing, dropping or draining it) is deferred by the code
  to the job queue; here it is the log of requests \<open>conn_reqs\<close>. The calls made on ngtcp2 that change its state
  are the log \<open>ng_calls\<close>. The test hooks of debug builds are left out.
\<close>

section \<open>State\<close>

type_synonym cid = bytes

text \<open>How the host reaches the peer: the local address and, through a NAT64, the address to send to.\<close>

record route =
  route_local :: Address
  route_nat64 :: "Address option"

datatype conn_request =
    AskClose io_error "string option"
  | AskDrop io_error
  | AskDrain

datatype conn_ng_call =
    NgReadPkt
  | is_NgMigrate: NgMigrate Path
  | NgHandleExpiry
  | NgEarlyDataRejected
  | NgSubmitNewToken bytes
  | TlsSendTickets

record connection =
  is_outbound :: bool
  path :: Path
  nat64_path :: "Path option"
  unconfirmed_local :: "Address option"
  pending_route :: "route option"
  draining :: bool
  closing :: bool
  handshaked :: bool
  handshake_confirmed :: bool
  dead :: bool
  early_data :: bool
  close_quietly :: bool
  has_closed_cb :: bool
  io_events :: bool
  associated_cids :: "cid list"
  associated_resets :: "bytes list"
  packet_splitting :: bool
  last_max_dgram_piece :: nat
  max_dgram_size_changed :: bool
  chans :: conn_streams
  flush_due :: bool
  conn_reqs :: "conn_request list"
  ng_calls :: "conn_ng_call list"

record ng_codes =
  NGTCP2_ERR_CONN_ID_BLOCKED :: int
  NGTCP2_ERR_DRAINING :: int
  NGTCP2_ERR_PROTO :: int
  NGTCP2_ERR_DROP_CONN :: int
  NGTCP2_ERR_CRYPTO :: int
  NGTCP2_ERR_IDLE_CLOSE :: int
  NGTCP2_ERR_CALLBACK_FAILURE :: int

text \<open>A connection as constructed, with the early data the TLS session allows.\<close>

definition connection_ctor ::
  "bool \<Rightarrow> Path \<Rightarrow> Address option \<Rightarrow> bool \<Rightarrow> bool \<Rightarrow> bool \<Rightarrow> bool \<Rightarrow> connection" where
  "connection_ctor outbound p nat64_remote datagrams splitting closed_cb zero_rtt =
     \<lparr>is_outbound = outbound, path = path_assign p,
      nat64_path = map_option (path_ctor (path_local p)) nat64_remote, unconfirmed_local = None, pending_route = None,
      draining = False, closing = False, handshaked = False, handshake_confirmed = False, dead = False,
      early_data = (outbound \<and> zero_rtt), close_quietly = False, has_closed_cb = closed_cb, io_events = True,
      associated_cids = [], associated_resets = [], packet_splitting = splitting, last_max_dgram_piece = 0,
      max_dgram_size_changed = True, chans = conn_ctor outbound datagrams, flush_due = False, conn_reqs = [],
      ng_calls = []\<rparr>"

definition ask :: "conn_request \<Rightarrow> connection \<Rightarrow> connection" where
  "ask r c = c\<lparr>conn_reqs := conn_reqs c @ [r]\<rparr>"

definition ng_emit :: "conn_ng_call \<Rightarrow> connection \<Rightarrow> connection" where
  "ng_emit x c = c\<lparr>ng_calls := ng_calls c @ [x]\<rparr>"

section \<open>Paths and routes\<close>

definition nat64_remote :: "connection \<Rightarrow> Address option" where
  "nat64_remote c = map_option path_remote (nat64_path c)"

definition send_path :: "connection \<Rightarrow> Path" where
  "send_path c = (case nat64_path c of Some p \<Rightarrow> p | None \<Rightarrow> path c)"

definition set_route :: "route \<Rightarrow> connection \<Rightarrow> connection" where
  "set_route r c =
     c\<lparr>path := path_ctor (route_local r) (path_remote (path c)),
       nat64_path := map_option (path_ctor (route_local r)) (route_nat64 r)\<rparr>"

definition set_remote_addr :: "sockaddr \<Rightarrow> socklen \<Rightarrow> connection \<Rightarrow> connection" where
  "set_remote_addr s n c =
     (let c = c\<lparr>path := set_new_remote s n (path c)\<rparr>
      in set_route \<lparr>route_local = path_local (path c), route_nat64 = None\<rparr> c)"

definition set_local_addr :: "Address \<Rightarrow> connection \<Rightarrow> connection" where
  "set_local_addr new_local c = set_route \<lparr>route_local = new_local, route_nat64 = nat64_remote c\<rparr> c"

definition opt_address_eq :: "net_env \<Rightarrow> Address option \<Rightarrow> Address option \<Rightarrow> bool" where
  "opt_address_eq env a b =
     (case (a, b) of (None, None) \<Rightarrow> True | (Some x, Some y) \<Rightarrow> address_eq env x y | _ \<Rightarrow> False)"

section \<open>Following the host's network\<close>

datatype local_check = Unchanged | Migrated | Pending | Rerouted

text \<open>The first argument but one is ngtcp2's answer to a migration to the given path.\<close>

definition migrate :: "ng_codes \<Rightarrow> (Path \<Rightarrow> int) \<Rightarrow> route \<Rightarrow> connection \<Rightarrow> local_check \<times> connection" where
  "migrate ng mig to c =
     (if draining c \<or> closing c \<or> dead c then (Unchanged, c\<lparr>pending_route := None\<rparr>)
      else let new_path = path_ctor (route_local to) (path_remote (path c));
               rv = mig new_path;
               c = ng_emit (NgMigrate new_path) c
           in if rv = NGTCP2_ERR_CONN_ID_BLOCKED ng then (Pending, c\<lparr>pending_route := Some to\<rparr>)
              else let c = c\<lparr>pending_route := None\<rparr>
                   in if rv \<noteq> 0 then (Unchanged, c)
                      else (Migrated, (set_route to c)\<lparr>unconfirmed_local := None\<rparr>))"

text \<open>\<open>rt\<close> is the endpoint's lookup of a route; \<open>None\<close> as the result is the failed assertion.\<close>

definition check_local_address ::
  "net_env \<Rightarrow> ng_codes \<Rightarrow> (Address \<Rightarrow> route option) \<Rightarrow> (Path \<Rightarrow> int) \<Rightarrow> connection \<Rightarrow> (local_check \<times> connection) option" where
  "check_local_address env ng rt mig c =
     (if \<not> is_outbound c then None
      else if draining c \<or> closing c \<or> dead c then Some (Unchanged, c)
      else case rt (path_remote (path c)) of
             None \<Rightarrow> Some (Unchanged, c)
           | Some to \<Rightarrow>
               if \<not> address_eq env (route_local to) (path_local (path c)) \<and> handshake_confirmed c
               then Some (migrate ng mig to c)
               else let c = c\<lparr>pending_route := None\<rparr>
                    in if opt_address_eq env (route_nat64 to) (nat64_remote c) then Some (Unchanged, c)
                       else Some (Rerouted,
                                  set_route \<lparr>route_local = path_local (path c), route_nat64 = route_nat64 to\<rparr> c))"

definition local_address_mismatch ::
  "net_env \<Rightarrow> ng_codes \<Rightarrow> (Address \<Rightarrow> route option) \<Rightarrow> (Path \<Rightarrow> int) \<Rightarrow> Address \<Rightarrow> connection \<Rightarrow> connection option" where
  "local_address_mismatch env ng rt mig arrived_on c =
     (if \<not> handshake_confirmed c \<or> opt_address_eq env (Some arrived_on) (unconfirmed_local c) \<or>
         (case pending_route c of Some r \<Rightarrow> address_eq env arrived_on (route_local r) | None \<Rightarrow> False)
      then Some c
      else case check_local_address env ng rt mig c of
             None \<Rightarrow> None
           | Some (k, c) \<Rightarrow> Some (if k = Unchanged then c\<lparr>unconfirmed_local := Some arrived_on\<rparr> else c))"

text \<open>A packet of the given size was refused; \<open>pmtu\<close> is the size ngtcp2 has confirmed for the path.\<close>

definition packet_too_big ::
  "net_env \<Rightarrow> ng_codes \<Rightarrow> (Address \<Rightarrow> route option) \<Rightarrow> (Path \<Rightarrow> int) \<Rightarrow> nat \<Rightarrow> nat \<Rightarrow> connection \<Rightarrow> connection option" where
  "packet_too_big env ng rt mig pmtu sz c =
     (if sz > pmtu then Some c
      else let close = ask (AskClose (io_error_u64 CONN_MTU_EXCEEDED) None)
           in if is_outbound c
              then (case check_local_address env ng rt mig c of
                      None \<Rightarrow> None
                    | Some (k, c) \<Rightarrow> Some (if k \<noteq> Unchanged then c else close c))
              else Some (close c))"

definition send_unreachable ::
  "net_env \<Rightarrow> ng_codes \<Rightarrow> (Address \<Rightarrow> route option) \<Rightarrow> (Path \<Rightarrow> int) \<Rightarrow> connection \<Rightarrow> connection option" where
  "send_unreachable env ng rt mig c =
     (if is_outbound c then map_option snd (check_local_address env ng rt mig c) else Some c)"

section \<open>Events\<close>

definition halt_events_conn :: "connection \<Rightarrow> connection" where
  "halt_events_conn c = c\<lparr>io_events := False, flush_due := False\<rparr>"

definition packet_io_ready :: "connection \<Rightarrow> connection" where
  "packet_io_ready c = (if io_events c then c\<lparr>flush_due := True\<rparr> else c)"

text \<open>
  The retransmit timer fires: \<open>rv\<close> is the answer of \<open>ngtcp2_conn_handle_expiry\<close>. The result says whether the
  connection goes on to send its packets.
\<close>

definition retransmit_timer :: "int \<Rightarrow> connection \<Rightarrow> bool \<times> connection" where
  "retransmit_timer rv c =
     (if dead c then (False, c)
      else let c = ng_emit NgHandleExpiry c
           in if rv \<noteq> 0 then (False, ask (AskClose (io_error_int rv) None) (c\<lparr>dead := True\<rparr>))
              else (True, c))"

text \<open>
  The time to wait for the next expiry, from the time now, as seconds and microseconds rounded up; \<open>None\<close> when there is
  nothing to wait for. Times are in nanoseconds.
\<close>

definition schedule_packet_retransmit :: "nat \<Rightarrow> int \<Rightarrow> (int \<times> int) option" where
  "schedule_packet_retransmit exp_ns ts =
     (if exp_ns = 2 ^ 64 - 1 then None
      else let delta = int exp_ns - ts
           in if delta > 0
              then let delta = delta + 999 in Some (delta div 10 ^ 9, delta mod 10 ^ 9 div 1000)
              else Some (0, 0))"

section \<open>Packets\<close>

text \<open>
  Reading a packet: \<open>rd\<close> is what ngtcp2 does with it, by its callbacks, to the connection and the code it
  returns.
\<close>

definition read_packet ::
  "ng_codes \<Rightarrow> (Path \<Rightarrow> int) \<Rightarrow> (connection \<Rightarrow> int \<times> connection) \<Rightarrow> connection \<Rightarrow> io_result \<times> connection" where
  "read_packet ng mig rd c =
     (let (rv, c) = rd (ng_emit NgReadPkt c);
          c = (if rv \<noteq> 0 \<and> rv \<noteq> NGTCP2_ERR_DRAINING ng then c\<lparr>dead := True\<rparr> else c);
          c = (if rv = 0
               then packet_io_ready (case pending_route c of Some r \<Rightarrow> snd (migrate ng mig r c) | None \<Rightarrow> c)
               else if rv = NGTCP2_ERR_DRAINING ng then ask AskDrain c
               else if rv = NGTCP2_ERR_PROTO ng
               then ask (AskClose (io_error_int rv) (Some ''ERR_PROTO'')) c
               else if rv = NGTCP2_ERR_DROP_CONN ng then ask (AskDrop (io_error_int rv)) c
               else if rv = NGTCP2_ERR_CRYPTO ng then ask (AskDrop (io_error_int rv)) c
               else ask (AskClose (io_error_int rv) None) c)
      in (io_result_ngtcp2 rv, c))"

definition handle_conn_packet ::
  "ng_codes \<Rightarrow> bool \<Rightarrow> (Path \<Rightarrow> int) \<Rightarrow> (connection \<Rightarrow> int \<times> connection) \<Rightarrow> connection \<Rightarrow> connection" where
  "handle_conn_packet ng in_closing_period mig rd c =
     (if in_closing_period \<or> draining c \<or> dead c then c else snd (read_packet ng mig rd c))"

section \<open>Handshake\<close>

text \<open>\<open>accepted\<close> is what the TLS session says of early data, \<open>rv\<close> ngtcp2's answer to its rejection.\<close>

definition client_handshake_completed :: "bool \<Rightarrow> bool \<Rightarrow> int \<Rightarrow> connection \<Rightarrow> int \<times> connection" where
  "client_handshake_completed outbound_0rtt accepted rv c =
     (let c = c\<lparr>handshaked := True\<rparr>
      in if \<not> outbound_0rtt then (0, c)
         else if accepted
         then (0, c\<lparr>chans := (if has_dgrams (chans c) then conn_emit (EarlyDataEnd True) (chans c) else chans c),
                    early_data := False\<rparr>)
         else (if rv \<noteq> 0 then - 1 else 0, (ng_emit NgEarlyDataRejected c)\<lparr>early_data := False\<rparr>))"

definition on_handshake_confirmed :: "connection \<Rightarrow> connection option" where
  "on_handshake_confirmed c =
     (if \<not> is_outbound c then None
      else let c = c\<lparr>handshake_confirmed := True\<rparr> in Some (c\<lparr>chans := check_established (chans c)\<rparr>))"

text \<open>
  Path validation: \<open>remote\<close> is the path's remote address. The token of the server is what ngtcp2 generated, or its
  error, and \<open>rv\<close> its answer when the token is submitted.
\<close>

definition client_path_validation :: "bool \<Rightarrow> bool \<Rightarrow> sockaddr \<times> socklen \<Rightarrow> connection \<Rightarrow> (int \<times> connection) option" where
  "client_path_validation validated preferred_addr remote c =
     (if \<not> is_outbound c then None
      else if preferred_addr then Some (0, set_remote_addr (fst remote) (snd remote) c)
      else if validated then Some (0, c)
      else Some (0, c))"

definition submit_new_token :: "int \<Rightarrow> int + bytes \<Rightarrow> int \<Rightarrow> connection \<Rightarrow> int \<times> connection" where
  "submit_new_token fail token rv c =
     (case token of
        Inl _ \<Rightarrow> (0, c)
      | Inr t \<Rightarrow> (if rv \<noteq> 0 then fail else 0, ng_emit (NgSubmitNewToken t) c))"

definition server_path_validation ::
  "ng_codes \<Rightarrow> bool \<Rightarrow> bool \<Rightarrow> int + bytes \<Rightarrow> int \<Rightarrow> connection \<Rightarrow> (int \<times> connection) option" where
  "server_path_validation ng validated new_token token rv c =
     (if is_outbound c then None
      else if \<not> validated then Some (0, c)
      else if \<not> new_token then Some (0, c)
      else Some (submit_new_token (NGTCP2_ERR_CALLBACK_FAILURE ng) token rv c))"

definition on_path_validation ::
  "ng_codes \<Rightarrow> bool \<Rightarrow> bool \<Rightarrow> bool \<Rightarrow> sockaddr \<times> socklen \<Rightarrow> int + bytes \<Rightarrow> int \<Rightarrow> connection \<Rightarrow>
     (int \<times> connection) option" where
  "on_path_validation ng validated preferred_addr new_token remote token rv c =
     (if is_outbound c then client_path_validation validated preferred_addr remote c
      else server_path_validation ng validated new_token token rv c)"

text \<open>The arguments are the number of streams ngtcp2 has left and the ids it gives.\<close>

definition on_early_data_rejected :: "nat \<Rightarrow> int list \<Rightarrow> connection \<Rightarrow> connection" where
  "on_early_data_rejected remaining ids c =
     (if early_data c then c\<lparr>early_data := False, chans := revert_early_channels remaining ids (chans c)\<rparr> else c)"

section \<open>Identifiers\<close>

text \<open>The containers are \<open>std::unordered_set\<close>s: lists without repetition, whose order does not matter.\<close>

definition store_associated_cid :: "cid \<Rightarrow> connection \<Rightarrow> connection" where
  "store_associated_cid i c = c\<lparr>associated_cids := List.insert i (associated_cids c)\<rparr>"

definition delete_associated_cid :: "cid \<Rightarrow> connection \<Rightarrow> connection" where
  "delete_associated_cid i c = c\<lparr>associated_cids := removeAll i (associated_cids c)\<rparr>"

definition store_associated_reset :: "bytes \<Rightarrow> connection \<Rightarrow> connection" where
  "store_associated_reset h c = c\<lparr>associated_resets := List.insert h (associated_resets c)\<rparr>"

definition delete_associated_reset :: "bytes \<Rightarrow> connection \<Rightarrow> connection" where
  "delete_associated_reset h c = c\<lparr>associated_resets := removeAll h (associated_resets c)\<rparr>"

section \<open>Datagram sizes\<close>

definition DATAGRAM_OVERHEAD_1RTT :: nat where
  "DATAGRAM_OVERHEAD_1RTT = 1 + 20 + 4 + 16 + 1 + 2"

definition DATAGRAM_OVERHEAD_0RTT :: nat where
  "DATAGRAM_OVERHEAD_0RTT = 1 + 4 + 1 + 20 + 1 + 20 + 2 + 4 + 1 + 2"

definition get_max_datagram_piece :: "nat \<Rightarrow> connection \<Rightarrow> nat \<times> connection" where
  "get_max_datagram_piece pmtu c =
     (if \<not> has_dgrams (chans c) then (0, c)
      else let adjustment = (if early_data c then DATAGRAM_OVERHEAD_0RTT else DATAGRAM_OVERHEAD_1RTT) +
                 (if packet_splitting c then 2 else 0);
               piece = sz_sub pmtu adjustment
           in (piece,
               if piece \<noteq> last_max_dgram_piece c
               then c\<lparr>max_dgram_size_changed := True, last_max_dgram_piece := piece\<rparr> else c))"

definition get_max_datagram_size_changed :: "connection \<Rightarrow> nat option \<times> connection" where
  "get_max_datagram_size_changed c =
     (if \<not> max_dgram_size_changed c then (None, c)
      else (Some (last_max_dgram_piece c * (if packet_splitting c then 2 else 1)), c\<lparr>max_dgram_size_changed := False\<rparr>))"

definition conn_open_stream :: "int option \<Rightarrow> object \<Rightarrow> connection \<Rightarrow> connection option" where
  "conn_open_stream opened x c =
     map_option (\<lambda>s. c\<lparr>chans := s\<rparr>) (open_stream (closing c \<or> draining c) opened x (chans c))"

end
