(* ===== verification/Connection_Correct.thy ===== *)
theory Connection_Correct
  imports Connection Conn_Streams_Correct Address_Correct
begin

text \<open>
  Correctness of \<open>Connection\<close>: the invariant of paths and routes under every sequence of packets, timers and network
  events, how a change of the host's network is followed, and what a fatal error does.
\<close>

section \<open>Operations\<close>

text \<open>What ngtcp2 calls back while it reads a packet.\<close>

datatype callback =
    HandshakeCompleted bool bool int
  | HandshakeConfirmed
  | PathValidation bool bool bool "sockaddr \<times> socklen" "int + bytes" int
  | EarlyDataRejected nat "int list"
  | StreamCallback conn_op

fun run_callback :: "ng_codes \<Rightarrow> ng_env \<Rightarrow> callback \<Rightarrow> connection \<Rightarrow> connection option" where
  "run_callback ng env (HandshakeCompleted zero_rtt accepted rv) c =
     Some (snd (client_handshake_completed zero_rtt accepted rv c))"
| "run_callback ng env HandshakeConfirmed c = on_handshake_confirmed c"
| "run_callback ng env (PathValidation ok pref new_token remote token rv) c =
     map_option snd (on_path_validation ng ok pref new_token remote token rv c)"
| "run_callback ng env (EarlyDataRejected remaining ids) c = Some (on_early_data_rejected remaining ids c)"
| "run_callback ng env (StreamCallback x) c = map_option (\<lambda>s. c\<lparr>chans := s\<rparr>) (conn_step env x (chans c))"

text \<open>
  The events of a connection's life. The last arguments of those that look at the host's network are the route found and
  ngtcp2's answer to a migration.
\<close>

datatype life_op =
    PacketRead bool "callback list" int int
  | TimerFires int
  | ArrivedOn Address "route option" int
  | NetworkChanged "route option" int
  | TooBig nat nat "route option" int
  | Unreachable "route option" int

fun life_step :: "net_env \<Rightarrow> ng_codes \<Rightarrow> ng_env \<Rightarrow> life_op \<Rightarrow> connection \<Rightarrow> connection option" where
  "life_step nv ng env (PacketRead in_closing cbs rv mig) c =
     (if in_closing \<or> draining c \<or> dead c then Some c
      else case run_ops (run_callback ng env) cbs (ng_emit NgReadPkt c) of
             None \<Rightarrow> None
           | Some c' \<Rightarrow> Some (handle_conn_packet ng in_closing (\<lambda>_. mig) (\<lambda>_. (rv, c')) c))"
| "life_step nv ng env (TimerFires rv) c = Some (snd (retransmit_timer rv c))"
| "life_step nv ng env (ArrivedOn a r mig) c = local_address_mismatch nv ng (\<lambda>_. r) (\<lambda>_. mig) a c"
| "life_step nv ng env (NetworkChanged r mig) c =
     (if is_outbound c
      then map_option snd (check_local_address nv ng (\<lambda>_. r) (\<lambda>_. mig) (c\<lparr>unconfirmed_local := None\<rparr>)) else Some c)"
| "life_step nv ng env (TooBig pmtu sz r mig) c = packet_too_big nv ng (\<lambda>_. r) (\<lambda>_. mig) pmtu sz c"
| "life_step nv ng env (Unreachable r mig) c = send_unreachable nv ng (\<lambda>_. r) (\<lambda>_. mig) c"

text \<open>
  The callers' obligations: a packet arrives on an address of ours other than the path's only for an outbound
  connection; ngtcp2 confirms the handshake of outbound connections only, and keeps those of \<open>Conn_Streams\<close>.
\<close>

fun callback_ok :: "ng_env \<Rightarrow> callback \<Rightarrow> connection \<Rightarrow> bool" where
  "callback_ok env HandshakeConfirmed c = is_outbound c"
| "callback_ok env (StreamCallback x) c = conn_ok env x (chans c)"
| "callback_ok env (EarlyDataRejected remaining ids) c = conn_ok env (RevertEarly remaining ids) (chans c)"
| "callback_ok env _ c = True"

fun life_ok :: "ng_codes \<Rightarrow> ng_env \<Rightarrow> life_op \<Rightarrow> connection \<Rightarrow> bool" where
  "life_ok ng env (PacketRead in_closing cbs rv mig) c =
     ops_ok (run_callback ng env) (callback_ok env) cbs (ng_emit NgReadPkt c)"
| "life_ok ng env (ArrivedOn a r mig) c = is_outbound c"
| "life_ok ng env _ c = True"

section \<open>Invariant\<close>

definition asked_migration :: "connection \<Rightarrow> bool" where
  "asked_migration c \<longleftrightarrow> list_ex is_NgMigrate (ng_calls c)"

definition same_local :: "Path \<Rightarrow> Path \<Rightarrow> bool" where
  "same_local q p \<longleftrightarrow> path_local p = path_local q \<and> ngtcp2_lengths_match p"

definition route_inv :: "connection \<Rightarrow> bool" where
  "route_inv c \<longleftrightarrow>
     ngtcp2_lengths_match (path c) \<and> pred_option (same_local (path c)) (nat64_path c) \<and>
     (is_outbound c \<or> nat64_path c = None \<and> pending_route c = None \<and> unconfirmed_local c = None) \<and>
     (is_outbound c \<and> handshake_confirmed c \<or> pending_route c = None \<and> \<not> asked_migration c)"

definition connection_inv :: "connection \<Rightarrow> bool" where
  "connection_inv c \<longleftrightarrow> route_inv c \<and> conn_inv (chans c)"

lemmas conn_field_defs = ask_def ng_emit_def packet_io_ready_def halt_events_conn_def

lemma path_ctor_match [simp]: "ngtcp2_lengths_match (path_ctor l r)"
  by (simp add: ngtcp2_lengths_match_def path_ctor_def)

lemma path_ctor_fields [simp]: "path_local (path_ctor l r) = l" "path_remote (path_ctor l r) = r"
  by (simp_all add: path_ctor_def)

lemma set_route_fields [simp]:
  "path_local (path (set_route r c)) = route_local r" "path_remote (path (set_route r c)) = path_remote (path c)"
  "nat64_remote (set_route r c) = route_nat64 r" "is_outbound (set_route r c) = is_outbound c"
  "handshake_confirmed (set_route r c) = handshake_confirmed c" "pending_route (set_route r c) = pending_route c"
  "unconfirmed_local (set_route r c) = unconfirmed_local c" "ng_calls (set_route r c) = ng_calls c"
  "chans (set_route r c) = chans c" "dead (set_route r c) = dead c" "closing (set_route r c) = closing c"
  "draining (set_route r c) = draining c" "conn_reqs (set_route r c) = conn_reqs c" "early_data (set_route r c) = early_data c"
  "io_events (set_route r c) = io_events c" "flush_due (set_route r c) = flush_due c"
  by (cases "route_nat64 r"; simp add: set_route_def nat64_remote_def)+

lemma route_inv_set_route:
  "route_inv c \<Longrightarrow> (route_nat64 r \<noteq> None \<Longrightarrow> is_outbound c) \<Longrightarrow> route_inv (set_route r c)"
  by (cases "route_nat64 r") (auto simp: route_inv_def set_route_def asked_migration_def same_local_def)

lemma route_inv_request [simp]: "route_inv (ask r c) = route_inv c"
  by (simp add: route_inv_def ask_def asked_migration_def)

lemma route_inv_io_ready [simp]: "route_inv (packet_io_ready c) = route_inv c"
  by (simp add: route_inv_def packet_io_ready_def asked_migration_def)

lemma route_inv_emit [simp]: "\<not> is_NgMigrate x \<Longrightarrow> route_inv (ng_emit x c) = route_inv c"
  by (simp add: route_inv_def ng_emit_def asked_migration_def)

lemma route_inv_update [simp]:
  "route_inv (c\<lparr>dead := b\<rparr>) = route_inv c" "route_inv (c\<lparr>handshaked := b\<rparr>) = route_inv c"
  "route_inv (c\<lparr>early_data := b\<rparr>) = route_inv c" "route_inv (c\<lparr>chans := s\<rparr>) = route_inv c"
  by (simp_all add: route_inv_def asked_migration_def)

lemma route_inv_pending:
  "route_inv c \<Longrightarrow> r = None \<or> is_outbound c \<and> handshake_confirmed c \<Longrightarrow> route_inv (c\<lparr>pending_route := r\<rparr>)"
  unfolding route_inv_def asked_migration_def by auto

lemma route_inv_unconfirmed:
  "route_inv c \<Longrightarrow> a = None \<or> is_outbound c \<Longrightarrow> route_inv (c\<lparr>unconfirmed_local := a\<rparr>)"
  unfolding route_inv_def asked_migration_def by auto

lemma route_inv_asked:
  "route_inv c \<Longrightarrow> is_outbound c \<Longrightarrow> handshake_confirmed c \<Longrightarrow> route_inv (ng_emit (NgMigrate p) c)"
  unfolding route_inv_def ng_emit_def by simp

lemma ng_emit_fields [simp]:
  "is_outbound (ng_emit x c) = is_outbound c" "handshake_confirmed (ng_emit x c) = handshake_confirmed c"
  "path (ng_emit x c) = path c" "nat64_path (ng_emit x c) = nat64_path c" "chans (ng_emit x c) = chans c"
  "dead (ng_emit x c) = dead c" "closing (ng_emit x c) = closing c" "draining (ng_emit x c) = draining c"
  "ng_calls (ng_emit x c) = ng_calls c @ [x]" "conn_reqs (ng_emit x c) = conn_reqs c"
  "pending_route (ng_emit x c) = pending_route c" "unconfirmed_local (ng_emit x c) = unconfirmed_local c"
  by (simp_all add: ng_emit_def)

lemma migrate_inv:
  assumes "route_inv c" "is_outbound c" "handshake_confirmed c"
  shows "route_inv (snd (migrate ng mig r c))"
proof -
  have pend: "route_inv (c'\<lparr>pending_route := q\<rparr>)" if "route_inv c'" "is_outbound c'" "handshake_confirmed c'" for c' q
    using that by (simp add: route_inv_pending)
  note asked = route_inv_asked [OF assms]
  have moved: "route_inv ((set_route r ((ng_emit (NgMigrate p) c)\<lparr>pending_route := None\<rparr>))\<lparr>unconfirmed_local := None\<rparr>)" for p
    by (rule route_inv_unconfirmed [OF route_inv_set_route [OF pend [OF asked]]]) (use assms in simp_all)
  show ?thesis
    unfolding migrate_def Let_def
    by (simp add: pend [OF asked] pend assms moved)
qed

lemma check_local_cases:
  assumes "check_local_address nv ng rt mig c = Some (k, c')"
  obtains (same) "is_outbound c" "c' = c" "k = Unchanged"
  | (moves) to where "is_outbound c" "handshake_confirmed c" "migrate ng mig to c = (k, c')"
  | (stays) "is_outbound c" "c' = c\<lparr>pending_route := None\<rparr>" "k = Unchanged"
  | (reroutes) r where "is_outbound c" "c' = set_route r (c\<lparr>pending_route := None\<rparr>)" "k = Rerouted"
  using assms unfolding check_local_address_def Let_def
  by (auto split: if_splits option.splits)

lemma migrate_keeps [simp]:
  "is_outbound (snd (migrate ng mig r c)) = is_outbound c" "chans (snd (migrate ng mig r c)) = chans c"
  "handshake_confirmed (snd (migrate ng mig r c)) = handshake_confirmed c"
  by (simp_all add: migrate_def Let_def ng_emit_def)

lemma check_local_inv:
  assumes "route_inv c" "check_local_address nv ng rt mig c = Some (k, c')"
  shows "route_inv c'"
proof -
  have keep: "route_inv (c\<lparr>pending_route := None\<rparr>)" using assms(1) by (simp add: route_inv_pending)
  show ?thesis using assms(2)
  proof (cases rule: check_local_cases)
    case (moves to)
    then show ?thesis using migrate_inv [OF assms(1), of ng mig to] by simp
  next
    case (reroutes r)
    then show ?thesis using route_inv_set_route [OF keep, of r] by simp
  qed (use assms(1) keep in simp_all)
qed

lemma check_local_keeps:
  assumes "check_local_address nv ng rt mig c = Some (k, c')"
  shows "is_outbound c' = is_outbound c \<and> chans c' = chans c \<and> handshake_confirmed c' = handshake_confirmed c"
  using assms
proof (cases rule: check_local_cases)
  case (moves to)
  then show ?thesis using migrate_keeps [of ng mig to c] by simp
qed simp_all

lemma check_local_total: "is_outbound c \<Longrightarrow> \<exists>k c'. check_local_address nv ng rt mig c = Some (k, c')"
  by (auto simp: check_local_address_def Let_def split: option.split)


section \<open>The invariant holds\<close>

lemma mismatch_inv:
  assumes "route_inv c" "is_outbound c"
  shows "\<exists>c'. local_address_mismatch nv ng rt mig a c = Some c' \<and> route_inv c' \<and> chans c' = chans c"
proof -
  obtain k c' where c': "check_local_address nv ng rt mig c = Some (k, c')"
    using check_local_total [OF assms(2)] by blast
  note inv = check_local_inv [OF assms(1) c'] and keeps = check_local_keeps [OF c']
  have "route_inv (c'\<lparr>unconfirmed_local := Some a\<rparr>)"
    using inv keeps assms(2) by (simp add: route_inv_unconfirmed)
  then show ?thesis using assms inv keeps by (simp add: local_address_mismatch_def c')
qed

lemma check_request_inv:
  assumes "route_inv c" "is_outbound c"
  obtains k c' where "check_local_address nv ng rt mig c = Some (k, c')" "route_inv c'" "chans c' = chans c"
proof -
  obtain k c' where "check_local_address nv ng rt mig c = Some (k, c')" using check_local_total [OF assms(2)] by blast
  then show thesis using that check_local_inv [OF assms(1)] check_local_keeps by blast
qed

lemma request_fields [simp]:
  "chans (ask r c) = chans c" "ng_calls (ask r c) = ng_calls c" "dead (ask r c) = dead c"
  "conn_reqs (ask r c) = conn_reqs c @ [r]" "is_outbound (ask r c) = is_outbound c"
  "draining (ask r c) = draining c" "closing (ask r c) = closing c" "path (ask r c) = path c"
  by (simp_all add: ask_def)

lemma io_ready_fields [simp]:
  "chans (packet_io_ready c) = chans c" "ng_calls (packet_io_ready c) = ng_calls c" "dead (packet_io_ready c) = dead c"
  "conn_reqs (packet_io_ready c) = conn_reqs c" "path (packet_io_ready c) = path c"
  "nat64_path (packet_io_ready c) = nat64_path c" "pending_route (packet_io_ready c) = pending_route c"
  "draining (packet_io_ready c) = draining c" "closing (packet_io_ready c) = closing c"
  "is_outbound (packet_io_ready c) = is_outbound c" "handshake_confirmed (packet_io_ready c) = handshake_confirmed c"
  by (simp_all add: packet_io_ready_def)

lemma too_big_inv:
  assumes "route_inv c"
  shows "\<exists>c'. packet_too_big nv ng rt mig pmtu sz c = Some c' \<and> route_inv c' \<and> chans c' = chans c"
proof (cases "is_outbound c")
  case True
  obtain k c' where "check_local_address nv ng rt mig c = Some (k, c')" "route_inv c'" "chans c' = chans c"
    using check_request_inv [OF assms True] by blast
  then show ?thesis using assms True by (simp add: packet_too_big_def Let_def)
qed (use assms in \<open>simp add: packet_too_big_def Let_def\<close>)

lemma unreachable_inv:
  assumes "route_inv c"
  shows "\<exists>c'. send_unreachable nv ng rt mig c = Some c' \<and> route_inv c' \<and> chans c' = chans c"
proof (cases "is_outbound c")
  case True
  obtain k c' where "check_local_address nv ng rt mig c = Some (k, c')" "route_inv c'" "chans c' = chans c"
    using check_request_inv [OF assms True] by blast
  then show ?thesis using True by (simp add: send_unreachable_def)
qed (use assms in \<open>simp add: send_unreachable_def\<close>)

lemma retransmit_inv: "route_inv (snd (retransmit_timer rv c)) = route_inv c"
  "chans (snd (retransmit_timer rv c)) = chans c"
  by (simp_all add: retransmit_timer_def Let_def)

lemma set_remote_inv:
  assumes "route_inv c"
  shows "route_inv (set_remote_addr s n c)"
  using assms
  by (auto simp: set_remote_addr_def set_new_remote_def set_route_def route_inv_def asked_migration_def Let_def)

lemma set_remote_fields [simp]:
  "chans (set_remote_addr s n c) = chans c" "is_outbound (set_remote_addr s n c) = is_outbound c"
  "ng_calls (set_remote_addr s n c) = ng_calls c"
  by (simp_all add: set_remote_addr_def Let_def)

lemma path_validation_inv:
  assumes "route_inv c"
  shows "\<exists>rv' c'. on_path_validation ng ok pref new_token remote token rv c = Some (rv', c') \<and> route_inv c' \<and> chans c' = chans c"
  using assms set_remote_inv [OF assms, of "fst remote" "snd remote"]
  by (simp add: on_path_validation_def client_path_validation_def server_path_validation_def submit_new_token_def split: sum.split)

lemma handshake_completed_inv:
  "route_inv (snd (client_handshake_completed z a rv c)) = route_inv c"
  "conn_inv (chans (snd (client_handshake_completed z a rv c))) = conn_inv (chans c)"
  by (simp_all add: client_handshake_completed_def Let_def)

lemma route_inv_confirmed: "route_inv c \<Longrightarrow> route_inv (c\<lparr>handshake_confirmed := True\<rparr>)"
  unfolding route_inv_def asked_migration_def by auto

lemma callback_inv:
  assumes "connection_inv c" "callback_ok env x c"
  shows "\<exists>c'. run_callback ng env x c = Some c' \<and> connection_inv c'"
proof (cases x)
  case HandshakeCompleted
  then show ?thesis using assms(1) by (simp add: connection_inv_def handshake_completed_inv)
next
  case HandshakeConfirmed
  then show ?thesis using assms
    by (simp add: connection_inv_def on_handshake_confirmed_def Let_def route_inv_confirmed)
next
  case (PathValidation ok pref new_token remote token rv)
  then show ?thesis using assms(1) path_validation_inv [of c ng ok pref new_token remote token rv]
    by (auto simp: connection_inv_def)
next
  case (EarlyDataRejected remaining ids)
  then have "conn_ok env (RevertEarly remaining ids) (chans c)" using assms(2) by simp
  then have "conn_inv (revert_early_channels remaining ids (chans c))"
    using conn_sys.step_inv [of "chans c" env "RevertEarly remaining ids"] assms(1) by (auto simp: connection_inv_def)
  then show ?thesis using EarlyDataRejected assms(1) by (simp add: connection_inv_def on_early_data_rejected_def)
next
  case (StreamCallback y)
  then show ?thesis using assms conn_sys.step_inv [of "chans c" env y] by (auto simp: connection_inv_def)
qed

interpretation callback_sys: op_system "run_callback ng env" "callback_ok env" connection_inv for ng env
  by unfold_locales (rule callback_inv)

lemma read_packet_inv:
  assumes "connection_inv c'"
  shows "connection_inv (snd (read_packet ng mig (\<lambda>_. (rv, c')) c))"
proof -
  have r: "route_inv c'" and s: "conn_inv (chans c')" using assms by (simp_all add: connection_inv_def)
  have "route_inv (snd (migrate ng mig q c'))" if "pending_route c' = Some q" for q
    using r that by (intro migrate_inv) (auto simp: route_inv_def)
  then show ?thesis
    using r s by (simp add: read_packet_def connection_inv_def Let_def split: option.split)
qed

lemma life_inv:
  assumes "connection_inv c" "life_ok ng env x c"
  shows "\<exists>c'. life_step nv ng env x c = Some c' \<and> connection_inv c'"
proof (cases x)
  case (PacketRead in_closing cbs rv mig)
  have "connection_inv (ng_emit NgReadPkt c)" using assms(1) by (simp add: connection_inv_def)
  then obtain c' where "run_ops (run_callback ng env) cbs (ng_emit NgReadPkt c) = Some c'" "connection_inv c'"
    using callback_sys.run_inv [of "ng_emit NgReadPkt c" ng env cbs] assms(2) PacketRead by auto
  then show ?thesis
    using PacketRead assms(1) read_packet_inv [of c' ng "\<lambda>_. mig" rv c] by (simp add: handle_conn_packet_def)
next
  case (TimerFires rv)
  then show ?thesis using assms(1) by (simp add: connection_inv_def retransmit_inv)
next
  case (ArrivedOn a r mig)
  then show ?thesis
    using assms mismatch_inv [of c nv ng "\<lambda>_. r" "\<lambda>_. mig" a] by (auto simp: connection_inv_def)
next
  case (NetworkChanged r mig)
  let ?c = "c\<lparr>unconfirmed_local := None\<rparr>"
  have inv: "route_inv ?c" using assms(1) by (simp add: connection_inv_def route_inv_unconfirmed)
  show ?thesis
  proof (cases "is_outbound c")
    case True
    then obtain k c' where "check_local_address nv ng (\<lambda>_. r) (\<lambda>_. mig) ?c = Some (k, c')" "route_inv c'" "chans c' = chans ?c"
      using check_request_inv [OF inv, of nv ng "\<lambda>_. r" "\<lambda>_. mig"] by auto
    then show ?thesis using NetworkChanged True assms(1) by (simp add: connection_inv_def)
  qed (use NetworkChanged assms(1) in simp)
next
  case (TooBig pmtu sz r mig)
  then show ?thesis
    using assms(1) too_big_inv [of c nv ng "\<lambda>_. r" "\<lambda>_. mig" pmtu sz] by (auto simp: connection_inv_def)
next
  case (Unreachable r mig)
  then show ?thesis
    using assms(1) unreachable_inv [of c nv ng "\<lambda>_. r" "\<lambda>_. mig"] by (auto simp: connection_inv_def)
qed

interpretation life_sys: op_system "life_step nv ng env" "life_ok ng env" connection_inv for nv ng env
  by unfold_locales (rule life_inv)

lemma connection_ctor_inv:
  "nat64 = None \<or> outbound \<Longrightarrow> connection_inv (connection_ctor outbound p nat64 datagrams splitting cb zero_rtt)"
  by (cases nat64)
    (auto simp: connection_inv_def connection_ctor_def conn_ctor_inv route_inv_def asked_migration_def same_local_def
      path_assign_def)

section \<open>Fatal errors\<close>

lemma dead_migrate: "dead c \<Longrightarrow> dead (snd (migrate ng mig r c)) \<and> ng_calls (snd (migrate ng mig r c)) = ng_calls c"
  by (simp add: migrate_def)

lemma dead_check:
  "dead c \<Longrightarrow> check_local_address nv ng rt mig c = (if is_outbound c then Some (Unchanged, c) else None)"
  by (simp add: check_local_address_def)

lemma dead_step:
  assumes "dead c" "life_step nv ng env x c = Some c'"
  shows "dead c' \<and> ng_calls c' = ng_calls c"
  using assms
  by (cases x)
    (auto simp: dead_check local_address_mismatch_def packet_too_big_def send_unreachable_def retransmit_timer_def Let_def
      split: if_splits)

lemma dead_run: "dead c \<Longrightarrow> run_ops (life_step nv ng env) ops c = Some c' \<Longrightarrow> dead c' \<and> ng_calls c' = ng_calls c"
proof (induction ops arbitrary: c)
  case (Cons x ops)
  then obtain c1 where c1: "life_step nv ng env x c = Some c1" "run_ops (life_step nv ng env) ops c1 = Some c'"
    by (auto split: option.splits)
  then show ?case using Cons.IH [of c1] dead_step [OF Cons.prems(1) c1(1)] by simp
qed simp

definition fatal_request :: "ng_codes \<Rightarrow> int \<Rightarrow> conn_request" where
  "fatal_request ng rv =
     (if rv \<in> {NGTCP2_ERR_DROP_CONN ng, NGTCP2_ERR_CRYPTO ng} \<and> rv \<noteq> NGTCP2_ERR_PROTO ng
      then AskDrop (io_error_int rv)
      else AskClose (io_error_int rv) (if rv = NGTCP2_ERR_PROTO ng then Some ''ERR_PROTO'' else None))"

lemma fatal_read:
  assumes "rv \<noteq> 0" "rv \<noteq> NGTCP2_ERR_DRAINING ng"
  shows "snd (read_packet ng mig (\<lambda>_. (rv, c')) c) = ask (fatal_request ng rv) (c'\<lparr>dead := True\<rparr>)"
  using assms by (simp add: read_packet_def Let_def fatal_request_def)

section \<open>Following a network change\<close>

text \<open>The host reaches the peer from another local address than the connection's, and the connection may move.\<close>

definition must_move :: "net_env \<Rightarrow> route \<Rightarrow> connection \<Rightarrow> bool" where
  "must_move nv to c \<longleftrightarrow>
     is_outbound c \<and> handshake_confirmed c \<and> \<not> draining c \<and> \<not> closing c \<and> \<not> dead c \<and>
     \<not> address_eq nv (route_local to) (path_local (path c))"

lemma must_move_check:
  "must_move nv to c \<Longrightarrow> check_local_address nv ng (\<lambda>_. Some to) mig c = Some (migrate ng mig to c)"
  by (simp add: must_move_def check_local_address_def)

text \<open>The connection waits for a connection ID to move.\<close>

definition waits_to_move :: "net_env \<Rightarrow> route \<Rightarrow> Path \<Rightarrow> connection \<Rightarrow> bool" where
  "waits_to_move nv to p c \<longleftrightarrow> must_move nv to c \<and> pending_route c = Some to \<and> path c = p"

definition has_moved :: "route \<Rightarrow> Path \<Rightarrow> connection \<Rightarrow> bool" where
  "has_moved to p c \<longleftrightarrow>
     path c = path_ctor (route_local to) (path_remote p) \<and> nat64_remote c = route_nat64 to \<and> pending_route c = None"

lemma nat64_remote_updates [simp]:
  "nat64_remote (c\<lparr>unconfirmed_local := a\<rparr>) = nat64_remote c" "nat64_remote (packet_io_ready c) = nat64_remote c"
  by (simp_all add: nat64_remote_def)

lemma set_route_path: "path (set_route r c) = path_ctor (route_local r) (path_remote (path c))"
  by (simp add: set_route_def)

lemma migrate_blocked:
  assumes "must_move nv to c"
  shows "migrate ng (\<lambda>_. NGTCP2_ERR_CONN_ID_BLOCKED ng) to c = (k, c') \<Longrightarrow> k = Pending \<and> waits_to_move nv to (path c) c'"
  using assms by (auto simp: migrate_def must_move_def waits_to_move_def Let_def)

lemma migrate_accepted:
  assumes "must_move nv to c" "NGTCP2_ERR_CONN_ID_BLOCKED ng \<noteq> 0"
  shows "migrate ng (\<lambda>_. 0) to c = (k, c') \<Longrightarrow> k = Migrated \<and> has_moved to (path c) c'"
  using assms by (auto simp: migrate_def must_move_def has_moved_def Let_def set_route_path)

lemma must_move_updates [simp]:
  "must_move nv to (ng_emit x c) = must_move nv to c" "must_move nv to (c\<lparr>chans := s\<rparr>) = must_move nv to c"
  "must_move nv to (packet_io_ready c) = must_move nv to c"
  by (simp_all add: must_move_def)

definition only_streams :: "callback list \<Rightarrow> bool" where
  "only_streams cbs \<longleftrightarrow> list_all (\<lambda>x. case x of StreamCallback _ \<Rightarrow> True | _ \<Rightarrow> False) cbs"

lemma stream_callbacks_keep:
  "only_streams cbs \<Longrightarrow> run_ops (run_callback ng env) cbs c = Some c' \<Longrightarrow> \<exists>s. c' = c\<lparr>chans := s\<rparr>"
proof (induction cbs arbitrary: c)
  case Nil
  then have "c' = c\<lparr>chans := chans c\<rparr>" by simp
  then show ?case by blast
next
  case (Cons x cbs)
  then obtain y s where "x = StreamCallback y" "conn_step env y (chans c) = Some s"
      "run_ops (run_callback ng env) cbs (c\<lparr>chans := s\<rparr>) = Some c'"
    by (cases x) (auto simp: only_streams_def split: option.splits)
  then show ?case using Cons.IH [of "c\<lparr>chans := s\<rparr>"] Cons.prems(1) by (auto simp: only_streams_def)
qed

lemma read_while_waiting:
  assumes "waits_to_move nv to p c" "only_streams cbs"
    "life_step nv ng env (PacketRead False cbs 0 mig) c = Some c'"
  shows "mig = NGTCP2_ERR_CONN_ID_BLOCKED ng \<Longrightarrow> waits_to_move nv to p c'"
    and "NGTCP2_ERR_CONN_ID_BLOCKED ng \<noteq> 0 \<Longrightarrow> mig = 0 \<Longrightarrow> has_moved to p c'"
proof -
  have live: "\<not> draining c" "\<not> dead c" using assms(1) by (simp_all add: waits_to_move_def must_move_def)
  obtain d where d: "run_ops (run_callback ng env) cbs (ng_emit NgReadPkt c) = Some d"
      and c': "c' = handle_conn_packet ng False (\<lambda>_. mig) (\<lambda>_. (0, d)) c"
    using assms(3) live by (auto split: option.splits)
  obtain s where "d = (ng_emit NgReadPkt c)\<lparr>chans := s\<rparr>" using stream_callbacks_keep [OF assms(2) d] by blast
  then have m: "must_move nv to d" and pend: "pending_route d = Some to" and p: "path d = p"
    using assms(1) by (simp_all add: waits_to_move_def)
  have c'': "c' = packet_io_ready (snd (migrate ng (\<lambda>_. mig) to d))"
    using c' live pend by (simp add: handle_conn_packet_def read_packet_def)
  show "waits_to_move nv to p c'" if "mig = NGTCP2_ERR_CONN_ID_BLOCKED ng"
    using migrate_blocked [OF m, of ng] that p c'' by (cases "migrate ng (\<lambda>_. mig) to d") (simp add: waits_to_move_def)
  show "has_moved to p c'" if "NGTCP2_ERR_CONN_ID_BLOCKED ng \<noteq> 0" "mig = 0"
    using migrate_accepted [OF m that(1)] that p c'' by (cases "migrate ng (\<lambda>_. mig) to d") (simp add: has_moved_def)
qed

text \<open>Packets read while ngtcp2 has no spare connection ID.\<close>

definition blocked_read :: "ng_codes \<Rightarrow> life_op \<Rightarrow> bool" where
  "blocked_read ng x \<longleftrightarrow>
     (\<exists>cbs. x = PacketRead False cbs 0 (NGTCP2_ERR_CONN_ID_BLOCKED ng) \<and> only_streams cbs)"

lemma blocked_reads_wait:
  "waits_to_move nv to p c \<Longrightarrow> list_all (blocked_read ng) ops \<Longrightarrow> run_ops (life_step nv ng env) ops c = Some c' \<Longrightarrow>
    waits_to_move nv to p c'"
proof (induction ops arbitrary: c)
  case (Cons x ops)
  then obtain cbs c1 where x: "x = PacketRead False cbs 0 (NGTCP2_ERR_CONN_ID_BLOCKED ng)" "only_streams cbs"
      and c1: "life_step nv ng env x c = Some c1" "run_ops (life_step nv ng env) ops c1 = Some c'"
    unfolding blocked_read_def by (auto simp del: life_step.simps split: option.splits)
  have "waits_to_move nv to p c1"
    using read_while_waiting(1) [OF Cons.prems(1) x(2) c1(1) [unfolded x(1)]] by simp
  then show ?case using Cons.IH [of c1] Cons.prems(2) c1(2) by simp
qed simp

section \<open>Properties\<close>

text \<open>
  C9: whatever packets, callbacks, timers and network events a connection meets, none of its functions fails an
  assertion; the address lengths ngtcp2 has for its path are those of the path; the NAT64 path it sends to has the
  path's local address; and only an outbound connection whose handshake is confirmed has ever asked ngtcp2 to migrate or
  waits to.
\<close>

theorem connection_paths_sound:
  assumes "nat64 = None \<or> outbound"
    and "ops_ok (life_step nv ng env) (life_ok ng env) ops (connection_ctor outbound p nat64 datagrams splitting cb zero_rtt)"
  shows "\<exists>c. run_ops (life_step nv ng env) ops (connection_ctor outbound p nat64 datagrams splitting cb zero_rtt) = Some c \<and>
    ngtcp2_lengths_match (path c) \<and> path_local (send_path c) = path_local (path c) \<and>
    ((asked_migration c \<or> pending_route c \<noteq> None) \<longrightarrow> is_outbound c \<and> handshake_confirmed c) \<and>
    (nat64_path c \<noteq> None \<longrightarrow> is_outbound c)"
proof -
  obtain c where c: "run_ops (life_step nv ng env) ops (connection_ctor outbound p nat64 datagrams splitting cb zero_rtt) = Some c"
      and inv: "connection_inv c"
    using life_sys.run_inv [OF connection_ctor_inv [OF assms(1)] assms(2)] by blast
  have r: "route_inv c" using inv by (simp add: connection_inv_def)
  have "path_local (send_path c) = path_local (path c)"
    using r by (cases "nat64_path c") (auto simp: send_path_def route_inv_def same_local_def)
  moreover have "ngtcp2_lengths_match (path c)" using r by (simp add: route_inv_def)
  moreover have "(asked_migration c \<or> pending_route c \<noteq> None) \<longrightarrow> is_outbound c \<and> handshake_confirmed c"
    using r unfolding route_inv_def by metis
  moreover have "nat64_path c \<noteq> None \<longrightarrow> is_outbound c" using r unfolding route_inv_def by metis
  ultimately show ?thesis using c by blast
qed



section \<open>An example\<close>

definition ng_example :: ng_codes where
  "ng_example =
     \<lparr>NGTCP2_ERR_CONN_ID_BLOCKED = - 237, NGTCP2_ERR_DRAINING = - 224, NGTCP2_ERR_PROTO = - 205,
      NGTCP2_ERR_DROP_CONN = - 239, NGTCP2_ERR_CRYPTO = - 241, NGTCP2_ERR_IDLE_CLOSE = - 238,
      NGTCP2_ERR_CALLBACK_FAILURE = - 502\<rparr>"

definition host_addr :: "byte \<Rightarrow> Address" where
  "host_addr b = \<lparr>sock_addr = SockIn 4096 [192, 0, 2, b], sock_len = LenIn, dual_stack = False\<rparr>"

definition conn_example :: connection where
  "conn_example =
     (connection_ctor True (path_ctor (host_addr 1) (host_addr 9)) None False False False False)\<lparr>handshake_confirmed := True\<rparr>"

definition new_route :: route where
  "new_route = \<lparr>route_local = host_addr 2, route_nat64 = None\<rparr>"

lemma example_fields:
  "is_outbound conn_example" "\<not> draining conn_example" "\<not> dead conn_example" "\<not> closing conn_example"
  by (simp_all add: conn_example_def connection_ctor_def)

lemma address_eq_host: "address_eq env_example (host_addr a) (host_addr b) \<longleftrightarrow> a = b"
  by (auto simp: address_eq_def address_cmp_def host_addr_def is_ipv4_def word_cmp_def split: if_splits)

theorem connection_paths_sound_witness:
  "\<exists>c. run_ops (life_step env_example ng_example (rfc_env True))
         [PacketRead False [HandshakeCompleted False False 0, HandshakeConfirmed] 0 0, NetworkChanged (Some new_route) 0]
         (connection_ctor True (path_ctor (host_addr 1) (host_addr 9)) None False False False False) = Some c \<and>
       asked_migration c \<and> handshake_confirmed c \<and> path_local (send_path c) = path_local (path c)"
proof -
  let ?c = "connection_ctor True (path_ctor (host_addr 1) (host_addr 9)) None False False False False"
  let ?ops = "[PacketRead False [HandshakeCompleted False False 0, HandshakeConfirmed] 0 0, NetworkChanged (Some new_route) 0]"
  have n: "address_eq env_example (host_addr 2) (host_addr 1) = False" by (simp add: address_eq_host)
  have e: "run_ops (life_step env_example ng_example (rfc_env True)) ?ops ?c \<noteq> None \<and>
      asked_migration (the (run_ops (life_step env_example ng_example (rfc_env True)) ?ops ?c))"
    by (simp add: connection_ctor_def new_route_def ng_example_def client_handshake_completed_def on_handshake_confirmed_def
        handle_conn_packet_def read_packet_def check_local_address_def migrate_def n path_assign_def asked_migration_def
        packet_io_ready_def ng_emit_def Let_def set_route_def)
  have ok: "ops_ok (life_step env_example ng_example (rfc_env True)) (life_ok ng_example (rfc_env True)) ?ops ?c"
    by (simp add: connection_ctor_def ng_emit_def client_handshake_completed_def split: option.split)
  show ?thesis
    using connection_paths_sound [OF _ ok] e by auto
qed



section \<open>Edge cases\<close>

text \<open>The server's preferred address becomes the remote even when its validation failed.\<close>

lemma failed_validation_moves_remote:
  "is_outbound c \<Longrightarrow>
    on_path_validation ng False True new_token (s, n) token rv c = Some (0, set_remote_addr s n c) \<and>
    path_remote (path (set_remote_addr s n c)) = \<lparr>sock_addr = s, sock_len = n, dual_stack = False\<rparr>"
  by (simp add: on_path_validation_def client_path_validation_def set_remote_addr_def set_new_remote_def Let_def set_route_path)

text \<open>
  A connection that an error has ended, and that is not yet marked as closing, still opens streams, which asks ngtcp2 for
  an id.
\<close>

lemma dead_connection_opens:
  assumes "dead c" "\<not> closing c" "\<not> draining c" "\<not> ready s"
  shows "conn_open_stream (Some i) (ob, s) c = Some c' \<Longrightarrow> i \<in> fst ` set (streams (chans c'))"
  using assms by (auto simp: conn_open_stream_def open_stream_def Let_def keys_map_put)

text \<open>
  The largest piece of a datagram fits a packet of the path's size with its header and the tag of 16 bytes after the
  handshake; in early data, whose packets carry the tag too, it does not.
\<close>

lemma datagram_piece_fits:
  assumes "has_dgrams (chans c)" "46 \<le> pmtu" "\<not> early_data c"
  shows "fst (get_max_datagram_piece pmtu c) + (if packet_splitting c then 2 else 0) + (1 + 20 + 4 + 16 + 1 + 2) = pmtu"
  using assms by (simp add: get_max_datagram_piece_def Let_def DATAGRAM_OVERHEAD_1RTT_def sz_sub_exact)

lemma early_datagram_piece_too_large:
  assumes "has_dgrams (chans c)" "58 \<le> pmtu" "early_data c"
  shows "fst (get_max_datagram_piece pmtu c) + (if packet_splitting c then 2 else 0) +
    (1 + 4 + 1 + 20 + 1 + 20 + 2 + 4 + 16 + 1 + 2) = pmtu + 16"
  using assms by (simp add: get_max_datagram_piece_def Let_def DATAGRAM_OVERHEAD_0RTT_def sz_sub_exact)

text \<open>The retransmission timer never fires before the time ngtcp2 gave, and at most a microsecond after it.\<close>

lemma retransmit_not_early:
  assumes "schedule_packet_retransmit exp_ns ts = Some (s, us)"
  shows "int exp_ns \<le> ts + s * 10 ^ 9 + us * 1000 \<and> 0 \<le> s \<and> 0 \<le> us \<and> us < 10 ^ 6 \<and>
    (ts < int exp_ns \<longrightarrow> ts + s * 10 ^ 9 + us * 1000 < int exp_ns + 1000)"
proof (cases "int exp_ns - ts > 0")
  case True
  define d where "d = int exp_ns - ts + 999"
  have su: "s = d div 10 ^ 9" "us = d mod 10 ^ 9 div 1000"
    using assms True by (simp_all add: schedule_packet_retransmit_def Let_def d_def split: if_splits)
  define e where "e = d mod 10 ^ 9 mod 1000"
  have "d = s * 10 ^ 9 + us * 1000 + e"
    unfolding e_def using su by (metis div_mult_mod_eq add.assoc)
  moreover have "0 \<le> e" "e < 1000" by (simp_all add: e_def)
  moreover have "0 \<le> d" using True by (simp add: d_def)
  then have "0 \<le> s" using su by (simp add: pos_imp_zdiv_nonneg_iff)
  moreover have "0 \<le> us" "us < 10 ^ 6" unfolding su by simp_all
  ultimately show ?thesis unfolding d_def by auto
next
  case False
  then show ?thesis using assms by (auto simp: schedule_packet_retransmit_def Let_def split: if_splits)
qed

end
