(* ===== verification/Send_Batch.thy ===== *)
theory Send_Batch
  imports Quic_Prelude Io_Result Options
begin

text \<open>
  Sending packets (\<open>endpoint.cpp\<close>: \<open>send_packets\<close>, \<open>send_or_queue_packet\<close> and the stalled batch; \<open>internal.hpp\<close>:
  \<open>send_batch\<close>; \<open>Connection::send\<close> of \<open>connection.cpp\<close>). The packets of a batch lie one after another in a flat buffer,
  with arrays of their sizes and ECN values; the code moves bytes inside these arrays.

  The socket is a parameter: what \<open>UDPSocket::send\<close> answers to the n-th call with the given packets. Connections are numbers.
  The test hooks of debug builds are left out, as in a release build.
\<close>

section \<open>Packets in a flat buffer\<close>

type_synonym packet = "bytes \<times> nat"

record pktbuf =
  pk_buf :: bytes
  pk_size :: "nat list"
  pk_ecn :: "nat list"
  n_pkts :: nat

text \<open>\<open>std::memmove\<close> and \<open>std::copy\<close> of \<open>n\<close> elements inside one array, towards its front.\<close>

definition memmove :: "nat \<Rightarrow> nat \<Rightarrow> nat \<Rightarrow> 'a list \<Rightarrow> 'a list" where
  "memmove dst src n xs = take dst xs @ take n (drop src xs) @ drop (dst + n) xs"

fun drop_loop :: "nat \<Rightarrow> nat \<Rightarrow> nat \<Rightarrow> nat \<Rightarrow> nat \<Rightarrow> nat \<Rightarrow> pktbuf \<Rightarrow> nat \<times> pktbuf" where
  "drop_loop min_size 0 i kept inp outp p = (kept, p)"
| "drop_loop min_size (Suc m) i kept inp outp p =
     (let sz = pk_size p ! i
      in if sz < min_size
         then drop_loop min_size m (i + 1) (kept + 1) (inp + sz) (outp + sz)
                (p\<lparr>pk_buf := (if outp \<noteq> inp then memmove outp inp sz (pk_buf p) else pk_buf p),
                   pk_size := (pk_size p)[kept := sz],
                   pk_ecn := (pk_ecn p)[kept := pk_ecn p ! i]\<rparr>)
         else drop_loop min_size m (i + 1) kept (inp + sz) outp p)"

definition drop_packets_from :: "nat \<Rightarrow> pktbuf \<Rightarrow> nat \<times> pktbuf" where
  "drop_packets_from min_size p =
     (let (kept, p') = drop_loop min_size (n_pkts p) 0 0 0 0 p
      in (n_pkts p - kept, p'\<lparr>n_pkts := kept\<rparr>))"

section \<open>Sending a batch\<close>

record drop_counts =
  too_big_drops :: nat
  no_buffer_drops :: nat
  unreachable_drops :: nat

definition count_drops :: "nat \<Rightarrow> nat \<Rightarrow> nat" where
  "count_drops n counter = sz_add counter n"

record send_state =
  pkts :: pktbuf
  drops :: drop_counts
  too_big_size :: "nat option"
  wire :: "packet list"
  calls :: nat

text \<open>The packets of the buffer, as the socket sees them.\<close>

fun split_at :: "nat list \<Rightarrow> bytes \<Rightarrow> bytes list" where
  "split_at [] b = []"
| "split_at (s # ss) b = take s b # split_at ss (drop s b)"

definition packets_of :: "pktbuf \<Rightarrow> packet list" where
  "packets_of p = zip (split_at (take (n_pkts p) (pk_size p)) (pk_buf p)) (take (n_pkts p) (pk_ecn p))"

text \<open>
  What is left after the first \<open>sent\<close> packets. The unsent ones are shifted to the front when there are some on
  both sides.
\<close>

definition shift_unsent :: "nat \<Rightarrow> pktbuf \<Rightarrow> pktbuf" where
  "shift_unsent sent p =
     (let p = (if sent > 0 \<and> sent < n_pkts p
               then let offset = sum_list (take sent (pk_size p));
                        len = sum_list (drop sent (take (n_pkts p) (pk_size p)))
                    in p\<lparr>pk_buf := memmove 0 offset len (pk_buf p),
                         pk_size := memmove 0 sent (n_pkts p - sent) (pk_size p),
                         pk_ecn := memmove 0 sent (n_pkts p - sent) (pk_ecn p)\<rparr>
               else p)
      in p\<lparr>n_pkts := n_pkts p - sent\<rparr>)"

text \<open>A null pointer for the size refused stays null; otherwise it is the smallest one, 0 being none so far.\<close>

definition note_too_big :: "nat \<Rightarrow> nat option \<Rightarrow> nat option" where
  "note_too_big sz t = map_option (\<lambda>b. if b \<noteq> 0 then min b sz else sz) t"

definition drop_too_big :: "send_state \<Rightarrow> send_state" where
  "drop_too_big s =
     (let sz = pk_size (pkts s) ! 0; (dropped, p) = drop_packets_from sz (pkts s)
      in s\<lparr>pkts := p, too_big_size := note_too_big sz (too_big_size s),
           drops := (drops s)\<lparr>too_big_drops := count_drops dropped (too_big_drops (drops s))\<rparr>\<rparr>)"

definition drop_rest :: "send_state \<Rightarrow> send_state" where
  "drop_rest s = s\<lparr>pkts := (pkts s)\<lparr>n_pkts := 0\<rparr>\<rparr>"

definition after_send :: "nat \<Rightarrow> send_state \<Rightarrow> send_state" where
  "after_send sent s =
     s\<lparr>pkts := shift_unsent sent (pkts s), wire := wire s @ take sent (packets_of (pkts s)), calls := calls s + 1\<rparr>"

lemma drop_loop_kept: "kept \<le> fst (drop_loop min_size m i kept inp outp p) \<and> fst (drop_loop min_size m i kept inp outp p) \<le> kept + m"
  by (induction min_size m i kept inp outp p rule: drop_loop.induct) (force simp: Let_def)+

lemma drop_first_fewer:
  assumes "n_pkts p \<noteq> 0"
  shows "n_pkts (snd (drop_packets_from (pk_size p ! 0) p)) < n_pkts p"
proof -
  obtain m where m: "n_pkts p = Suc m" using assms by (cases "n_pkts p") auto
  show ?thesis using drop_loop_kept [of 0 "pk_size p ! 0" m 1 "pk_size p ! 0" 0 p]
    by (simp add: drop_packets_from_def m case_prod_unfold Let_def)
qed

lemma after_send_count [simp]: "n_pkts (pkts (after_send sent s)) = n_pkts (pkts s) - sent"
  by (simp add: after_send_def shift_unsent_def Let_def)

text \<open>The loop; \<open>None\<close> is a socket that reports more packets sent than it was given.\<close>

function send_loop ::
  "os_codes \<Rightarrow> (nat \<Rightarrow> packet list \<Rightarrow> io_result \<times> nat) \<Rightarrow> bool \<Rightarrow> send_state \<Rightarrow> (io_result \<times> send_state) option" where
  "send_loop os sock retried s =
     (let (ret, sent) = sock (calls s) (packets_of (pkts s))
      in if sent > n_pkts (pkts s) then None
         else let s = after_send sent s
              in if n_pkts (pkts s) = 0 then Some (io_result_ok, s)
                 else if blocked os ret then Some (ret, s)
                 else if too_big os ret
                 then let s = drop_too_big s
                      in if n_pkts (pkts s) = 0 then Some (io_result_ok, s) else send_loop os sock False s
                 else if no_buffers os ret
                 then Some (io_result_ok,
                            drop_rest (s\<lparr>drops := (drops s)\<lparr>no_buffer_drops :=
                              count_drops (n_pkts (pkts s)) (no_buffer_drops (drops s))\<rparr>\<rparr>))
                 else if unreachable os ret
                 then Some (ret,
                            drop_rest (s\<lparr>drops := (drops s)\<lparr>unreachable_drops :=
                              count_drops (n_pkts (pkts s)) (unreachable_drops (drops s))\<rparr>\<rparr>))
                 else if failure ret then Some (ret, drop_rest s)
                 else if retried then Some (io_result_errno (EAGAIN os), s)
                 else send_loop os sock True s)"
  by pat_completeness auto
termination
proof (relation "measure (\<lambda>(os, sock, retried, s). 2 * n_pkts (pkts s) + of_bool (\<not> retried))", goal_cases)
  case (2 os sock retried s x ret sent t u)
  have "n_pkts (pkts t) \<le> n_pkts (pkts s)" using 2 by simp
  moreover have "n_pkts (pkts u) < n_pkts (pkts t)"
    using 2 drop_first_fewer [of "pkts t"] by (simp add: drop_too_big_def case_prod_unfold Let_def)
  ultimately show ?case by simp
qed simp_all

declare send_loop.simps [simp del]

section \<open>The send functions of the endpoint\<close>

text \<open>How the endpoint sends: by the application's router, by a socket, or not at all (the socket is closed).\<close>

datatype transport = ManualRouting "packet list \<Rightarrow> bool" | Socket "nat \<Rightarrow> packet list \<Rightarrow> io_result \<times> nat" | NoSocket

record os_errors = os_codes +
  EIO :: int
  EBADF :: int

text \<open>The router gets the packets in turn until it throws; it sees those it has been given before.\<close>

fun route_packets :: "(packet list \<Rightarrow> bool) \<Rightarrow> packet list \<Rightarrow> packet list \<Rightarrow> bool \<times> packet list" where
  "route_packets throws given [] = (True, given)"
| "route_packets throws given (x # xs) =
     (if throws (given @ [x]) then (False, given @ [x]) else route_packets throws (given @ [x]) xs)"

definition MAX_BATCH :: nat where
  "MAX_BATCH = 24"

definition send_packets :: "os_errors \<Rightarrow> transport \<Rightarrow> send_state \<Rightarrow> (io_result \<times> send_state) option" where
  "send_packets os tr s =
     (case tr of
        ManualRouting throws \<Rightarrow>
          (case route_packets throws [] (packets_of (pkts s)) of
             (ok, given) \<Rightarrow>
               Some (if ok then (io_result_ok, drop_rest (s\<lparr>wire := wire s @ given\<rparr>))
                     else (io_result_errno (EIO os), s\<lparr>wire := wire s @ given\<rparr>)))
      | NoSocket \<Rightarrow> Some (io_result_errno (EBADF os), s)
      | Socket sock \<Rightarrow>
          if n_pkts (pkts s) < 1 \<or> n_pkts (pkts s) > MAX_BATCH then None
          else send_loop (os_codes.truncate os) sock False s)"

section \<open>The shared batch\<close>

text \<open>
  The batch all connections of the endpoint share. While the socket is blocked it is stalled: it keeps the unsent
  packets of one connection, the owner, and the connections that wanted to send wait.
\<close>

datatype batch_call =
    PacketTooBig nat nat
  | SendUnreachable nat
  | DropConnection nat nat
  | PacketIoReady nat
  | WhenWriteable
  | CancelTxTime

record send_batch =
  batch_send :: send_state
  stalled :: bool
  owner :: "nat option"
  waiters :: "nat list"
  waiting_on_stall :: "nat set"
  batch_out :: "batch_call list"

definition batch_emit :: "batch_call \<Rightarrow> send_batch \<Rightarrow> send_batch" where
  "batch_emit x b = b\<lparr>batch_out := batch_out b @ [x]\<rparr>"

abbreviation n_packets :: "send_batch \<Rightarrow> nat" where
  "n_packets b \<equiv> n_pkts (pkts (batch_send b))"

definition clear_packets :: "send_batch \<Rightarrow> send_batch" where
  "clear_packets b = b\<lparr>batch_send := drop_rest (batch_send b)\<rparr>"

definition stall_send :: "nat \<Rightarrow> send_batch \<Rightarrow> send_batch option" where
  "stall_send c b =
     (if stalled b \<or> n_packets b = 0 then None
      else Some (batch_emit WhenWriteable (b\<lparr>stalled := True, owner := Some c\<rparr>)))"

definition wait_for_send_stall :: "nat \<Rightarrow> send_batch \<Rightarrow> send_batch option" where
  "wait_for_send_stall c b =
     (if \<not> stalled b then None
      else if owner b = Some c \<or> c \<in> waiting_on_stall b then Some b
      else Some (b\<lparr>waiting_on_stall := insert c (waiting_on_stall b), waiters := waiters b @ [c]\<rparr>))"

definition forget_send_stall :: "nat \<Rightarrow> send_batch \<Rightarrow> send_batch" where
  "forget_send_stall c b =
     (let b = (if owner b = Some c then b\<lparr>owner := None\<rparr> else b)
      in if c \<in> waiting_on_stall b
         then b\<lparr>waiters := filter (\<lambda>x. x \<noteq> c) (waiters b), waiting_on_stall := waiting_on_stall b - {c}\<rparr>
         else b)"

text \<open>A send of the batch's packets for a connection, with a fresh variable for the size refused.\<close>

definition batch_send_packets :: "os_errors \<Rightarrow> transport \<Rightarrow> nat \<Rightarrow> send_batch \<Rightarrow> (io_result \<times> send_batch) option" where
  "batch_send_packets os tr c b =
     (case send_packets os tr ((batch_send b)\<lparr>too_big_size := Some 0\<rparr>) of
        None \<Rightarrow> None
      | Some (rv, s) \<Rightarrow>
          let b = b\<lparr>batch_send := s\<rparr>
          in Some (rv, case too_big_size s of
                         Some sz \<Rightarrow> if sz \<noteq> 0 then batch_emit (PacketTooBig c sz) b else b
                       | None \<Rightarrow> b))"

text \<open>\<open>Connection::send\<close>: whether the caller can keep on sending.\<close>

definition conn_send :: "os_errors \<Rightarrow> transport \<Rightarrow> nat \<Rightarrow> send_batch \<Rightarrow> (bool \<times> send_batch) option" where
  "conn_send os tr c b =
     (if n_packets b = 0 \<or> n_packets b > MAX_BATCH then None
      else case batch_send_packets os tr c b of
             None \<Rightarrow> None
           | Some (rv, b) \<Rightarrow>
               if blocked (os_codes.truncate os) rv then map_option (Pair False) (stall_send c b)
               else if unreachable (os_codes.truncate os) rv then Some (False, batch_emit (SendUnreachable c) b)
               else if failure rv
               then Some (False, batch_emit (DropConnection c CONN_SEND_FAIL) (batch_emit CancelTxTime b))
               else Some (True, b))"

text \<open>The socket is writable again; \<open>dead\<close> is the owner's flag.\<close>

definition resume_stalled_send :: "os_errors \<Rightarrow> transport \<Rightarrow> (nat \<Rightarrow> bool) \<Rightarrow> send_batch \<Rightarrow> send_batch option" where
  "resume_stalled_send os tr dead b =
     (if \<not> stalled b then None
      else let own = owner b;
               finish = (\<lambda>b. let b = clear_packets b;
                                ws = waiters b;
                                b = b\<lparr>stalled := False, owner := None, waiters := [],
                                      waiting_on_stall := waiting_on_stall b - set ws,
                                      batch_out := batch_out b @ map PacketIoReady ws\<rparr>
                            in case own of None \<Rightarrow> b | Some c \<Rightarrow> batch_emit (PacketIoReady c) b)
           in case own of
                Some c \<Rightarrow>
                  if dead c then Some (finish b)
                  else (case batch_send_packets os tr c b of
                          None \<Rightarrow> None
                        | Some (rv, b) \<Rightarrow>
                            if blocked (os_codes.truncate os) rv then Some (batch_emit WhenWriteable b)
                            else if unreachable (os_codes.truncate os) rv
                            then Some (finish (batch_emit (SendUnreachable c) b))
                            else if failure rv
                            then Some (finish (batch_emit (DropConnection c CONN_SEND_FAIL) b))
                            else Some (finish b))
              | None \<Rightarrow> Some (finish b))"

section \<open>Single packets\<close>

text \<open>
  \<open>send_or_queue_packet\<close>: the packet is sent from a buffer of its own; if the socket is blocked it waits for it to be
  writable and is sent again. The outcome is what the callback gets.
\<close>

datatype single_outcome = QueuedUntilWriteable | Delivered io_result

definition single_packet :: "bytes \<Rightarrow> nat \<Rightarrow> pktbuf" where
  "single_packet b e = \<lparr>pk_buf = b, pk_size = [length b], pk_ecn = [e], n_pkts = 1\<rparr>"

definition send_or_queue_packet ::
  "os_errors \<Rightarrow> transport \<Rightarrow> bytes \<Rightarrow> nat \<Rightarrow> send_state \<Rightarrow> (single_outcome \<times> send_state) option" where
  "send_or_queue_packet os tr b e s =
     (if (case tr of NoSocket \<Rightarrow> True | _ \<Rightarrow> False) then Some (Delivered (io_result_errno (EBADF os)), s)
      else case send_packets os tr (s\<lparr>pkts := single_packet b e, too_big_size := None\<rparr>) of
             None \<Rightarrow> None
           | Some (res, s') \<Rightarrow>
               let s' = s'\<lparr>pkts := pkts s, too_big_size := too_big_size s\<rparr>
               in if blocked (os_codes.truncate os) res \<and> (case tr of ManualRouting _ \<Rightarrow> False | _ \<Rightarrow> True)
                  then Some (QueuedUntilWriteable, s') else Some (Delivered res, s'))"

end
