(* ===== verification/Endpoint.thy ===== *)
theory Endpoint
  imports Connection_Correct Send_Batch Options "HOL-Library.AList"
begin

text \<open>
  The endpoint (\<open>endpoint.hpp\<close>, \<open>endpoint.cpp\<close>, with the callbacks of \<open>connection.cpp\<close> that change the endpoint's
  tables): its connections by reference id, the connection ids and stateless reset tokens they are known by, the lookup
  cache, and the life of a connection from \<open>connect\<close> or an accepted packet to its deletion.

  The tables are association lists (\<open>HOL-Library.AList\<close>); their order is that of an unordered container and no
  result depends on it. A connection is its reference id, which is never reused. \<open>conns\<close> maps it to a shared pointer:
  \<open>Some c\<close>, or \<open>None\<close> for the null pointer that is there while a connection is under construction. What the code defers
  with \<open>call_soon\<close> is the list \<open>jobs\<close>, and with \<open>call_later\<close> the list \<open>timers\<close>. Random numbers, what ngtcp2 and
  gnutls return and the packets they write are arguments.
\<close>

section \<open>State\<close>

type_synonym rid = nat

datatype ep_job =
    JobClose rid io_error string
  | JobDrop rid io_error
  | JobDrain rid nat
  | JobCloseConns "bool option"

datatype ep_call =
    ConnClosedCallback rid nat
  | EndpointClosedCallback rid nat
  | QueuePacket Path bytes bool "rid option"
  | DeliverPacket rid Path

record endpoint =
  ep_local :: Address
  routes_manually :: bool
  accepting_inbound :: bool
  secret :: bytes
  close_cb :: bool
  next_rid :: nat
  conns :: "(rid \<times> connection option) list"
  conn_lookup :: "(cid \<times> rid) list"
  last_lookup :: "(cid \<times> rid) option"
  reset_token_conns :: "(bytes \<times> rid) list"
  path_validation_tokens :: "(Address \<times> bytes) list"
  batch :: send_batch
  jobs :: "ep_job list"
  timers :: "(nat \<times> rid) list"
  doomed :: "(rid \<times> connection) list"
  ep_out :: "ep_call list"

record ep_env =
  net :: net_env
  codes :: ng_codes
  stream_env :: "bool \<Rightarrow> ng_env"
  strerror :: "int \<Rightarrow> string"
  shake256 :: "bytes \<Rightarrow> bytes"

definition ep_emit :: "ep_call \<Rightarrow> endpoint \<Rightarrow> endpoint" where
  "ep_emit x ep = ep\<lparr>ep_out := ep_out ep @ [x]\<rparr>"

text \<open>\<open>None\<close>: there is no entry, or a null pointer.\<close>

definition conn_at :: "rid \<Rightarrow> endpoint \<Rightarrow> connection option" where
  "conn_at rid ep = (case map_of (conns ep) rid of Some (Some c) \<Rightarrow> Some c | _ \<Rightarrow> None)"

definition set_conn :: "rid \<Rightarrow> connection \<Rightarrow> endpoint \<Rightarrow> endpoint" where
  "set_conn rid c ep = ep\<lparr>conns := AList.update rid (Some c) (conns ep)\<rparr>"

text \<open>An operation of a connection; one through a dangling or null pointer is undefined.\<close>

definition on_conn :: "rid \<Rightarrow> (connection \<Rightarrow> connection) \<Rightarrow> endpoint \<Rightarrow> endpoint option" where
  "on_conn rid f ep = (case conn_at rid ep of None \<Rightarrow> None | Some c \<Rightarrow> Some (set_conn rid (f c) ep))"

definition next_reference_id :: "endpoint \<Rightarrow> rid \<times> endpoint" where
  "next_reference_id ep = (next_rid ep + 1, ep\<lparr>next_rid := next_rid ep + 1\<rparr>)"

definition forget_last_lookup :: "endpoint \<Rightarrow> endpoint" where
  "forget_last_lookup ep = ep\<lparr>last_lookup := None\<rparr>"

definition get_conn :: "rid \<Rightarrow> endpoint \<Rightarrow> connection option" where
  "get_conn rid ep = conn_at rid ep"

definition get_conn_by_cid :: "cid \<Rightarrow> endpoint \<Rightarrow> connection option" where
  "get_conn_by_cid i ep = (case map_of (conn_lookup ep) i of None \<Rightarrow> None | Some rid \<Rightarrow> conn_at rid ep)"

text \<open>\<open>get_all_conns\<close>: with a direction it reads every connection.\<close>

definition get_all_conns :: "bool option \<Rightarrow> endpoint \<Rightarrow> (connection option list) option" where
  "get_all_conns d ep =
     (case d of
        None \<Rightarrow> Some (map snd (conns ep))
      | Some outbound \<Rightarrow>
          if list_all (\<lambda>(_, p). p \<noteq> None) (conns ep)
          then Some (map snd (filter (\<lambda>(_, p). is_outbound (the p) = outbound) (conns ep))) else None)"

section \<open>Connection ids and reset tokens\<close>

definition associate_cid :: "cid \<Rightarrow> bool \<Rightarrow> rid \<Rightarrow> endpoint \<Rightarrow> endpoint option" where
  "associate_cid i weakly rid ep =
     (let inserted = (map_of (conn_lookup ep) i = None);
          ep = (if inserted then ep\<lparr>conn_lookup := AList.update i rid (conn_lookup ep)\<rparr> else ep)
      in if inserted \<or> \<not> weakly then on_conn rid (store_associated_cid i) ep else Some ep)"

definition associate_ngtcp2_cid :: "cid \<Rightarrow> rid \<Rightarrow> endpoint \<Rightarrow> endpoint option" where
  "associate_ngtcp2_cid i rid ep = (if i \<noteq> [] then associate_cid i False rid ep else Some ep)"

definition dissociate_cid :: "cid \<Rightarrow> rid \<Rightarrow> endpoint \<Rightarrow> endpoint option" where
  "dissociate_cid i rid ep =
     on_conn rid (delete_associated_cid i)
       (forget_last_lookup (ep\<lparr>conn_lookup := AList.delete i (conn_lookup ep)\<rparr>))"

definition dissociate_ngtcp2_cid :: "cid \<Rightarrow> rid \<Rightarrow> endpoint \<Rightarrow> endpoint option" where
  "dissociate_ngtcp2_cid i rid ep = (if i \<noteq> [] then dissociate_cid i rid ep else Some ep)"

definition STATELESS_HASH_PREFIX :: bytes where
  "STATELESS_HASH_PREFIX = map (\<lambda>c. of_nat (of_char c)) ''quic stateless reset hash''"

definition hash_reset_token :: "ep_env \<Rightarrow> bytes \<Rightarrow> endpoint \<Rightarrow> bytes" where
  "hash_reset_token env token ep = shake256 env (STATELESS_HASH_PREFIX @ secret ep @ token)"

text \<open>A null token is \<open>None\<close>.\<close>

definition associate_reset :: "ep_env \<Rightarrow> bytes option \<Rightarrow> rid \<Rightarrow> endpoint \<Rightarrow> endpoint option" where
  "associate_reset env token rid ep =
     (case token of
        None \<Rightarrow> Some ep
      | Some t \<Rightarrow>
          let h = hash_reset_token env t ep
          in on_conn rid (store_associated_reset h)
               (ep\<lparr>reset_token_conns := AList.update h rid (reset_token_conns ep)\<rparr>))"

definition dissociate_reset :: "ep_env \<Rightarrow> bytes option \<Rightarrow> rid \<Rightarrow> endpoint \<Rightarrow> endpoint option" where
  "dissociate_reset env token rid ep =
     (case token of
        None \<Rightarrow> Some ep
      | Some t \<Rightarrow>
          let h = hash_reset_token env t ep
          in map_option
               (\<lambda>ep. if map_of (reset_token_conns ep) h \<noteq> None
                     then ep\<lparr>reset_token_conns := AList.delete h (reset_token_conns ep)\<rparr> else ep)
               (on_conn rid (delete_associated_reset h) ep))"

fun initial_association :: "cid list \<Rightarrow> rid \<Rightarrow> endpoint \<Rightarrow> endpoint option" where
  "initial_association [] rid ep = Some ep"
| "initial_association (i # scids) rid ep =
     (case associate_cid i False rid ep of None \<Rightarrow> None | Some ep \<Rightarrow> initial_association scids rid ep)"

text \<open>The lookup of a connection by an id, which remembers what it found last.\<close>

definition fetch_associated_conn :: "cid \<Rightarrow> endpoint \<Rightarrow> rid option \<times> endpoint" where
  "fetch_associated_conn i ep =
     (let found = (case map_of (conn_lookup ep) i of
                     Some rid \<Rightarrow> if conn_at rid ep \<noteq> None then (Some rid, ep\<lparr>last_lookup := Some (i, rid)\<rparr>) else (None, ep)
                   | None \<Rightarrow> (None, ep))
      in case last_lookup ep of
           Some (j, rid) \<Rightarrow> if i = j then (Some rid, ep) else found
         | None \<Rightarrow> found)"

text \<open>The callbacks of ngtcp2 for ids and tokens.\<close>

definition get_new_connection_id :: "bool \<Rightarrow> cid \<Rightarrow> bool \<Rightarrow> rid \<Rightarrow> endpoint \<Rightarrow> (bool \<times> endpoint) option" where
  "get_new_connection_id rnd_ok i token_ok rid ep =
     (if \<not> rnd_ok then Some (False, ep)
      else if \<not> token_ok then Some (False, ep)
      else map_option (Pair True) (associate_ngtcp2_cid i rid ep))"

definition remove_connection_id :: "cid \<Rightarrow> rid \<Rightarrow> endpoint \<Rightarrow> endpoint option" where
  "remove_connection_id i rid ep = dissociate_ngtcp2_cid i rid ep"

definition associate_initial_dcid :: "cid option \<Rightarrow> rid \<Rightarrow> endpoint \<Rightarrow> endpoint option" where
  "associate_initial_dcid init_dcid rid ep =
     (case init_dcid of
        Some i \<Rightarrow> if i \<noteq> [] then associate_cid i True rid ep else Some ep
      | None \<Rightarrow> Some ep)"

datatype cid_status = Activate | Deactivate

definition on_connection_id_status :: "ep_env \<Rightarrow> cid_status \<Rightarrow> bytes option \<Rightarrow> rid \<Rightarrow> endpoint \<Rightarrow> endpoint option" where
  "on_connection_id_status env t token rid ep =
     (if token = None then Some ep
      else case t of
             Activate \<Rightarrow> associate_reset env token rid ep
           | Deactivate \<Rightarrow> dissociate_reset env token rid ep)"

definition recv_stateless_reset :: "ep_env \<Rightarrow> bytes \<Rightarrow> rid \<Rightarrow> endpoint \<Rightarrow> endpoint" where
  "recv_stateless_reset env token rid ep =
     (if map_of (reset_token_conns ep) (hash_reset_token env token ep) \<noteq> None
      then ep\<lparr>jobs := jobs ep @ [JobDrop rid (io_error_u64 CONN_STATELESS_RESET)]\<rparr> else ep)"

text \<open>\<open>tickets\<close>: the credentials allow inbound 0-RTT; the last arguments are ngtcp2's answers.\<close>

definition server_handshake_completed ::
  "bool \<Rightarrow> cid option \<Rightarrow> int + bytes \<Rightarrow> int \<Rightarrow> rid \<Rightarrow> endpoint \<Rightarrow> (int \<times> endpoint) option" where
  "server_handshake_completed tickets init_dcid token rv rid ep =
     (case conn_at rid ep of
        None \<Rightarrow> None
      | Some c \<Rightarrow>
          let c = c\<lparr>handshaked := True, handshake_confirmed := True\<rparr>;
              ep = set_conn rid (if tickets then ng_emit TlsSendTickets c else c) ep
          in case (case init_dcid of
                     Some i \<Rightarrow> if i \<noteq> [] \<and> i \<in> set (associated_cids c) then dissociate_cid i rid ep else Some ep
                   | None \<Rightarrow> Some ep) of
               None \<Rightarrow> None
             | Some ep \<Rightarrow>
                 (case conn_at rid ep of
                    None \<Rightarrow> None
                  | Some c \<Rightarrow> let (res, c) = submit_new_token (- 1) token rv c in Some (res, set_conn rid c ep)))"

section \<open>The end of a connection\<close>

definition halt_events :: "rid \<Rightarrow> endpoint \<Rightarrow> endpoint option" where
  "halt_events rid ep =
     map_option (\<lambda>ep. ep\<lparr>batch := forget_send_stall rid (batch ep)\<rparr>) (on_conn rid halt_events_conn ep)"

text \<open>The delay is in microseconds, \<open>pto\<close> in nanoseconds.\<close>

definition schedule_conn_cleanup :: "nat \<Rightarrow> rid \<Rightarrow> endpoint \<Rightarrow> endpoint" where
  "schedule_conn_cleanup pto rid ep = ep\<lparr>timers := timers ep @ [((pto * 3 + 999) div 1000, rid)]\<rparr>"

definition execute_close_hooks :: "ep_env \<Rightarrow> io_error \<Rightarrow> rid \<Rightarrow> endpoint \<Rightarrow> endpoint option" where
  "execute_close_hooks env ec rid ep =
     (case conn_at rid ep of
        None \<Rightarrow> None
      | Some c \<Rightarrow>
          if close_quietly c then Some ep
          else case close_all_streams (stream_env env (is_outbound c)) (chans c) of
                 None \<Rightarrow> None
               | Some s \<Rightarrow>
                   let ep = set_conn rid (c\<lparr>chans := s\<rparr>) ep
                   in if \<not> is_outbound c \<and> \<not> handshake_confirmed c then Some ep
                      else if has_closed_cb c then Some (ep_emit (ConnClosedCallback rid (io_code ec)) ep)
                      else if close_cb ep then Some (ep_emit (EndpointClosedCallback rid (io_code ec)) ep)
                      else Some ep)"

text \<open>The connection goes to \<open>reset_soon\<close>, which destroys it later.\<close>

definition erase_conn :: "rid \<Rightarrow> endpoint \<Rightarrow> endpoint" where
  "erase_conn rid ep =
     (case conn_at rid ep of
        None \<Rightarrow> ep
      | Some c \<Rightarrow> forget_last_lookup
                    (ep\<lparr>doomed := doomed ep @ [(rid, c)], conns := AList.delete rid (conns ep)\<rparr>))"

fun dissociate_all :: "cid list \<Rightarrow> rid \<Rightarrow> endpoint \<Rightarrow> endpoint option" where
  "dissociate_all [] rid ep = Some ep"
| "dissociate_all (i # cids) rid ep =
     (case dissociate_cid i rid ep of None \<Rightarrow> None | Some ep \<Rightarrow> dissociate_all cids rid ep)"

definition delete_connection :: "rid \<Rightarrow> endpoint \<Rightarrow> endpoint option" where
  "delete_connection rid ep =
     (case Option.bind (halt_events rid ep) (on_conn rid (\<lambda>c. c\<lparr>closing := True\<rparr>)) of
        None \<Rightarrow> None
      | Some ep \<Rightarrow>
          (case conn_at rid ep of
             None \<Rightarrow> None
           | Some c \<Rightarrow>
               (case dissociate_all (associated_cids c) rid ep of
                  None \<Rightarrow> None
                | Some ep \<Rightarrow>
                    let ep = ep\<lparr>reset_token_conns := fold AList.delete (associated_resets c) (reset_token_conns ep)\<rparr>
                    in map_option (erase_conn rid) (on_conn rid (\<lambda>c. c\<lparr>chans := drop_streams (chans c)\<rparr>) ep))))"

definition drop_connection_now :: "ep_env \<Rightarrow> io_error \<Rightarrow> rid \<Rightarrow> endpoint \<Rightarrow> endpoint option" where
  "drop_connection_now env err rid ep =
     (case execute_close_hooks env err rid ep of None \<Rightarrow> None | Some ep \<Rightarrow> delete_connection rid ep)"

text \<open>\<open>code\<close> is the error code of the peer's close, as ngtcp2 gives it.\<close>

definition drain_connection :: "ep_env \<Rightarrow> nat \<Rightarrow> nat \<Rightarrow> rid \<Rightarrow> endpoint \<Rightarrow> endpoint option" where
  "drain_connection env pto code rid ep =
     (case conn_at rid ep of
        None \<Rightarrow> None
      | Some c \<Rightarrow>
          if draining c \<or> closing c then Some ep
          else case Option.bind (halt_events rid ep) (on_conn rid (\<lambda>c. c\<lparr>draining := True\<rparr>)) of
                 None \<Rightarrow> None
               | Some ep \<Rightarrow>
                   map_option (schedule_conn_cleanup pto rid) (execute_close_hooks env (io_error_u64 code) rid ep))"

text \<open>\<open>written\<close>: the close packet, or that none could be written.\<close>

definition close_connection_now ::
  "ep_env \<Rightarrow> nat \<Rightarrow> bytes option \<Rightarrow> io_error \<Rightarrow> rid \<Rightarrow> endpoint \<Rightarrow> endpoint option" where
  "close_connection_now env pto written ec rid ep =
     (case conn_at rid ep of
        None \<Rightarrow> None
      | Some c \<Rightarrow>
          if closing c \<or> draining c then Some ep
          else case Option.bind (on_conn rid (\<lambda>c. c\<lparr>closing := True\<rparr>) ep) (halt_events rid) of
                 None \<Rightarrow> None
               | Some ep \<Rightarrow>
                   if ngtcp2_code ec = NGTCP2_ERR_IDLE_CLOSE (codes env)
                   then drop_connection_now env (io_error_u64 CONN_IDLE_CLOSED) rid ep
                   else case execute_close_hooks env ec rid ep of
                          None \<Rightarrow> None
                        | Some ep \<Rightarrow>
                            (case written of
                               None \<Rightarrow> delete_connection rid ep
                             | Some b \<Rightarrow>
                                 if length b > MAX_PMTUD_UDP_PAYLOAD then None
                                 else Some (ep_emit (QueuePacket (send_path c) b (\<not> is_outbound c) (Some rid))
                                              (schedule_conn_cleanup pto rid ep))))"

text \<open>What the close packet's send reports to its callback.\<close>

definition close_packet_sent :: "io_result \<Rightarrow> rid \<Rightarrow> endpoint \<Rightarrow> endpoint option" where
  "close_packet_sent rv rid ep =
     (if \<not> failure rv then Some ep
      else case get_conn rid ep of None \<Rightarrow> Some ep | Some _ \<Rightarrow> delete_connection rid ep)"

definition cleanup_timer :: "rid \<Rightarrow> endpoint \<Rightarrow> endpoint option" where
  "cleanup_timer rid ep =
     (if map_of (conns ep) rid = None then Some ep else delete_connection rid ep)"

definition drop_connection :: "rid \<Rightarrow> io_error \<Rightarrow> endpoint \<Rightarrow> endpoint" where
  "drop_connection rid err ep = ep\<lparr>jobs := jobs ep @ [JobDrop rid err]\<rparr>"

definition close_connection :: "ep_env \<Rightarrow> rid \<Rightarrow> io_error \<Rightarrow> string option \<Rightarrow> endpoint \<Rightarrow> endpoint" where
  "close_connection env rid ec msg ep =
     ep\<lparr>jobs := jobs ep @ [JobClose rid ec (case msg of Some m \<Rightarrow> m | None \<Rightarrow> io_strerror (strerror env) ec)]\<rparr>"

definition close_conns :: "bool option \<Rightarrow> endpoint \<Rightarrow> endpoint" where
  "close_conns d ep = ep\<lparr>jobs := jobs ep @ [JobCloseConns d]\<rparr>"

text \<open>\<open>_close_conns\<close>: the close packets are given per connection.\<close>

fun close_each :: "ep_env \<Rightarrow> nat \<Rightarrow> (rid \<Rightarrow> bytes option) \<Rightarrow> rid list \<Rightarrow> endpoint \<Rightarrow> endpoint option" where
  "close_each env pto written [] ep = Some ep"
| "close_each env pto written (rid # rids) ep =
     (case close_connection_now env pto (written rid) (io_error_u64 0) rid ep of
        None \<Rightarrow> None
      | Some ep \<Rightarrow> close_each env pto written rids ep)"

definition close_conns_now :: "ep_env \<Rightarrow> nat \<Rightarrow> (rid \<Rightarrow> bytes option) \<Rightarrow> bool option \<Rightarrow> endpoint \<Rightarrow> endpoint option" where
  "close_conns_now env pto written d ep =
     close_each env pto written
       (map fst (filter (\<lambda>(_, p). case p of None \<Rightarrow> False | Some c \<Rightarrow> (case d of None \<Rightarrow> True | Some b \<Rightarrow> is_outbound c = b))
          (conns ep))) ep"

text \<open>
  The next job of the queue. A drain finds the connection by a weak pointer: one that has been deleted but is still
  alive is marked as closing and is left alone.
\<close>

definition run_job :: "ep_env \<Rightarrow> nat \<Rightarrow> (rid \<Rightarrow> bytes option) \<Rightarrow> endpoint \<Rightarrow> endpoint option" where
  "run_job env pto written ep =
     (case jobs ep of
        [] \<Rightarrow> Some ep
      | j # js \<Rightarrow>
          let ep = ep\<lparr>jobs := js\<rparr>
          in case j of
               JobClose rid ec msg \<Rightarrow>
                 (if conn_at rid ep = None then Some ep else close_connection_now env pto (written rid) ec rid ep)
             | JobDrop rid err \<Rightarrow> (if get_conn rid ep = None then Some ep else drop_connection_now env err rid ep)
             | JobDrain rid code \<Rightarrow> (if conn_at rid ep = None then Some ep else drain_connection env pto code rid ep)
             | JobCloseConns d \<Rightarrow> close_conns_now env pto written d ep)"

section \<open>Packets without a connection\<close>

record in_packet =
  pkt_path :: Path
  pkt_data :: bytes

definition MIN_STATELESS_RESET_SIZE :: nat where
  "MIN_STATELESS_RESET_SIZE = 41"

definition RESET_TOKENLEN :: nat where
  "RESET_TOKENLEN = 16"

text \<open>A packet written into a buffer of \<open>cap\<close> bytes is sent; \<open>None\<close> is ngtcp2's failure.\<close>

definition send_written :: "nat \<Rightarrow> bytes option \<Rightarrow> Path \<Rightarrow> endpoint \<Rightarrow> endpoint option" where
  "send_written cap written p ep =
     (case written of
        None \<Rightarrow> Some ep
      | Some b \<Rightarrow> if length b > cap then None else Some (ep_emit (QueuePacket p b True None) ep))"

text \<open>The size of the reset for a packet of \<open>n\<close> bytes, given a random number.\<close>

definition stateless_reset_size :: "nat \<Rightarrow> nat \<Rightarrow> nat option" where
  "stateless_reset_size rnd n =
     (if n \<le> MIN_STATELESS_RESET_SIZE then None
      else let max_reduction = n - MIN_STATELESS_RESET_SIZE;
               reduce = (if max_reduction > 1 then 1 + rnd mod max_reduction else 1)
           in Some (n - reduce))"

text \<open>\<open>wr\<close> is what ngtcp2 writes into a buffer of a size, with that much random data.\<close>

definition send_stateless_reset :: "nat \<Rightarrow> (nat \<Rightarrow> nat \<Rightarrow> bytes option) \<Rightarrow> in_packet \<Rightarrow> endpoint \<Rightarrow> endpoint option" where
  "send_stateless_reset rnd wr pkt ep =
     (case stateless_reset_size rnd (length (pkt_data pkt)) of
        None \<Rightarrow> Some ep
      | Some sz \<Rightarrow> send_written sz (wr sz (sz - RESET_TOKENLEN)) (pkt_path pkt) ep)"

definition send_retry :: "bool \<Rightarrow> bool \<Rightarrow> bytes option \<Rightarrow> in_packet \<Rightarrow> endpoint \<Rightarrow> endpoint option" where
  "send_retry rnd_ok token_ok written pkt ep =
     (if \<not> rnd_ok then Some ep
      else if \<not> token_ok then Some ep
      else send_written MAX_PMTUD_UDP_PAYLOAD written (pkt_path pkt) ep)"

definition send_stateless_connection_close :: "bytes option \<Rightarrow> in_packet \<Rightarrow> endpoint \<Rightarrow> endpoint option" where
  "send_stateless_connection_close written pkt ep = send_written MAX_PMTUD_UDP_PAYLOAD written (pkt_path pkt) ep"

definition send_version_negotiation :: "bytes option \<Rightarrow> Path \<Rightarrow> endpoint \<Rightarrow> endpoint option" where
  "send_version_negotiation written p ep = send_written MAX_PMTUD_UDP_PAYLOAD written p ep"

definition NGTCP2_MAX_CIDLEN :: nat where
  "NGTCP2_MAX_CIDLEN = 20"

datatype decoded = VersionNegotiation | DecodeError | DecodedCid cid

definition handle_packet_connid :: "decoded \<Rightarrow> bytes option \<Rightarrow> in_packet \<Rightarrow> endpoint \<Rightarrow> (cid option \<times> endpoint) option" where
  "handle_packet_connid dec vneg pkt ep =
     (case dec of
        VersionNegotiation \<Rightarrow> map_option (Pair None) (send_version_negotiation vneg (pkt_path pkt) ep)
      | DecodeError \<Rightarrow> Some (None, ep)
      | DecodedCid i \<Rightarrow> if length i > NGTCP2_MAX_CIDLEN then Some (None, ep) else Some (Some i, ep))"

definition check_stateless_reset :: "ep_env \<Rightarrow> in_packet \<Rightarrow> endpoint \<Rightarrow> rid option \<times> endpoint" where
  "check_stateless_reset env pkt ep =
     (let d = pkt_data pkt
      in if length d < RESET_TOKENLEN then (None, ep)
         else let h = hash_reset_token env (drop (length d - RESET_TOKENLEN) d) ep
              in case map_of (reset_token_conns ep) h of
                   None \<Rightarrow> (None, ep)
                 | Some rid \<Rightarrow>
                     if get_conn rid ep \<noteq> None then (Some rid, ep)
                     else (None, ep\<lparr>reset_token_conns := AList.delete h (reset_token_conns ep)\<rparr>))"

section \<open>Tokens for path validation\<close>

fun token_find :: "net_env \<Rightarrow> Address \<Rightarrow> (Address \<times> bytes) list \<Rightarrow> bytes option" where
  "token_find nv a [] = None"
| "token_find nv a ((b, t) # m) = (if address_eq nv a b then Some t else token_find nv a m)"

fun token_assign :: "net_env \<Rightarrow> Address \<Rightarrow> bytes \<Rightarrow> (Address \<times> bytes) list \<Rightarrow> (Address \<times> bytes) list" where
  "token_assign nv a t [] = [(a, t)]"
| "token_assign nv a t ((b, u) # m) = (if address_eq nv a b then (b, t) # m else (b, u) # token_assign nv a t m)"

definition store_path_validation_token :: "net_env \<Rightarrow> Address \<Rightarrow> bytes \<Rightarrow> endpoint \<Rightarrow> endpoint" where
  "store_path_validation_token nv remote token ep =
     ep\<lparr>path_validation_tokens := token_assign nv remote token (path_validation_tokens ep)\<rparr>"

definition get_path_validation_token :: "net_env \<Rightarrow> Address \<Rightarrow> endpoint \<Rightarrow> bytes option" where
  "get_path_validation_token nv remote ep = token_find nv remote (path_validation_tokens ep)"

definition recv_token :: "net_env \<Rightarrow> bytes \<Rightarrow> rid \<Rightarrow> endpoint \<Rightarrow> endpoint option" where
  "recv_token nv token rid ep =
     (case conn_at rid ep of
        None \<Rightarrow> None
      | Some c \<Rightarrow> Some (store_path_validation_token nv (path_remote (path c)) token ep))"

section \<open>New connections\<close>

text \<open>
  What constructing a connection comes to: an exception, or a connection with the given options whose source ids
  ngtcp2 reports.
\<close>

record conn_options =
  co_datagrams :: bool
  co_splitting :: bool
  co_closed_cb :: bool
  co_zero_rtt :: bool

datatype made = MakeThrows | Made conn_options "cid list"

datatype ep_result = Done "rid option" endpoint | Threw endpoint | Loops | Failed

definition lift_ep :: "rid option \<Rightarrow> endpoint option \<Rightarrow> ep_result" where
  "lift_ep r x = (case x of None \<Rightarrow> Failed | Some ep \<Rightarrow> Done r ep)"

definition make_connection :: "bool \<Rightarrow> Path \<Rightarrow> Address option \<Rightarrow> conn_options \<Rightarrow> connection" where
  "make_connection outbound p nat64 opts =
     connection_ctor outbound p nat64 (co_datagrams opts) (co_splitting opts) (co_closed_cb opts) (co_zero_rtt opts)"

text \<open>
  \<open>make_conn\<close> into an entry of \<open>conns\<close>, which wakes the connection and associates the ids of an outbound one; an
  exception leaves the null pointer.
\<close>

definition make_conn :: "bool \<Rightarrow> Path \<Rightarrow> Address option \<Rightarrow> made \<Rightarrow> rid \<Rightarrow> endpoint \<Rightarrow> ep_result" where
  "make_conn outbound p nat64 md rid ep =
     (case md of
        MakeThrows \<Rightarrow> Threw ep
      | Made opts scids \<Rightarrow>
          let ep = set_conn rid (packet_io_ready (make_connection outbound p nat64 opts)) ep
          in lift_ep (Some rid) (if outbound then initial_association scids rid ep else Some ep))"

text \<open>The local address to reach a peer from; \<open>None\<close> for the socket is manual routing.\<close>

definition local_address_for :: "(Address \<Rightarrow> Address option) option \<Rightarrow> Address \<Rightarrow> Address option" where
  "local_address_for sock remote = (case sock of None \<Rightarrow> None | Some f \<Rightarrow> f remote)"

text \<open>\<open>apple\<close> is the platform; \<open>nat64\<close> the address of a peer through the network's NAT64.\<close>

definition route_to ::
  "bool \<Rightarrow> (Address \<Rightarrow> Address option) option \<Rightarrow> (Address \<Rightarrow> Address option) \<Rightarrow> Address \<Rightarrow> route option" where
  "route_to apple sock nat64 remote =
     (case local_address_for sock remote of
        Some source \<Rightarrow> Some \<lparr>route_local = source, route_nat64 = None\<rparr>
      | None \<Rightarrow>
          if apple \<and> sock \<noteq> None \<and> is_ipv4_mapped_ipv6 remote
          then (case nat64 remote of
                  None \<Rightarrow> None
                | Some a \<Rightarrow>
                    (case local_address_for sock a of
                       None \<Rightarrow> None
                     | Some source \<Rightarrow> Some \<lparr>route_local = source, route_nat64 = Some a\<rparr>))
          else None)"

text \<open>The loop over random ids; \<open>Loops\<close> when all of the given ones are taken.\<close>

fun connect_loop :: "cid list \<Rightarrow> Path \<Rightarrow> Address option \<Rightarrow> made \<Rightarrow> rid \<Rightarrow> endpoint \<Rightarrow> ep_result" where
  "connect_loop [] p nat64 md rid ep = Loops"
| "connect_loop (i # cids) p nat64 md rid ep =
     (if map_of (conn_lookup ep) i \<noteq> None then connect_loop cids p nat64 md rid ep
      else if map_of (conns ep) rid \<noteq> None then Failed
      else let ep = ep\<lparr>conn_lookup := AList.update i rid (conn_lookup ep), conns := AList.update rid None (conns ep)\<rparr>
           in case make_conn True p nat64 md rid ep of
                Threw ep \<Rightarrow>
                  Threw (forget_last_lookup
                    (ep\<lparr>conns := AList.delete rid (conns ep), conn_lookup := AList.delete i (conn_lookup ep)\<rparr>))
              | r \<Rightarrow> r)"

definition connect_to :: "cid list \<Rightarrow> (Address \<Rightarrow> route option) \<Rightarrow> Address \<Rightarrow> made \<Rightarrow> endpoint \<Rightarrow> ep_result" where
  "connect_to cids rt remote md ep =
     (let to = rt remote;
          p = path_ctor (case to of Some r \<Rightarrow> route_local r | None \<Rightarrow> ep_local ep) remote;
          (rid, ep) = next_reference_id ep
      in connect_loop cids p (Option.bind to route_nat64) md rid ep)"

definition connect :: "cid list \<Rightarrow> (Address \<Rightarrow> route option) \<Rightarrow> Address \<Rightarrow> made \<Rightarrow> endpoint \<Rightarrow> ep_result" where
  "connect cids rt remote md ep =
     (case (if routes_manually ep then Some True else is_addressable remote) of
        None \<Rightarrow> Failed
      | Some ok \<Rightarrow>
          if \<not> ok then Threw ep
          else case (if is_ipv6 (ep_local ep) \<and> \<not> is_ipv6 remote then map_ipv4_as_ipv6 remote else Inr remote) of
                 Inl _ \<Rightarrow> Threw ep
               | Inr remote \<Rightarrow> connect_to cids rt remote md ep)"

definition listen :: "endpoint \<Rightarrow> endpoint" where
  "listen ep = ep\<lparr>accepting_inbound := True\<rparr>"

section \<open>Accepting connections\<close>

text \<open>An initial packet's header as ngtcp2 accepts it, and the other answers about it.\<close>

record pkt_hd =
  hd_token :: bytes
  hd_dcid :: cid

record accept_answers =
  accepted_hdr :: "pkt_hd option"
  magic_retry :: byte
  magic_regular :: byte
  min_initial_dcidlen :: nat
  retry_token_ok :: bool
  regular_token_ok :: bool
  retry_rnd_ok :: bool
  retry_made_ok :: bool
  retry_packet :: "bytes option"
  close_packet :: "bytes option"

datatype token_check = TokenOk | TokenClose | TokenRetry

definition check_token :: "accept_answers \<Rightarrow> pkt_hd \<Rightarrow> token_check" where
  "check_token ans hdr =
     (case hd_token hdr of
        [] \<Rightarrow> TokenOk
      | b # _ \<Rightarrow>
          if b = magic_retry ans then if retry_token_ok ans then TokenOk else TokenClose
          else if b = magic_regular ans then if regular_token_ok ans then TokenOk else TokenRetry
          else if length (hd_dcid hdr) < min_initial_dcidlen ans then TokenClose else TokenRetry)"

fun accept_loop :: "cid list \<Rightarrow> Path \<Rightarrow> made \<Rightarrow> rid \<Rightarrow> endpoint \<Rightarrow> ep_result" where
  "accept_loop [] p md rid ep = Loops"
| "accept_loop (i # cids) p md rid ep =
     (if map_of (conn_lookup ep) i \<noteq> None then accept_loop cids p md rid ep
      else let ep = ep\<lparr>conn_lookup := AList.update i rid (conn_lookup ep)\<rparr>
           in if map_of (conns ep) rid \<noteq> None then accept_loop cids p md rid ep
              else case make_conn False p None md rid (ep\<lparr>conns := AList.update rid None (conns ep)\<rparr>) of
                     Done _ ep \<Rightarrow>
                       lift_ep (Some rid) (initial_association (case md of Made _ scids \<Rightarrow> scids | MakeThrows \<Rightarrow> []) rid ep)
                   | r \<Rightarrow> r)"

text \<open>The result: \<open>Done (Some rid)\<close> is a new connection; otherwise the flag says whether the packet was dealt with.\<close>

definition accept_initial_connection ::
  "accept_answers \<Rightarrow> cid list \<Rightarrow> made \<Rightarrow> in_packet \<Rightarrow> endpoint \<Rightarrow> bool \<times> ep_result" where
  "accept_initial_connection ans cids md pkt ep =
     (case accepted_hdr ans of
        None \<Rightarrow> (False, Done None ep)
      | Some hdr \<Rightarrow>
          (case check_token ans hdr of
             TokenClose \<Rightarrow> (True, lift_ep None (send_stateless_connection_close (close_packet ans) pkt ep))
           | TokenRetry \<Rightarrow>
               (True, lift_ep None (send_retry (retry_rnd_ok ans) (retry_made_ok ans) (retry_packet ans) pkt ep))
           | TokenOk \<Rightarrow> (let (rid, ep) = next_reference_id ep in (True, accept_loop cids (pkt_path pkt) md rid ep))))"

section \<open>Packets for a connection\<close>

text \<open>What ngtcp2 calls back while it reads a packet of the connection.\<close>

datatype ep_callback =
    CbConn callback
  | CbNewCid bool cid bool
  | CbRemoveCid cid
  | CbClientInitial "cid option"
  | CbCidStatus cid_status "bytes option"
  | CbStatelessReset bytes
  | CbServerHandshake bool "cid option" "int + bytes" int
  | CbToken bytes

definition on_server_handshake ::
  "bool \<Rightarrow> cid option \<Rightarrow> int + bytes \<Rightarrow> int \<Rightarrow> rid \<Rightarrow> endpoint \<Rightarrow> endpoint option" where
  "on_server_handshake tickets init_dcid token rv rid ep =
     (case server_handshake_completed tickets init_dcid token rv rid ep of
        None \<Rightarrow> None
      | Some (_, ep) \<Rightarrow> on_conn rid (\<lambda>c. c\<lparr>chans := check_established (chans c)\<rparr>) ep)"

fun run_ep_callback :: "ep_env \<Rightarrow> rid \<Rightarrow> ep_callback \<Rightarrow> endpoint \<Rightarrow> endpoint option" where
  "run_ep_callback env rid (CbConn x) ep =
     (case conn_at rid ep of
        None \<Rightarrow> None
      | Some c \<Rightarrow> map_option (\<lambda>c. set_conn rid c ep) (run_callback (codes env) (stream_env env (is_outbound c)) x c))"
| "run_ep_callback env rid (CbNewCid rnd_ok i token_ok) ep = map_option snd (get_new_connection_id rnd_ok i token_ok rid ep)"
| "run_ep_callback env rid (CbRemoveCid i) ep = remove_connection_id i rid ep"
| "run_ep_callback env rid (CbClientInitial i) ep = associate_initial_dcid i rid ep"
| "run_ep_callback env rid (CbCidStatus t token) ep = on_connection_id_status env t token rid ep"
| "run_ep_callback env rid (CbStatelessReset token) ep = Some (recv_stateless_reset env token rid ep)"
| "run_ep_callback env rid (CbServerHandshake tickets i token rv) ep = on_server_handshake tickets i token rv rid ep"
| "run_ep_callback env rid (CbToken token) ep = recv_token (net env) token rid ep"

text \<open>The requests of a connection become jobs; \<open>code\<close> is the peer's error code if it is draining.\<close>

fun job_of_request :: "ep_env \<Rightarrow> nat \<Rightarrow> rid \<Rightarrow> conn_request \<Rightarrow> ep_job" where
  "job_of_request env code rid (AskClose ec msg) =
     JobClose rid ec (case msg of Some m \<Rightarrow> m | None \<Rightarrow> io_strerror (strerror env) ec)"
| "job_of_request env code rid (AskDrop err) = JobDrop rid err"
| "job_of_request env code rid AskDrain = JobDrain rid code"

definition take_requests :: "ep_env \<Rightarrow> nat \<Rightarrow> rid \<Rightarrow> endpoint \<Rightarrow> endpoint option" where
  "take_requests env code rid ep =
     (case conn_at rid ep of
        None \<Rightarrow> None
      | Some c \<Rightarrow> Some ((set_conn rid (c\<lparr>conn_reqs := []\<rparr>) ep)
                          \<lparr>jobs := jobs ep @ map (job_of_request env code rid) (conn_reqs c)\<rparr>))"

text \<open>What ngtcp2 does with a packet: the callbacks it makes, its result, its answers to a migration.\<close>

record read_answers =
  in_closing_period :: bool
  read_callbacks :: "ep_callback list"
  read_rv :: int
  migrate_rv :: int
  close_code :: nat

definition conn_packet :: "ep_env \<Rightarrow> read_answers \<Rightarrow> rid \<Rightarrow> endpoint \<Rightarrow> endpoint option" where
  "conn_packet env ra rid ep =
     (case conn_at rid ep of
        None \<Rightarrow> None
      | Some c \<Rightarrow>
          if in_closing_period ra \<or> draining c \<or> dead c then Some ep
          else case run_ops (run_ep_callback env rid) (read_callbacks ra) (set_conn rid (ng_emit NgReadPkt c) ep) of
                 None \<Rightarrow> None
               | Some ep \<Rightarrow>
                   (case conn_at rid ep of
                      None \<Rightarrow> None
                    | Some c' \<Rightarrow>
                        take_requests env (close_code ra) rid
                          (set_conn rid
                             (handle_conn_packet (codes env) (in_closing_period ra) (\<lambda>_. migrate_rv ra)
                                (\<lambda>_. (read_rv ra, c')) c) ep)))"

text \<open>
  The packet is relabelled before it is handed over: ngtcp2 knows an outbound connection by the connection's own
  local address and by the peer's own address.
\<close>

definition relabel :: "net_env \<Rightarrow> connection \<Rightarrow> Path \<Rightarrow> Path" where
  "relabel nv c p =
     (if \<not> is_outbound c then p
      else let p = p\<lparr>path_local := path_local (path c)\<rparr>
           in case nat64_path c of
                Some q \<Rightarrow> if address_eq nv (path_remote p) (path_remote q) then p\<lparr>path_remote := path_remote (path c)\<rparr> else p
              | None \<Rightarrow> p)"

definition check_arrival ::
  "ep_env \<Rightarrow> (Address \<Rightarrow> route option) \<Rightarrow> int \<Rightarrow> Path \<Rightarrow> connection \<Rightarrow> connection option" where
  "check_arrival env rt mig p c =
     (if \<not> is_outbound c then Some c
      else case is_any_addr (path_local p) of
             None \<Rightarrow> None
           | Some any \<Rightarrow>
               if \<not> any \<and> \<not> address_eq (net env) (path_local p) (path_local (path c))
               then local_address_mismatch (net env) (codes env) rt (\<lambda>_. mig) (path_local p) c else Some c)"

definition hand_over ::
  "ep_env \<Rightarrow> (Address \<Rightarrow> route option) \<Rightarrow> read_answers \<Rightarrow> in_packet \<Rightarrow> rid \<Rightarrow> endpoint \<Rightarrow> endpoint option" where
  "hand_over env rt ra pkt rid ep =
     (case conn_at rid ep of
        None \<Rightarrow> None
      | Some c \<Rightarrow>
          (case check_arrival env rt (migrate_rv ra) (pkt_path pkt) c of
             None \<Rightarrow> None
           | Some c \<Rightarrow>
               conn_packet env ra rid
                 (ep_emit (DeliverPacket rid (relabel (net env) c (pkt_path pkt))) (set_conn rid c ep))))"

record packet_answers =
  decode :: decoded
  vneg_packet :: "bytes option"
  accepts :: accept_answers
  random_cids :: "cid list"
  new_conn :: made
  reset_rnd :: nat
  reset_packet :: "nat \<Rightarrow> nat \<Rightarrow> bytes option"
  routes :: "Address \<Rightarrow> route option"
  reads :: read_answers

text \<open>
  The first part of \<open>handle_packet\<close> finds the connection the packet is for, which it may have to create, or deals with the
  packet itself.
\<close>

datatype routed = RouteTo rid endpoint | Stop ep_result

definition route_unknown :: "ep_env \<Rightarrow> packet_answers \<Rightarrow> in_packet \<Rightarrow> endpoint \<Rightarrow> routed" where
  "route_unknown env pa pkt ep =
     (case check_stateless_reset env pkt ep of
        (Some rid, ep) \<Rightarrow> RouteTo rid ep
      | (None, ep) \<Rightarrow> Stop (lift_ep None (send_stateless_reset (reset_rnd pa) (reset_packet pa) pkt ep)))"

definition route_packet :: "ep_env \<Rightarrow> packet_answers \<Rightarrow> in_packet \<Rightarrow> endpoint \<Rightarrow> routed" where
  "route_packet env pa pkt ep =
     (case handle_packet_connid (decode pa) (vneg_packet pa) pkt ep of
        None \<Rightarrow> Stop Failed
      | Some (None, ep) \<Rightarrow> Stop (Done None ep)
      | Some (Some dcid, ep) \<Rightarrow>
          (case fetch_associated_conn dcid ep of
             (Some rid, ep) \<Rightarrow> RouteTo rid ep
           | (None, ep) \<Rightarrow>
               if accepting_inbound ep
               then (case accept_initial_connection (accepts pa) (random_cids pa) (new_conn pa) pkt ep of
                       (_, Done (Some rid) ep) \<Rightarrow> RouteTo rid ep
                     | (dealt_with, Done None ep) \<Rightarrow>
                         if dealt_with then Stop (Done None ep) else route_unknown env pa pkt ep
                     | (_, r) \<Rightarrow> Stop r)
               else route_unknown env pa pkt ep))"

definition handle_packet :: "ep_env \<Rightarrow> packet_answers \<Rightarrow> in_packet \<Rightarrow> endpoint \<Rightarrow> ep_result" where
  "handle_packet env pa pkt ep =
     (case route_packet env pa pkt ep of
        RouteTo rid ep \<Rightarrow> lift_ep (Some rid) (hand_over env (routes pa) (reads pa) pkt rid ep)
      | Stop r \<Rightarrow> r)"

text \<open>The host's network changed: every outbound connection looks at its route.\<close>

fun network_changed_each :: "ep_env \<Rightarrow> (Address \<Rightarrow> route option) \<Rightarrow> (rid \<Rightarrow> int) \<Rightarrow> rid list \<Rightarrow> endpoint \<Rightarrow> endpoint option" where
  "network_changed_each env rt mig [] ep = Some ep"
| "network_changed_each env rt mig (rid # rids) ep =
     (case conn_at rid ep of
        None \<Rightarrow> None
      | Some c \<Rightarrow>
          if \<not> is_outbound c then network_changed_each env rt mig rids ep
          else case check_local_address (net env) (codes env) rt (\<lambda>_. mig rid) (c\<lparr>unconfirmed_local := None\<rparr>) of
                 None \<Rightarrow> None
               | Some (_, c) \<Rightarrow> network_changed_each env rt mig rids (set_conn rid c ep))"

definition network_changed :: "ep_env \<Rightarrow> (Address \<Rightarrow> route option) \<Rightarrow> (rid \<Rightarrow> int) \<Rightarrow> endpoint \<Rightarrow> endpoint option" where
  "network_changed env rt mig ep = network_changed_each env rt mig (map fst (conns ep)) ep"

end
