(* ===== verification/Send_Batch_Correct.thy ===== *)
theory Send_Batch_Correct
  imports Send_Batch "HOL-Library.Sublist" "HOL-Library.Multiset"
begin

text \<open>
  What the sending of batches keeps: the packets of the flat buffer are read as a list (\<open>packets_of\<close>), on which moving
  bytes inside the buffer is dropping and filtering; the send loop accounts for every packet; and the shared batch of an
  endpoint, as a system of flushes, halts and socket callbacks, forgets no connection that waits.
\<close>

section \<open>The packets of a buffer\<close>

definition pk_wf :: "pktbuf \<Rightarrow> bool" where
  "pk_wf p \<longleftrightarrow> n_pkts p \<le> length (pk_size p) \<and> n_pkts p \<le> length (pk_ecn p) \<and> sum_list (take (n_pkts p) (pk_size p)) \<le> length (pk_buf p)"

lemma length_split_at [simp]: "length (split_at ss b) = length ss"
  by (induction ss b rule: split_at.induct) simp_all

lemma split_at_append: "split_at (ss @ ts) b = split_at ss b @ split_at ts (drop (sum_list ss) b)"
  by (induction ss b rule: split_at.induct) (simp_all add: add.commute)

lemma split_at_take: "sum_list ss \<le> n \<Longrightarrow> split_at ss (take n b) = split_at ss b"
proof (induction ss b arbitrary: n rule: split_at.induct)
  case (2 s ss b)
  then show ?case using 2(1) [of "n - s"] by (simp add: drop_take)
qed simp

lemma split_at_prefix: "sum_list ss \<le> length a \<Longrightarrow> split_at ss (a @ b) = split_at ss a"
  using split_at_take [of ss "length a" "a @ b"] by simp

lemma length_packets_of: "pk_wf p \<Longrightarrow> length (packets_of p) = n_pkts p"
  by (simp add: packets_of_def pk_wf_def)

lemma packets_of_none [simp]: "n_pkts p = 0 \<Longrightarrow> packets_of p = []"
  by (simp add: packets_of_def)

lemma take_drop_split: "k \<le> n \<Longrightarrow> take n xs = take k xs @ take (n - k) (drop k xs)"
  by (metis le_add_diff_inverse take_add)

lemma shift_unsent_view:
  assumes "pk_wf p" "k \<le> n_pkts p"
  shows "packets_of (shift_unsent k p) = drop k (packets_of p) \<and> pk_wf (shift_unsent k p) \<and> n_pkts (shift_unsent k p) = n_pkts p - k"
proof -
  let ?n = "n_pkts p" and ?ss = "pk_size p" and ?b = "pk_buf p" and ?e = "pk_ecn p"
  have n: "?n \<le> length ?ss" "?n \<le> length ?e" "sum_list (take ?n ?ss) \<le> length ?b" using assms(1) by (simp_all add: pk_wf_def)
  have sp: "take ?n ?ss = take k ?ss @ take (?n - k) (drop k ?ss)" by (rule take_drop_split [OF assms(2)])
  consider "k = 0" | "k = ?n" "k > 0" | "0 < k" "k < ?n" using assms(2) by linarith
  then show ?thesis
  proof cases
    case 1
    then show ?thesis using assms(1) by (simp add: shift_unsent_def Let_def)
  next
    case 2
    then show ?thesis by (simp add: shift_unsent_def Let_def packets_of_def pk_wf_def n)
  next
    case 3
    let ?o = "sum_list (take k ?ss)" and ?l = "sum_list (drop k (take ?n ?ss))"
    have l: "?l = sum_list (take (?n - k) (drop k ?ss))" by (simp add: drop_take)
    have ol: "?o + ?l \<le> length ?b" using n(3) sp l by simp
    have v: "drop k (packets_of p) = zip (split_at (take (?n - k) (drop k ?ss)) (drop ?o ?b)) (take (?n - k) (drop k ?e))"
      using sp split_at_append [of "take k ?ss" "take (?n - k) (drop k ?ss)" ?b] n(1) assms(2)
      by (simp add: packets_of_def drop_zip drop_take)
    have "split_at (take (?n - k) (drop k ?ss)) (take ?l (drop ?o ?b) @ drop ?l ?b) = split_at (take (?n - k) (drop k ?ss)) (drop ?o ?b)"
      using ol l split_at_prefix [of "take (?n - k) (drop k ?ss)" "take ?l (drop ?o ?b)"]
        split_at_take [of "take (?n - k) (drop k ?ss)" ?l "drop ?o ?b"] by simp
    moreover have "?n - k \<le> length ?ss" "?n - k \<le> length ?e" using n(1,2) by simp_all
    ultimately show ?thesis
      using 3 n ol v l by (simp add: shift_unsent_def Let_def memmove_def packets_of_def pk_wf_def)
  qed
qed

text \<open>Dropping the large packets keeps the others, in order.\<close>

definition small :: "nat \<Rightarrow> packet \<Rightarrow> bool" where
  "small min_size x \<longleftrightarrow> length (fst x) < min_size"

definition view :: "nat \<Rightarrow> pktbuf \<Rightarrow> packet list" where
  "view n p = zip (split_at (take n (pk_size p)) (pk_buf p)) (take n (pk_ecn p))"

definition view_from :: "nat \<Rightarrow> nat \<Rightarrow> nat \<Rightarrow> pktbuf \<Rightarrow> packet list" where
  "view_from m i inp p = zip (split_at (take m (drop i (pk_size p))) (drop inp (pk_buf p))) (take m (drop i (pk_ecn p)))"

definition keep_packet :: "nat \<Rightarrow> nat \<Rightarrow> nat \<Rightarrow> nat \<Rightarrow> pktbuf \<Rightarrow> pktbuf" where
  "keep_packet i kept inp outp p =
     p\<lparr>pk_buf := memmove outp inp (pk_size p ! i) (pk_buf p), pk_size := (pk_size p)[kept := pk_size p ! i],
       pk_ecn := (pk_ecn p)[kept := pk_ecn p ! i]\<rparr>"

lemma memmove_same: "n \<le> length (drop k xs) \<Longrightarrow> memmove k k n xs = xs"
  by (simp add: memmove_def) (metis append_take_drop_id drop_drop add.commute)

lemma view_from_Suc:
  assumes "i < length (pk_size p)" "i < length (pk_ecn p)"
  shows "view_from (Suc m) i inp p =
    (take (pk_size p ! i) (drop inp (pk_buf p)), pk_ecn p ! i) # view_from m (i + 1) (inp + pk_size p ! i) p"
  using drop_nth_Cons [OF assms(1)] drop_nth_Cons [OF assms(2)] by (simp add: view_from_def add.commute)

lemma keep_packet_ok:
  assumes "kept \<le> i" "i < length (pk_size p)" "i < length (pk_ecn p)" "outp = sum_list (take kept (pk_size p))" "outp \<le> inp"
    "inp + pk_size p ! i \<le> length (pk_buf p)"
  defines "q \<equiv> keep_packet i kept inp outp p"
  shows "view (kept + 1) q = view kept p @ [(take (pk_size p ! i) (drop inp (pk_buf p)), pk_ecn p ! i)]"
    "view_from m (i + 1) (inp + pk_size p ! i) q = view_from m (i + 1) (inp + pk_size p ! i) p"
    "sum_list (take (kept + 1) (pk_size q)) = outp + pk_size p ! i" "length (pk_buf q) = length (pk_buf p)"
    "drop (i + 1) (pk_size q) = drop (i + 1) (pk_size p)" "length (pk_size q) = length (pk_size p)" "length (pk_ecn q) = length (pk_ecn p)"
proof -
  let ?s = "pk_size p ! i"
  have tk: "take (kept + 1) ((pk_size p)[kept := ?s]) = take kept (pk_size p) @ [?s]"
    "take (kept + 1) ((pk_ecn p)[kept := pk_ecn p ! i]) = take kept (pk_ecn p) @ [pk_ecn p ! i]"
    using assms(1-3) by (simp_all add: take_Suc_conv_app_nth)
  have b: "pk_buf q = take outp (pk_buf p) @ take ?s (drop inp (pk_buf p)) @ drop (outp + ?s) (pk_buf p)"
    by (simp add: q_def keep_packet_def memmove_def)
  have o: "outp \<le> length (pk_buf p)" "?s \<le> length (drop inp (pk_buf p))" using assms(5,6) by simp_all
  have lb: "length (pk_buf q) = length (pk_buf p)" using assms(5,6) by (simp add: b)
  show "length (pk_buf q) = length (pk_buf p)" by (rule lb)
  show "sum_list (take (kept + 1) (pk_size q)) = outp + ?s" using assms(4) tk(1) by (simp add: q_def keep_packet_def)
  show "drop (i + 1) (pk_size q) = drop (i + 1) (pk_size p)" using assms(1) by (simp add: q_def keep_packet_def)
  show "length (pk_size q) = length (pk_size p)" "length (pk_ecn q) = length (pk_ecn p)" by (simp_all add: q_def keep_packet_def)
  have "split_at (take kept (pk_size p)) (pk_buf q) = split_at (take kept (pk_size p)) (pk_buf p)"
    using split_at_take [of "take kept (pk_size p)" outp "pk_buf p"] split_at_take [of "take kept (pk_size p)" outp "pk_buf q"]
      assms(4) o(1) by (simp add: b)
  moreover have "take ?s (drop outp (pk_buf q)) = take ?s (drop inp (pk_buf p))" using o by (simp add: b)
  moreover have "length (take kept (pk_size p)) = length (take kept (pk_ecn p))" using assms(1-3) by simp
  ultimately show "view (kept + 1) q = view kept p @ [(take ?s (drop inp (pk_buf p)), pk_ecn p ! i)]"
    using tk assms(4) by (simp add: view_def q_def keep_packet_def split_at_append)
  have "drop (inp + ?s) (pk_buf q) = drop (inp + ?s) (pk_buf p)" using o assms(5) by (simp add: b)
  then show "view_from m (i + 1) (inp + ?s) q = view_from m (i + 1) (inp + ?s) p"
    using assms(1) by (simp add: view_from_def q_def keep_packet_def)
qed

lemma drop_loop_view:
  assumes "kept \<le> i" "i + m \<le> length (pk_size p)" "i + m \<le> length (pk_ecn p)" "outp = sum_list (take kept (pk_size p))"
    "outp \<le> inp" "inp + sum_list (take m (drop i (pk_size p))) \<le> length (pk_buf p)" "drop_loop min_size m i kept inp outp p = (k, q)"
  shows "view k q = view kept p @ filter (small min_size) (view_from m i inp p) \<and> k \<le> i + m \<and>
    sum_list (take k (pk_size q)) \<le> length (pk_buf q) \<and> length (pk_size q) = length (pk_size p) \<and> length (pk_ecn q) = length (pk_ecn p)"
  using assms
proof (induction min_size m i kept inp outp p rule: drop_loop.induct)
  case (2 min_size m i kept inp outp p)
  let ?s = "pk_size p ! i"
  have i: "i < length (pk_size p)" "i < length (pk_ecn p)" using 2(4,5) by simp_all
  have sm: "sum_list (take (Suc m) (drop i (pk_size p))) = ?s + sum_list (take m (drop (i + 1) (pk_size p)))"
    using drop_nth_Cons [OF i(1)] by simp
  have s: "inp + ?s \<le> length (pk_buf p)" "inp + ?s + sum_list (take m (drop (i + 1) (pk_size p))) \<le> length (pk_buf p)" using 2(8) sm by simp_all
  have "length (take ?s (drop inp (pk_buf p))) = ?s" using s(1) by simp
  then have f: "filter (small min_size) (view_from (Suc m) i inp p) =
      (if ?s < min_size then [(take ?s (drop inp (pk_buf p)), pk_ecn p ! i)] else []) @ filter (small min_size) (view_from m (i + 1) (inp + ?s) p)"
    using view_from_Suc [OF i] by (simp add: small_def)
  show ?case
  proof (cases "?s < min_size")
    case True
    let ?q = "keep_packet i kept inp outp p"
    note kp = keep_packet_ok [OF 2(3) i 2(6,7) s(1)]
    have mv: "(if outp \<noteq> inp then memmove outp inp ?s (pk_buf p) else pk_buf p) = memmove outp inp ?s (pk_buf p)"
      using memmove_same [of ?s inp "pk_buf p"] s(1) by simp
    have "drop_loop min_size m (i + 1) (kept + 1) (inp + ?s) (outp + ?s) ?q = (k, q)"
      using 2(9) True mv by (simp add: Let_def keep_packet_def)
    then show ?thesis using 2(1) [OF refl True, unfolded mv, folded keep_packet_def] 2(3-7) s kp f True by simp
  next
    case False
    then show ?thesis using 2(2) [OF refl False] 2(3-9) s f by (simp add: Let_def)
  qed
qed (simp add: view_from_def)

lemma drop_packets_view:
  assumes "pk_wf p"
  shows "packets_of (snd (drop_packets_from k p)) = filter (small k) (packets_of p) \<and> pk_wf (snd (drop_packets_from k p)) \<and>
    fst (drop_packets_from k p) = length (packets_of p) - length (filter (small k) (packets_of p))"
proof -
  obtain kept q where d: "drop_loop k (n_pkts p) 0 0 0 0 p = (kept, q)" by fastforce
  have v: "view kept q = filter (small k) (packets_of p)" "kept \<le> n_pkts p" "sum_list (take kept (pk_size q)) \<le> length (pk_buf q)"
    "length (pk_size q) = length (pk_size p)" "length (pk_ecn q) = length (pk_ecn p)"
    using drop_loop_view [of 0 0 "n_pkts p" p 0 0 k kept q] assms d by (simp_all add: pk_wf_def view_def view_from_def packets_of_def)
  have "pk_wf (q\<lparr>n_pkts := kept\<rparr>)" using v assms by (simp add: pk_wf_def)
  moreover have "packets_of (q\<lparr>n_pkts := kept\<rparr>) = view kept q" by (simp add: packets_of_def view_def)
  ultimately show ?thesis
    using v(1) length_packets_of [OF assms] length_packets_of [of "q\<lparr>n_pkts := kept\<rparr>"] by (simp add: drop_packets_from_def d)
qed

section \<open>Accounting for every packet\<close>

text \<open>The packets \<open>xs\<close> are those sent, those dropped and those left, the order being kept.\<close>

definition accounts :: "packet list \<Rightarrow> packet list \<Rightarrow> packet list \<Rightarrow> packet list \<Rightarrow> bool" where
  "accounts xs sent dropped left \<longleftrightarrow> mset xs = mset sent + mset dropped + mset left \<and> subseq (sent @ left) xs"

lemma accounts_sent: "accounts (drop n xs) sent dropped left \<Longrightarrow> accounts xs (take n xs @ sent) dropped left"
proof -
  assume "accounts (drop n xs) sent dropped left"
  moreover have "mset xs = mset (take n xs) + mset (drop n xs)" by (metis append_take_drop_id mset_append)
  ultimately show ?thesis
    using list_emb_append_mono [of "(=)" "take n xs" "take n xs" "sent @ left" "drop n xs"] by (simp add: accounts_def ac_simps)
qed

lemma accounts_filter: "accounts (filter P xs) sent dropped left \<Longrightarrow> accounts xs sent (filter (\<lambda>x. \<not> P x) xs @ dropped) left"
proof -
  assume a: "accounts (filter P xs) sent dropped left"
  have m: "mset xs = mset (filter P xs) + mset (filter (\<lambda>x. \<not> P x) xs)" by (simp add: mset_filter multiset_partition)
  have f: "mset (filter P xs) = mset sent + mset dropped + mset left" using a unfolding accounts_def by blast
  have "mset xs = mset sent + (mset (filter (\<lambda>x. \<not> P x) xs) + mset dropped) + mset left" unfolding m f by (simp only: ac_simps)
  moreover have "subseq (sent @ left) xs" using a subseq_order.trans [OF _ subseq_filter_left] by (auto simp: accounts_def)
  ultimately show ?thesis by (simp add: accounts_def)
qed

lemma accounts_trivial [simp]: "accounts xs [] [] xs" "accounts xs xs [] []" "accounts xs [] xs []"
  by (simp_all add: accounts_def)

definition send_ok :: "os_codes \<Rightarrow> send_state \<Rightarrow> io_result \<times> send_state \<Rightarrow> bool" where
  "send_ok os s r \<longleftrightarrow>
     (case r of (rv, s') \<Rightarrow> pk_wf (pkts s') \<and> (blocked os rv \<longleftrightarrow> n_pkts (pkts s') \<noteq> 0) \<and>
        (\<exists>sent dropped. wire s' = wire s @ sent \<and> accounts (packets_of (pkts s)) sent dropped (packets_of (pkts s'))))"

lemma after_send_view:
  assumes "pk_wf (pkts s)" "k \<le> n_pkts (pkts s)"
  shows "pk_wf (pkts (after_send k s)) \<and> packets_of (pkts (after_send k s)) = drop k (packets_of (pkts s)) \<and>
    wire (after_send k s) = wire s @ take k (packets_of (pkts s))"
  using shift_unsent_view [OF assms] by (simp add: after_send_def)

lemma send_ok_sent:
  assumes "pk_wf (pkts s)" "k \<le> n_pkts (pkts s)" "send_ok os (after_send k s) r"
  shows "send_ok os s r"
proof -
  obtain rv s' where r: "r = (rv, s')" by fastforce
  obtain sent dropped where "wire s' = wire (after_send k s) @ sent"
    "accounts (packets_of (pkts (after_send k s))) sent dropped (packets_of (pkts s'))"
    using assms(3) r by (auto simp: send_ok_def)
  then have "wire s' = wire s @ take k (packets_of (pkts s)) @ sent"
    "accounts (packets_of (pkts s)) (take k (packets_of (pkts s)) @ sent) dropped (packets_of (pkts s'))"
    using after_send_view [OF assms(1,2)] accounts_sent by simp_all
  then show ?thesis using assms(3) r unfolding send_ok_def by blast
qed

lemma send_ok_dropped:
  assumes "pk_wf (pkts s)" "send_ok os (drop_too_big s) r"
  shows "send_ok os s r"
proof -
  let ?k = "pk_size (pkts s) ! 0"
  obtain rv s' where r: "r = (rv, s')" by fastforce
  have d: "packets_of (pkts (drop_too_big s)) = filter (small ?k) (packets_of (pkts s))" "wire (drop_too_big s) = wire s"
    using drop_packets_view [OF assms(1), of ?k] by (simp_all add: drop_too_big_def Let_def case_prod_unfold)
  then obtain sent dropped where "wire s' = wire s @ sent" "accounts (packets_of (pkts s)) sent dropped (packets_of (pkts s'))"
    using assms(2) r accounts_filter by (fastforce simp: send_ok_def)
  then show ?thesis using assms(2) r unfolding send_ok_def by blast
qed

lemma drop_too_big_wf: "pk_wf (pkts s) \<Longrightarrow> pk_wf (pkts (drop_too_big s))"
  using drop_packets_view by (simp add: drop_too_big_def Let_def case_prod_unfold)

lemma drop_rest_ok [simp]: "pk_wf (pkts (drop_rest s))" "n_pkts (pkts (drop_rest s)) = 0" "wire (drop_rest s) = wire s"
  by (simp_all add: drop_rest_def pk_wf_def)

lemma send_okI:
  "pk_wf (pkts s') \<Longrightarrow> (blocked os rv \<longleftrightarrow> n_pkts (pkts s') \<noteq> 0) \<Longrightarrow> wire s' = wire s @ sent \<Longrightarrow>
   accounts (packets_of (pkts s)) sent dropped (packets_of (pkts s')) \<Longrightarrow> send_ok os s (rv, s')"
  unfolding send_ok_def by blast

lemma send_ok_end:
  assumes "pk_wf (pkts s)"
  shows "n_pkts (pkts s) = 0 \<Longrightarrow> \<not> blocked os rv \<Longrightarrow> send_ok os s (rv, s)"
    "n_pkts (pkts s) \<noteq> 0 \<Longrightarrow> blocked os rv \<Longrightarrow> send_ok os s (rv, s)"
    "\<not> blocked os rv \<Longrightarrow> send_ok os s (rv, drop_rest (s\<lparr>drops := d\<rparr>))"
    "\<not> blocked os rv \<Longrightarrow> send_ok os s (rv, drop_rest s)"
  using assms send_okI [of s os rv s "[]" "[]"] send_okI [of "drop_rest s" os rv s "[]" "packets_of (pkts s)"]
    send_okI [of "drop_rest (s\<lparr>drops := d\<rparr>)" os rv s "[]" "packets_of (pkts s)"]
  by simp_all

lemma send_loop_result:
  assumes "posix_codes os"
  shows "pk_wf (pkts s) \<Longrightarrow> \<forall>k xs. snd (sock k xs) \<le> length xs \<Longrightarrow> \<exists>r. send_loop os sock retried s = Some r \<and> send_ok os s r"
  using assms
proof (induction os sock retried s rule: send_loop.induct)
  case (1 os sock retried s)
  obtain ret sent where r: "sock (calls s) (packets_of (pkts s)) = (ret, sent)" by fastforce
  have k: "sent \<le> n_pkts (pkts s)" using 1(4) r length_packets_of [OF 1(3)] by (metis snd_conv)
  let ?s = "after_send sent s"
  have nb: "\<not> blocked os io_result_ok" "blocked os (io_result_errno (EAGAIN os))"
    using 1(5) by (auto simp: blocked_def io_result_ok_def io_result_errno_def posix_codes_def)
  have wf: "pk_wf (pkts ?s)" using after_send_view [OF 1(3) k] by blast
  note bk = send_ok_sent [OF 1(3) k]
  have "\<exists>r. send_loop os sock retried s = Some r \<and> send_ok os ?s r"
  proof (cases "n_pkts (pkts ?s) = 0 \<or> blocked os ret")
    case True
    then show ?thesis using k r nb send_ok_end [OF wf] by (subst send_loop.simps) (auto simp: Let_def)
  next
    case rest: False
    show ?thesis
    proof (cases "too_big os ret")
      case True
      let ?d = "drop_too_big ?s"
      show ?thesis
      proof (cases "n_pkts (pkts ?d) = 0")
        case True
        then have "send_ok os ?d (io_result_ok, ?d)" using send_ok_end(1) [OF drop_too_big_wf [OF wf]] nb by simp
        then show ?thesis using send_ok_dropped [OF wf] rest True \<open>too_big os ret\<close> k r by (subst send_loop.simps) (simp add: Let_def)
      next
        case False
        then obtain r' where r': "send_loop os sock False ?d = Some r'" "send_ok os ?d r'"
          using 1(1) [OF r [symmetric] refl _ refl _ _ \<open>too_big os ret\<close> refl False] rest k drop_too_big_wf [OF wf] 1(4,5) by auto
        then show ?thesis using send_ok_dropped [OF wf r'(2)] rest False \<open>too_big os ret\<close> k r by (subst send_loop.simps) (simp add: Let_def)
      qed
    next
      case little: False
      show ?thesis
      proof (cases "no_buffers os ret \<or> unreachable os ret \<or> failure ret \<or> retried")
        case True
        then show ?thesis using little rest k r nb send_ok_end [OF wf] by (subst send_loop.simps) (auto simp: Let_def)
      next
        case False
        then obtain r' where r': "send_loop os sock True ?s = Some r'" "send_ok os ?s r'"
          using 1(2) [OF r [symmetric] refl _ refl _ _ little] rest k wf 1(4,5) by auto
        then show ?thesis using little rest False k r by (subst send_loop.simps) (simp add: Let_def)
      qed
    qed
  qed
  then show ?case using bk by blast
qed

section \<open>The stalled batch\<close>

definition sock_ok :: "(nat \<Rightarrow> packet list \<Rightarrow> io_result \<times> nat) \<Rightarrow> bool" where
  "sock_ok sock \<longleftrightarrow> (\<forall>k xs. snd (sock k xs) \<le> length xs)"

text \<open>
  The endpoint's connections flush, halt, and the socket becomes writable. A flush writes packets into the batch
  (the argument) and sends them, or waits if the batch is stalled.
\<close>

datatype batch_op =
    Flush "nat \<Rightarrow> packet list \<Rightarrow> io_result \<times> nat" nat pktbuf
  | Halt nat
  | Writeable "nat \<Rightarrow> packet list \<Rightarrow> io_result \<times> nat" "nat \<Rightarrow> bool"

fun batch_step :: "os_errors \<Rightarrow> batch_op \<Rightarrow> send_batch \<Rightarrow> send_batch option" where
  "batch_step os (Flush sock c p) b =
     (if stalled b then wait_for_send_stall c b
      else if n_packets b \<noteq> 0 then None
      else map_option snd (conn_send os (Socket sock) c (b\<lparr>batch_send := (batch_send b)\<lparr>pkts := p\<rparr>\<rparr>)))"
| "batch_step os (Halt c) b = Some (forget_send_stall c b)"
| "batch_step os (Writeable sock dead) b = resume_stalled_send os (Socket sock) dead b"

text \<open>The socket keeps its contract, and calls back only while something waits for it.\<close>

fun batch_ok :: "batch_op \<Rightarrow> send_batch \<Rightarrow> bool" where
  "batch_ok (Flush sock c p) b = (sock_ok sock \<and> pk_wf p \<and> 1 \<le> n_pkts p \<and> n_pkts p \<le> MAX_BATCH)"
| "batch_ok (Halt c) b = True"
| "batch_ok (Writeable sock dead) b = (sock_ok sock \<and> stalled b)"

definition line_ok :: "send_batch \<Rightarrow> bool" where
  "line_ok b \<longleftrightarrow> distinct (waiters b) \<and> set (waiters b) = waiting_on_stall b \<and> (\<forall>c. owner b = Some c \<longrightarrow> c \<notin> waiting_on_stall b)"

definition batch_inv :: "send_batch \<Rightarrow> bool" where
  "batch_inv b \<longleftrightarrow> line_ok b \<and> pk_wf (pkts (batch_send b)) \<and> n_packets b \<le> MAX_BATCH \<and>
     (if stalled b then n_packets b \<noteq> 0 else n_packets b = 0 \<and> owner b = None \<and> waiters b = [])"

definition batch_ctor :: send_batch where
  "batch_ctor =
     \<lparr>batch_send = \<lparr>pkts = \<lparr>pk_buf = [], pk_size = [], pk_ecn = [], n_pkts = 0\<rparr>,
        drops = \<lparr>too_big_drops = 0, no_buffer_drops = 0, unreachable_drops = 0\<rparr>, too_big_size = None, wire = [], calls = 0\<rparr>,
      stalled = False, owner = None, waiters = [], waiting_on_stall = {}, batch_out = []\<rparr>"

lemma batch_emit_fields [simp]:
  "batch_send (batch_emit x b) = batch_send b" "stalled (batch_emit x b) = stalled b" "owner (batch_emit x b) = owner b"
  "waiters (batch_emit x b) = waiters b" "waiting_on_stall (batch_emit x b) = waiting_on_stall b"
  "batch_out (batch_emit x b) = batch_out b @ [x]"
  by (simp_all add: batch_emit_def)

lemma accounts_length: "accounts xs sent dropped left \<Longrightarrow> length left \<le> length xs"
proof -
  assume "accounts xs sent dropped left"
  then have "subseq (sent @ left) xs" by (simp add: accounts_def)
  from list_emb_length [OF this] show ?thesis by simp
qed

text \<open>A send of the batch changes only its packets, and logs at most the size refused.\<close>

lemma batch_send_result:
  assumes "posix_codes (os_codes.truncate os)" "sock_ok sock" "pk_wf (pkts (batch_send b))" "n_packets b \<noteq> 0" "n_packets b \<le> MAX_BATCH"
  shows "\<exists>rv b' zs. batch_send_packets os (Socket sock) c b = Some (rv, b') \<and> pk_wf (pkts (batch_send b')) \<and>
    n_packets b' \<le> MAX_BATCH \<and> (blocked (os_codes.truncate os) rv \<longleftrightarrow> n_packets b' \<noteq> 0) \<and>
    stalled b' = stalled b \<and> owner b' = owner b \<and> waiters b' = waiters b \<and> waiting_on_stall b' = waiting_on_stall b \<and>
    batch_out b' = batch_out b @ zs"
proof -
  let ?s = "(batch_send b)\<lparr>too_big_size := Some 0\<rparr>"
  obtain rv s' where r: "send_loop (os_codes.truncate os) sock False ?s = Some (rv, s')" "send_ok (os_codes.truncate os) ?s (rv, s')"
    using send_loop_result [OF assms(1), of ?s sock False] assms(2,3) by (auto simp: sock_ok_def)
  have "length (packets_of (pkts s')) \<le> length (packets_of (pkts ?s))" using r(2) accounts_length by (fastforce simp: send_ok_def)
  then have "n_pkts (pkts s') \<le> MAX_BATCH" using r(2) length_packets_of assms(3,5) by (auto simp: send_ok_def)
  then show ?thesis
    using r assms(4,5)
    by (auto simp: batch_send_packets_def send_packets_def send_ok_def Let_def batch_emit_def split: option.splits)
qed

definition finished :: "nat option \<Rightarrow> send_batch \<Rightarrow> send_batch" where
  "finished own b =
     (let b = clear_packets b; ws = waiters b;
          b = b\<lparr>stalled := False, owner := None, waiters := [], waiting_on_stall := waiting_on_stall b - set ws,
                batch_out := batch_out b @ map PacketIoReady ws\<rparr>
      in case own of None \<Rightarrow> b | Some c \<Rightarrow> batch_emit (PacketIoReady c) b)"

lemma resume_eq:
  "resume_stalled_send os tr dead b =
     (if \<not> stalled b then None
      else case owner b of
             None \<Rightarrow> Some (finished None b)
           | Some c \<Rightarrow>
               if dead c then Some (finished (Some c) b)
               else (case batch_send_packets os tr c b of
                       None \<Rightarrow> None
                     | Some (rv, b) \<Rightarrow>
                         if blocked (os_codes.truncate os) rv then Some (batch_emit WhenWriteable b)
                         else if unreachable (os_codes.truncate os) rv then Some (finished (Some c) (batch_emit (SendUnreachable c) b))
                         else if failure rv then Some (finished (Some c) (batch_emit (DropConnection c CONN_SEND_FAIL) b))
                         else Some (finished (Some c) b)))"
  by (simp add: resume_stalled_send_def finished_def Let_def split: option.splits prod.splits)

lemma finished_inv:
  assumes "line_ok b"
  shows "batch_inv (finished own b)"
  using assms by (cases own) (simp_all add: finished_def batch_inv_def line_ok_def clear_packets_def Let_def)

lemma finished_out: "batch_out (finished own b) = batch_out b @ map PacketIoReady (waiters b @ (case own of None \<Rightarrow> [] | Some c \<Rightarrow> [c]))"
  by (cases own) (simp_all add: finished_def clear_packets_def Let_def)

text \<open>What a step does: it keeps the invariant, appends to the log, and keeps whoever is in line there or wakes them.\<close>

definition in_line :: "nat \<Rightarrow> send_batch \<Rightarrow> bool" where
  "in_line c b \<longleftrightarrow> owner b = Some c \<or> c \<in> set (waiters b)"

definition steps_to :: "nat set \<Rightarrow> send_batch \<Rightarrow> send_batch \<Rightarrow> bool" where
  "steps_to halted b b' \<longleftrightarrow> batch_inv b' \<and> (\<exists>zs. batch_out b' = batch_out b @ zs \<and>
     (\<forall>c. in_line c b \<and> c \<notin> halted \<longrightarrow> in_line c b' \<or> PacketIoReady c \<in> set zs))"

lemma steps_toI:
  "batch_inv b' \<Longrightarrow> batch_out b' = batch_out b @ zs \<Longrightarrow>
   (\<And>c. in_line c b \<Longrightarrow> c \<notin> halted \<Longrightarrow> in_line c b' \<or> PacketIoReady c \<in> set zs) \<Longrightarrow> steps_to halted b b'"
  unfolding steps_to_def by blast

lemma finished_steps:
  assumes "line_ok b'" "owner b' = owner b" "waiters b' = waiters b" "batch_out b' = batch_out b @ zs"
  shows "steps_to {} b (finished (owner b) b')"
proof (rule steps_toI)
  show "batch_inv (finished (owner b) b')" by (rule finished_inv [OF assms(1)])
  show "batch_out (finished (owner b) b') =
      batch_out b @ zs @ map PacketIoReady (waiters b @ (case owner b of None \<Rightarrow> [] | Some c \<Rightarrow> [c]))"
    by (simp add: finished_out assms)
qed (auto simp: in_line_def)

lemma resume_steps:
  assumes "posix_codes (os_codes.truncate os)" "batch_inv b" "sock_ok sock" "stalled b"
  shows "\<exists>b'. resume_stalled_send os (Socket sock) dead b = Some b' \<and> steps_to {} b b'"
proof -
  have b: "line_ok b" "pk_wf (pkts (batch_send b))" "n_packets b \<noteq> 0" "n_packets b \<le> MAX_BATCH"
    using assms(2,4) by (simp_all add: batch_inv_def)
  show ?thesis
  proof (cases "owner b")
    case None
    then show ?thesis using finished_steps [of b b "[]"] b assms(4) by (simp add: resume_eq)
  next
    case (Some c)
    show ?thesis
    proof (cases "dead c")
      case True
      then show ?thesis using finished_steps [of b b "[]"] b assms(4) Some by (simp add: resume_eq)
    next
      case False
      obtain rv b' zs where r: "batch_send_packets os (Socket sock) c b = Some (rv, b')" "pk_wf (pkts (batch_send b'))"
        "n_packets b' \<le> MAX_BATCH" "blocked (os_codes.truncate os) rv \<longleftrightarrow> n_packets b' \<noteq> 0"
        "stalled b' = stalled b" "owner b' = owner b" "waiters b' = waiters b" "waiting_on_stall b' = waiting_on_stall b"
        "batch_out b' = batch_out b @ zs" using batch_send_result [OF assms(1,3) b(2-4), of c] by blast
      have l: "line_ok b'" using b(1) r by (simp add: line_ok_def)
      show ?thesis
      proof (cases "blocked (os_codes.truncate os) rv")
        case True
        have "steps_to {} b (batch_emit WhenWriteable b')"
          by (rule steps_toI [where zs = "zs @ [WhenWriteable]"]) (use l r True assms(4) in \<open>simp_all add: batch_inv_def line_ok_def in_line_def\<close>)
        then show ?thesis using True False Some r(1) assms(4) by (simp add: resume_eq)
      next
        case nb: False
        note f = finished_steps [of _ b, unfolded Some]
        have "steps_to {} b (finished (Some c) (batch_emit (SendUnreachable c) b'))"
          "steps_to {} b (finished (Some c) (batch_emit (DropConnection c CONN_SEND_FAIL) b'))" "steps_to {} b (finished (Some c) b')"
          using f [of "batch_emit (SendUnreachable c) b'" "zs @ [SendUnreachable c]"] f [of b' zs]
            f [of "batch_emit (DropConnection c CONN_SEND_FAIL) b'" "zs @ [DropConnection c CONN_SEND_FAIL]"] l r Some
          by (simp_all add: line_ok_def)
        then show ?thesis using nb False Some r(1) assms(4) by (simp add: resume_eq)
      qed
    qed
  qed
qed

lemma flush_steps:
  assumes "posix_codes (os_codes.truncate os)" "batch_inv b" "batch_ok (Flush sock c p) b"
  shows "\<exists>b'. batch_step os (Flush sock c p) b = Some b' \<and> steps_to {} b b' \<and> (stalled b' \<longrightarrow> in_line c b')"
proof (cases "stalled b")
  case True
  let ?w = "b\<lparr>waiting_on_stall := insert c (waiting_on_stall b), waiters := waiters b @ [c]\<rparr>"
  have l: "line_ok b" using assms(2) by (simp add: batch_inv_def)
  show ?thesis
  proof (cases "owner b = Some c \<or> c \<in> waiting_on_stall b")
    case True
    have "steps_to {} b b" by (rule steps_toI [where zs = "[]"]) (use assms(2) in simp_all)
    then show ?thesis using True \<open>stalled b\<close> l by (auto simp: wait_for_send_stall_def in_line_def line_ok_def)
  next
    case False
    then have "line_ok ?w" using l by (auto simp: line_ok_def)
    then have "batch_inv ?w" using assms(2) \<open>stalled b\<close> by (simp add: batch_inv_def)
    then have "steps_to {} b ?w" by (rule steps_toI [where zs = "[]"]) (auto simp: in_line_def)
    then show ?thesis using False \<open>stalled b\<close> by (simp add: wait_for_send_stall_def in_line_def)
  qed
next
  case False
  let ?b = "b\<lparr>batch_send := (batch_send b)\<lparr>pkts := p\<rparr>\<rparr>"
  have b: "line_ok b" "n_packets b = 0" "owner b = None" "waiters b = []" using assms(2) False by (simp_all add: batch_inv_def)
  have p: "sock_ok sock" "pk_wf p" "n_pkts p \<noteq> 0" "n_pkts p \<le> MAX_BATCH" using assms(3) by simp_all
  obtain rv b' zs where r: "batch_send_packets os (Socket sock) c ?b = Some (rv, b')" "pk_wf (pkts (batch_send b'))"
    "n_packets b' \<le> MAX_BATCH" "blocked (os_codes.truncate os) rv \<longleftrightarrow> n_packets b' \<noteq> 0"
    "stalled b' = stalled b" "owner b' = owner b" "waiters b' = waiters b" "waiting_on_stall b' = waiting_on_stall b"
    "batch_out b' = batch_out b @ zs" using batch_send_result [OF assms(1) p(1), of ?b c] p by auto
  have nobody: "\<not> in_line k b" for k using b by (simp add: in_line_def)
  show ?thesis
  proof (cases "blocked (os_codes.truncate os) rv")
    case True
    let ?d = "batch_emit WhenWriteable (b'\<lparr>stalled := True, owner := Some c\<rparr>)"
    have "batch_inv ?d" using r b True by (simp add: batch_inv_def line_ok_def)
    then have "steps_to {} b ?d" by (rule steps_toI [where zs = "zs @ [WhenWriteable]"]) (use r nobody in simp_all)
    then show ?thesis using True False b r p by (simp add: conn_send_def stall_send_def in_line_def)
  next
    case nb: False
    have i: "batch_inv b'" using r b nb False by (simp add: batch_inv_def line_ok_def)
    then have j: "batch_inv (batch_emit x b')" for x by (simp add: batch_inv_def line_ok_def)
    have "steps_to {} b b'" "steps_to {} b (batch_emit x b')" "steps_to {} b (batch_emit x (batch_emit y b'))" for x y
      using steps_toI [of b' b zs "{}"] steps_toI [of "batch_emit x b'" b "zs @ [x]" "{}"] nobody r(9)
        steps_toI [of "batch_emit x (batch_emit y b')" b "zs @ [y, x]" "{}"] j i by (simp_all add: batch_inv_def line_ok_def)
    then show ?thesis using nb False b r p by (auto simp: conn_send_def)
  qed
qed

lemma halt_steps:
  assumes "batch_inv b"
  shows "steps_to {c} b (forget_send_stall c b) \<and> \<not> in_line c (forget_send_stall c b)"
proof -
  let ?f = "forget_send_stall c b"
  have l: "distinct (waiters b)" "set (waiters b) = waiting_on_stall b" "\<forall>c. owner b = Some c \<longrightarrow> c \<notin> waiting_on_stall b"
    using assms by (simp_all add: batch_inv_def line_ok_def)
  have fl: "c \<notin> waiting_on_stall b \<Longrightarrow> filter (\<lambda>x. x \<noteq> c) (waiters b) = waiters b" using l(2) by (auto simp: filter_id_conv)
  have f: "waiters ?f = filter (\<lambda>x. x \<noteq> c) (waiters b)" "waiting_on_stall ?f = waiting_on_stall b - {c}"
    "owner ?f = (if owner b = Some c then None else owner b)" "batch_out ?f = batch_out b" "stalled ?f = stalled b" "batch_send ?f = batch_send b"
    using l(2) fl by (auto simp: forget_send_stall_def Let_def)
  have "batch_inv ?f" using assms l f by (auto simp: batch_inv_def line_ok_def)
  then have "steps_to {c} b ?f" by (rule steps_toI [where zs = "[]"]) (auto simp: f in_line_def)
  then show ?thesis using f by (simp add: in_line_def)
qed

fun halted_by :: "batch_op \<Rightarrow> nat set" where
  "halted_by (Halt c) = {c}"
| "halted_by _ = {}"

lemma batch_step_steps:
  assumes "posix_codes (os_codes.truncate os)" "batch_inv b" "batch_ok x b"
  shows "\<exists>b'. batch_step os x b = Some b' \<and> steps_to (halted_by x) b b'"
proof (cases x)
  case (Flush sock c p)
  then show ?thesis using flush_steps [OF assms(1,2), of sock c p] assms(3) by fastforce
next
  case (Writeable sock dead)
  then show ?thesis using resume_steps [OF assms(1,2), of sock dead] assms(3) by simp
qed (use halt_steps [OF assms(2)] in simp)

text \<open>The codes of a POSIX system other than those of \<open>os_codes\<close> do not matter here.\<close>

definition batch_ops_ok :: "os_errors \<Rightarrow> batch_op \<Rightarrow> send_batch \<Rightarrow> bool" where
  "batch_ops_ok os x b \<longleftrightarrow> posix_codes (os_codes.truncate os) \<and> batch_ok x b"

interpretation batch_sys: op_system "batch_step os" "batch_ops_ok os" batch_inv for os
  by unfold_locales (use batch_step_steps in \<open>fastforce simp: batch_ops_ok_def steps_to_def\<close>)

lemma batch_ctor_inv: "batch_inv batch_ctor"
  by (simp add: batch_ctor_def batch_inv_def line_ok_def pk_wf_def)

lemma run_wakes:
  assumes "batch_inv b" "in_line c b" "ops_ok (batch_step os) (batch_ops_ok os) ys b" "run_ops (batch_step os) ys b = Some b'"
    "Halt c \<notin> set ys"
  shows "\<exists>zs. batch_out b' = batch_out b @ zs \<and> (in_line c b' \<or> PacketIoReady c \<in> set zs)"
  using assms
proof (induction ys arbitrary: b)
  case (Cons y ys)
  obtain d where d: "batch_step os y b = Some d" "steps_to (halted_by y) b d"
    using batch_step_steps [of os b y] Cons(2,4) by (auto simp: batch_ops_ok_def)
  then obtain zs where z: "batch_out d = batch_out b @ zs" "in_line c d \<or> PacketIoReady c \<in> set zs" and inv: "batch_inv d"
    using Cons(3,6) by (cases y) (auto simp: steps_to_def)
  have r: "run_ops (batch_step os) ys d = Some b'" "ops_ok (batch_step os) (batch_ops_ok os) ys d" using Cons(4,5) d(1) by simp_all
  show ?case
  proof (cases "in_line c d")
    case True
    then show ?thesis using Cons(1) [OF inv True r(2,1)] Cons(6) z(1) by auto
  next
    case False
    have "\<exists>zs. batch_out b' = batch_out d @ zs" using inv r
    proof (induction ys arbitrary: d)
      case (Cons y ys)
      obtain e where e: "batch_step os y d = Some e" "steps_to (halted_by y) d e"
        using batch_step_steps [of os d y] Cons(2,4) by (auto simp: batch_ops_ok_def)
      then obtain zs where "batch_out e = batch_out d @ zs" "batch_inv e" by (auto simp: steps_to_def)
      then show ?case using Cons(1) [of e] Cons(3,4) e(1) by auto
    qed simp
    then show ?thesis using False z by auto
  qed
qed simp

text \<open>A POSIX system's codes, and a socket that refuses the first packet as too big, sends one and then blocks.\<close>

definition linux_errors :: os_errors where
  "linux_errors = \<lparr>EAGAIN = 11, EWOULDBLOCK = 11, EMSGSIZE = 90, ENOBUFS = 105, ENETUNREACH = 101, EHOSTUNREACH = 113,
     ENETDOWN = 100, NGTCP2_ERR_STREAM_DATA_BLOCKED = - 210, EIO = 5, EBADF = 9\<rparr>"

definition fussy_socket :: "nat \<Rightarrow> packet list \<Rightarrow> io_result \<times> nat" where
  "fussy_socket k xs =
     (if k = 0 then (io_result_errno 90, 0) else if k = 1 then (io_result_ok, min 1 (length xs)) else (io_result_errno 11, 0))"

definition three_packets :: pktbuf where
  "three_packets = \<lparr>pk_buf = [1, 2, 3, 4, 5, 6], pk_size = [3, 1, 2], pk_ecn = [0, 1, 2], n_pkts = 3\<rparr>"

definition full_socket :: "nat \<Rightarrow> packet list \<Rightarrow> io_result \<times> nat" where
  "full_socket k xs = (io_result_errno 11, 0)"

lemma linux_posix: "posix_codes (os_codes.truncate linux_errors)"
  by (simp add: linux_errors_def os_codes.truncate_def posix_codes_def)

lemma fussy_sent: "snd (fussy_socket k xs) \<le> length xs"
  by (simp add: fussy_socket_def)

text \<open>
  When the application's packet router throws, the packets stay counted in the shared batch, which is not stalled: the
  next flush starts with a batch that is not empty.
\<close>

lemma manual_routing_failure:
  assumes "n_packets b \<noteq> 0" "n_packets b \<le> MAX_BATCH" "pk_wf (pkts (batch_send b))" "\<And>xs. throws xs"
    "\<not> blocked (os_codes.truncate os) (io_result_errno (EIO os))" "\<not> unreachable (os_codes.truncate os) (io_result_errno (EIO os))" "EIO os \<noteq> 0"
  shows "\<exists>b'. conn_send os (ManualRouting throws) c b = Some (False, b') \<and> n_packets b' = n_packets b \<and> stalled b' = stalled b"
proof -
  let ?s = "(batch_send b)\<lparr>too_big_size := Some 0\<rparr>"
  obtain x xs where x: "packets_of (pkts ?s) = x # xs" using assms(1) length_packets_of [OF assms(3)] by (cases "packets_of (pkts ?s)") auto
  have "failure (io_result_errno (EIO os))" using assms(7) by (simp add: failure_def success_def io_result_errno_def)
  then show ?thesis
    using assms x by (simp add: conn_send_def batch_send_packets_def send_packets_def Let_def batch_emit_def)
qed

section \<open>Properties\<close>

text \<open>
  C35: sending a batch accounts for every packet. Whatever the socket does (send some, block, refuse packets as too big,
  have no buffers, no route, or fail), the loop ends; each packet was handed to the kernel, or dropped, or is still in
  the buffer; those sent and those left are in their order; and packets are left exactly when the socket is blocked.
\<close>

theorem send_packets_accounts:
  assumes "posix_codes (os_codes.truncate os)" "\<And>k xs. snd (sock k xs) \<le> length xs"
    "n_pkts (pkts s) \<le> length (pk_size (pkts s))" "n_pkts (pkts s) \<le> length (pk_ecn (pkts s))"
    "sum_list (take (n_pkts (pkts s)) (pk_size (pkts s))) \<le> length (pk_buf (pkts s))" "1 \<le> n_pkts (pkts s)" "n_pkts (pkts s) \<le> MAX_BATCH"
  shows "\<exists>rv s' sent dropped. send_packets os (Socket sock) s = Some (rv, s') \<and> wire s' = wire s @ sent \<and>
    mset (packets_of (pkts s)) = mset sent + mset dropped + mset (packets_of (pkts s')) \<and>
    subseq (sent @ packets_of (pkts s')) (packets_of (pkts s)) \<and>
    (packets_of (pkts s') \<noteq> [] \<longleftrightarrow> blocked (os_codes.truncate os) rv)"
proof -
  have wf: "pk_wf (pkts s)" using assms(3-5) by (simp add: pk_wf_def)
  obtain rv s' where r: "send_loop (os_codes.truncate os) sock False s = Some (rv, s')" "send_ok (os_codes.truncate os) s (rv, s')"
    using send_loop_result [OF assms(1) wf, of sock False] assms(2) by auto
  then have "packets_of (pkts s') \<noteq> [] \<longleftrightarrow> blocked (os_codes.truncate os) rv"
    using length_packets_of [of "pkts s'"] by (auto simp: send_ok_def)
  then show ?thesis using r assms(6,7) by (auto simp: send_packets_def send_ok_def accounts_def)
qed

theorem send_packets_accounts_witness:
  "\<exists>rv s' sent dropped. send_packets linux_errors (Socket fussy_socket) ((batch_send batch_ctor)\<lparr>pkts := three_packets\<rparr>) = Some (rv, s') \<and>
    mset (packets_of three_packets) = mset sent + mset dropped + mset (packets_of (pkts s')) \<and>
    (packets_of (pkts s') \<noteq> [] \<longleftrightarrow> blocked (os_codes.truncate linux_errors) rv)"
proof -
  let ?s = "(batch_send batch_ctor)\<lparr>pkts := three_packets\<rparr>"
  have p: "n_pkts (pkts ?s) \<le> length (pk_size (pkts ?s))" "n_pkts (pkts ?s) \<le> length (pk_ecn (pkts ?s))"
    "sum_list (take (n_pkts (pkts ?s)) (pk_size (pkts ?s))) \<le> length (pk_buf (pkts ?s))" "1 \<le> n_pkts (pkts ?s)" "n_pkts (pkts ?s) \<le> MAX_BATCH"
    by (simp_all add: three_packets_def MAX_BATCH_def)
  have "packets_of three_packets = packets_of (pkts ?s)" by simp
  then show ?thesis using send_packets_accounts [of linux_errors fussy_socket ?s, OF linux_posix fussy_sent p] by metis
qed

text \<open>
  C36: no connection that could not send is forgotten. If a flush leaves the endpoint's batch stalled, then at every later
  time, whatever the other connections and the socket do, that connection is still in line (as the owner of the
  stalled packets or among the waiters) or has been told to send, unless it was halted meanwhile.
\<close>

theorem stalled_connections_wake:
  assumes "ops_ok (batch_step os) (batch_ops_ok os) (xs @ Flush sock c p # ys) batch_ctor"
    "run_ops (batch_step os) (xs @ [Flush sock c p]) batch_ctor = Some b" "stalled b"
    "run_ops (batch_step os) ys b = Some b'" "Halt c \<notin> set ys"
  shows "(owner b' = Some c \<or> c \<in> set (waiters b')) \<or> PacketIoReady c \<in> set (drop (length (batch_out b)) (batch_out b'))"
proof -
  obtain a where a: "run_ops (batch_step os) xs batch_ctor = Some a" "batch_step os (Flush sock c p) a = Some b"
    using assms(2) by (auto simp: run_ops_append split: option.splits)
  have ok: "ops_ok (batch_step os) (batch_ops_ok os) xs batch_ctor \<and> ops_ok (batch_step os) (batch_ops_ok os) (Flush sock c p # ys) a"
    using assms(1) a(1) by (simp only: ops_ok_append) simp
  have ia: "batch_inv a" using batch_sys.run_result [OF batch_ctor_inv] ok a(1) by blast
  have "posix_codes (os_codes.truncate os)" "batch_ok (Flush sock c p) a" using ok by (simp_all add: batch_ops_ok_def)
  from flush_steps [OF this(1) ia this(2)] have "batch_inv b" "in_line c b" using a(2) assms(3) by (auto simp: steps_to_def)
  moreover have "ops_ok (batch_step os) (batch_ops_ok os) ys b" using ok a(2) by simp
  ultimately obtain zs where "batch_out b' = batch_out b @ zs" "in_line c b' \<or> PacketIoReady c \<in> set zs"
    using run_wakes assms(4,5) by blast
  then show ?thesis by (simp add: in_line_def)
qed

theorem stalled_connections_wake_witness:
  "\<exists>b b'. run_ops (batch_step linux_errors) [Flush full_socket 7 three_packets] batch_ctor = Some b \<and>
    run_ops (batch_step linux_errors) [Flush full_socket 8 three_packets, Writeable full_socket (\<lambda>c. True)] b = Some b' \<and>
    ((owner b' = Some 7 \<or> 7 \<in> set (waiters b')) \<or> PacketIoReady 7 \<in> set (drop (length (batch_out b)) (batch_out b')))"
proof -
  let ?f = "Flush full_socket 7 three_packets" and ?ys = "[Flush full_socket 8 three_packets, Writeable full_socket (\<lambda>c. True)]"
  have ok: "sock_ok full_socket" "pk_wf three_packets" "1 \<le> n_pkts three_packets" "n_pkts three_packets \<le> MAX_BATCH"
    by (simp_all add: sock_ok_def full_socket_def three_packets_def pk_wf_def MAX_BATCH_def)
  have "map_option stalled (batch_step linux_errors ?f batch_ctor) = Some True"
    by (simp add: conn_send_def batch_send_packets_def send_packets_def send_loop.simps full_socket_def batch_ctor_def three_packets_def
        MAX_BATCH_def linux_errors_def os_codes.truncate_def after_send_def shift_unsent_def blocked_def io_result_errno_def Let_def
        stall_send_def batch_emit_def)
  then obtain b where b: "batch_step linux_errors ?f batch_ctor = Some b" "stalled b" by auto
  have ib: "batch_inv b"
    using batch_sys.run_result [OF batch_ctor_inv, of linux_errors "[?f]" b] b(1) ok linux_posix by (simp add: batch_ops_ok_def)
  obtain d where d: "batch_step linux_errors (Flush full_socket 8 three_packets) b = Some d" "stalled d"
    using b(2) by (cases "owner b = Some 8 \<or> 8 \<in> waiting_on_stall b") (auto simp: wait_for_send_stall_def)
  obtain b' where b': "batch_step linux_errors (Writeable full_socket (\<lambda>c. True)) d = Some b'"
    using d(2) by (cases "owner d") (simp_all add: resume_eq)
  have "ops_ok (batch_step linux_errors) (batch_ops_ok linux_errors) ([] @ ?f # ?ys) batch_ctor"
    using b d b' ok linux_posix by (simp add: batch_ops_ok_def)
  then show ?thesis
    using stalled_connections_wake [of linux_errors "[]" full_socket 7 three_packets ?ys b b'] b d b' by simp
qed

end
