(* ===== verification/Endpoint_Tables.thy ===== *)
theory Endpoint_Tables
  imports Endpoint Send_Batch_Correct
begin

text \<open>
  Correctness of \<open>Endpoint\<close>: the tables stay exact under every sequence of operations, the lookup cache changes no
  result, a closed connection leaves nothing behind and its close callback runs once, and stateless resets end.
\<close>

section \<open>Tables\<close>

definition live :: "(rid \<times> connection option) list \<Rightarrow> rid \<Rightarrow> connection option" where
  "live cs rid = Option.bind (map_of cs rid) id"

lemma conn_at_live: "conn_at rid ep = live (conns ep) rid"
  by (simp add: conn_at_def live_def split: option.split)

lemma live_update [simp]: "live (AList.update rid p cs) r = (if r = rid then p else live cs r)"
  by (simp add: live_def update_conv')

lemma live_delete [simp]: "live (AList.delete rid cs) r = (if r = rid then None else live cs r)"
  by (simp add: live_def delete_conv')

definition owns_cid :: "(rid \<times> connection option) list \<Rightarrow> rid \<Rightarrow> cid \<Rightarrow> bool" where
  "owns_cid cs rid i = (case live cs rid of None \<Rightarrow> False | Some c \<Rightarrow> i \<in> set (associated_cids c))"

definition owns_reset :: "(rid \<times> connection option) list \<Rightarrow> rid \<Rightarrow> bytes \<Rightarrow> bool" where
  "owns_reset cs rid h = (case live cs rid of None \<Rightarrow> False | Some c \<Rightarrow> h \<in> set (associated_resets c))"

definition conns_ok :: "nat \<Rightarrow> (rid \<times> connection option) list \<Rightarrow> bool" where
  "conns_ok n cs \<longleftrightarrow>
     distinct (map fst cs) \<and> (\<forall>rid p. map_of cs rid = Some p \<longrightarrow> p \<noteq> None \<and> rid \<le> n \<and> pred_option connection_inv p)"

text \<open>
  The lookup table has exactly the ids of the live connections; every reset token is that of a live connection; what
  the cache remembers is in the lookup table.
\<close>

definition lookup_exact :: "(rid \<times> connection option) list \<Rightarrow> (cid \<times> rid) list \<Rightarrow> bool" where
  "lookup_exact cs lk \<longleftrightarrow> (\<forall>i rid. map_of lk i = Some rid \<longleftrightarrow> owns_cid cs rid i)"

definition resets_ok :: "(rid \<times> connection option) list \<Rightarrow> (bytes \<times> rid) list \<Rightarrow> bool" where
  "resets_ok cs rs \<longleftrightarrow> (\<forall>h rid. map_of rs h = Some rid \<longrightarrow> owns_reset cs rid h)"

definition cache_ok :: "(cid \<times> rid) list \<Rightarrow> (cid \<times> rid) option \<Rightarrow> bool" where
  "cache_ok lk ll \<longleftrightarrow> (case ll of None \<Rightarrow> True | Some (i, rid) \<Rightarrow> map_of lk i = Some rid)"

definition ep_inv :: "endpoint \<Rightarrow> bool" where
  "ep_inv ep \<longleftrightarrow>
     conns_ok (next_rid ep) (conns ep) \<and> lookup_exact (conns ep) (conn_lookup ep) \<and>
     resets_ok (conns ep) (reset_token_conns ep) \<and> cache_ok (conn_lookup ep) (last_lookup ep)"

lemma cache_ok_None [simp]: "cache_ok lk None"
  by (simp add: cache_ok_def)

lemma owns_update [simp]:
  "owns_cid (AList.update rid (Some c) cs) r i = (if r = rid then i \<in> set (associated_cids c) else owns_cid cs r i)"
  "owns_reset (AList.update rid (Some c) cs) r h = (if r = rid then h \<in> set (associated_resets c) else owns_reset cs r h)"
  by (simp_all add: owns_cid_def owns_reset_def)

lemma owns_delete [simp]:
  "owns_cid (AList.delete rid cs) r i = (r \<noteq> rid \<and> owns_cid cs r i)"
  "owns_reset (AList.delete rid cs) r h = (r \<noteq> rid \<and> owns_reset cs r h)"
  by (simp_all add: owns_cid_def owns_reset_def)

lemma conns_ok_update:
  "conns_ok n cs \<Longrightarrow> rid \<le> n \<Longrightarrow> connection_inv c \<Longrightarrow> conns_ok n (AList.update rid (Some c) cs)"
  by (auto simp: conns_ok_def distinct_update update_conv' split: if_splits)

lemma conns_ok_delete: "conns_ok n cs \<Longrightarrow> conns_ok n (AList.delete rid cs)"
  by (auto simp: conns_ok_def distinct_delete delete_conv' split: if_splits)

lemma conns_ok_mono: "conns_ok n cs \<Longrightarrow> conns_ok (n + k) cs"
  unfolding conns_ok_def by (metis trans_le_add1)

lemma conns_okD:
  "conns_ok n cs \<Longrightarrow> map_of cs rid = Some p \<Longrightarrow> p \<noteq> None \<and> rid \<le> n \<and> pred_option connection_inv p"
  unfolding conns_ok_def by blast

lemma conns_ok_live:
  assumes "conns_ok n cs" "live cs rid = Some c"
  shows "rid \<le> n \<and> connection_inv c"
proof -
  have "map_of cs rid = Some (Some c)" using assms(2) by (simp add: live_def bind_eq_Some_conv)
  from conns_okD [OF assms(1) this] show ?thesis by simp
qed

lemma conns_ok_none: "conns_ok n cs \<Longrightarrow> live cs rid = None \<Longrightarrow> map_of cs rid = None"
  using conns_okD [of n cs rid] by (cases "map_of cs rid") (simp_all add: live_def)

lemma conns_ok_fresh: "conns_ok n cs \<Longrightarrow> map_of cs (n + 1) = None"
  using conns_okD [of n cs "n + 1"] by (cases "map_of cs (n + 1)") simp_all

lemma owns_live: "owns_cid cs rid i \<Longrightarrow> \<exists>c. live cs rid = Some c \<and> i \<in> set (associated_cids c)"
  by (simp add: owns_cid_def split: option.splits)

lemma ep_inv_frame [simp]:
  "ep_inv (ep\<lparr>jobs := j\<rparr>) = ep_inv ep" "ep_inv (ep\<lparr>timers := t\<rparr>) = ep_inv ep" "ep_inv (ep\<lparr>batch := b\<rparr>) = ep_inv ep"
  "ep_inv (ep_emit x ep) = ep_inv ep" "ep_inv (ep\<lparr>path_validation_tokens := v\<rparr>) = ep_inv ep"
  "ep_inv (ep\<lparr>accepting_inbound := a\<rparr>) = ep_inv ep" "ep_inv (ep\<lparr>doomed := d\<rparr>) = ep_inv ep"
  by (simp_all add: ep_inv_def ep_emit_def)

lemma conn_at_frame [simp]:
  "conn_at r (ep\<lparr>jobs := j\<rparr>) = conn_at r ep" "conn_at r (ep\<lparr>timers := t\<rparr>) = conn_at r ep"
  "conn_at r (ep\<lparr>batch := b\<rparr>) = conn_at r ep" "conn_at r (ep_emit x ep) = conn_at r ep"
  "conn_at r (ep\<lparr>path_validation_tokens := v\<rparr>) = conn_at r ep" "conn_at r (ep\<lparr>conn_lookup := lk\<rparr>) = conn_at r ep"
  "conn_at r (ep\<lparr>last_lookup := ll\<rparr>) = conn_at r ep" "conn_at r (ep\<lparr>reset_token_conns := rs\<rparr>) = conn_at r ep"
  "conn_at r (ep\<lparr>accepting_inbound := a\<rparr>) = conn_at r ep" "conn_at r (ep\<lparr>next_rid := n\<rparr>) = conn_at r ep"
  "conn_at r (forget_last_lookup ep) = conn_at r ep" "conn_at r (schedule_conn_cleanup p q ep) = conn_at r ep"
  by (simp_all add: conn_at_def ep_emit_def forget_last_lookup_def schedule_conn_cleanup_def)

lemma conn_at_set [simp]: "conn_at r (set_conn rid c ep) = (if r = rid then Some c else conn_at r ep)"
  by (simp add: conn_at_live set_conn_def)

lemma set_conn_fields [simp]:
  "conn_lookup (set_conn rid c ep) = conn_lookup ep" "last_lookup (set_conn rid c ep) = last_lookup ep"
  "reset_token_conns (set_conn rid c ep) = reset_token_conns ep" "next_rid (set_conn rid c ep) = next_rid ep"
  "jobs (set_conn rid c ep) = jobs ep" "ep_out (set_conn rid c ep) = ep_out ep" "batch (set_conn rid c ep) = batch ep"
  "close_cb (set_conn rid c ep) = close_cb ep" "conns (set_conn rid c ep) = AList.update rid (Some c) (conns ep)"
  "accepting_inbound (set_conn rid c ep) = accepting_inbound ep" "doomed (set_conn rid c ep) = doomed ep"
  by (simp_all add: set_conn_def)

section \<open>Single changes\<close>

lemma ep_inv_conn: "ep_inv ep \<Longrightarrow> conn_at rid ep = Some c \<Longrightarrow> connection_inv c \<and> rid \<le> next_rid ep"
  using conns_ok_live by (auto simp: ep_inv_def conn_at_live)

text \<open>A change of a connection that keeps its ids.\<close>

definition same_ids :: "connection \<Rightarrow> connection \<Rightarrow> bool" where
  "same_ids c c' \<longleftrightarrow> associated_cids c' = associated_cids c \<and> associated_resets c' = associated_resets c"

lemma same_ids_refl [simp]: "same_ids c c"
  by (simp add: same_ids_def)

lemma same_ids_trans: "same_ids a b \<Longrightarrow> same_ids b c \<Longrightarrow> same_ids a c"
  by (simp add: same_ids_def)

lemma owns_same:
  assumes "live cs rid = Some c" "same_ids c c'"
  shows "owns_cid (AList.update rid (Some c') cs) = owns_cid cs" "owns_reset (AList.update rid (Some c') cs) = owns_reset cs"
  using assms by (auto simp: fun_eq_iff owns_cid_def owns_reset_def same_ids_def)

lemma ep_inv_set:
  assumes "ep_inv ep" "conn_at rid ep = Some c" "connection_inv c'" "same_ids c c'"
  shows "ep_inv (set_conn rid c' ep)"
proof -
  have l: "live (conns ep) rid = Some c" using assms(2) by (simp add: conn_at_live)
  show ?thesis
    using assms(1,3) ep_inv_conn [OF assms(1,2)]
    by (simp add: ep_inv_def owns_same [OF l assms(4)] lookup_exact_def resets_ok_def conns_ok_update)
qed

lemma ep_inv_on_conn:
  assumes "ep_inv ep" "conn_at rid ep = Some c" "connection_inv (f c)" "same_ids c (f c)"
  shows "on_conn rid f ep = Some (set_conn rid (f c) ep) \<and> ep_inv (set_conn rid (f c) ep)"
  using assms ep_inv_set [OF assms(1,2)] by (simp add: on_conn_def)

lemma connection_inv_ids [simp]:
  "connection_inv (store_associated_cid i c) = connection_inv c"
  "connection_inv (delete_associated_cid i c) = connection_inv c"
  "connection_inv (store_associated_reset h c) = connection_inv c"
  "connection_inv (delete_associated_reset h c) = connection_inv c"
  by (simp_all add: connection_inv_def route_inv_def asked_migration_def store_associated_cid_def delete_associated_cid_def
      store_associated_reset_def delete_associated_reset_def)

lemma stored_ids [simp]:
  "set (associated_cids (store_associated_cid i c)) = insert i (set (associated_cids c))"
  "associated_resets (store_associated_cid i c) = associated_resets c"
  "set (associated_cids (delete_associated_cid i c)) = set (associated_cids c) - {i}"
  "associated_resets (delete_associated_cid i c) = associated_resets c"
  "set (associated_resets (store_associated_reset h c)) = insert h (set (associated_resets c))"
  "associated_cids (store_associated_reset h c) = associated_cids c"
  "set (associated_resets (delete_associated_reset h c)) = set (associated_resets c) - {h}"
  "associated_cids (delete_associated_reset h c) = associated_cids c"
  by (auto simp: store_associated_cid_def delete_associated_cid_def store_associated_reset_def delete_associated_reset_def)

section \<open>What operations keep\<close>

definition ended :: "connection \<Rightarrow> bool" where
  "ended c \<longleftrightarrow> closing c \<or> draining c"

fun closes :: "rid \<Rightarrow> ep_call \<Rightarrow> bool" where
  "closes rid (ConnClosedCallback r _) = (r = rid)"
| "closes rid (EndpointClosedCallback r _) = (r = rid)"
| "closes rid _ = False"

definition closed_calls :: "rid \<Rightarrow> endpoint \<Rightarrow> nat" where
  "closed_calls rid ep = length (filter (closes rid) (ep_out ep))"

text \<open>
  Nothing is closed, no connection that was there stops being at its end, none comes under an old reference id.
\<close>

definition steady :: "endpoint \<Rightarrow> endpoint \<Rightarrow> bool" where
  "steady ep ep' \<longleftrightarrow>
     next_rid ep \<le> next_rid ep' \<and> (\<forall>rid. closed_calls rid ep' = closed_calls rid ep) \<and>
     (\<forall>rid c'. rid \<le> next_rid ep \<longrightarrow> conn_at rid ep' = Some c' \<longrightarrow>
        (\<exists>c. conn_at rid ep = Some c \<and> (ended c \<longrightarrow> ended c')))"

lemma steady_refl [simp]: "steady ep ep"
  by (simp add: steady_def)

lemma steady_trans: "steady a b \<Longrightarrow> steady b c \<Longrightarrow> steady a c"
  unfolding steady_def by (metis le_trans)

lemma steadyI:
  assumes "next_rid ep' = next_rid ep" "\<And>rid. closed_calls rid ep' = closed_calls rid ep" "\<And>rid. conn_at rid ep' = conn_at rid ep"
  shows "steady ep ep'"
  using assms by (simp add: steady_def)

lemma closed_calls_frame [simp]:
  "closed_calls r (ep\<lparr>jobs := j\<rparr>) = closed_calls r ep" "closed_calls r (ep\<lparr>timers := t\<rparr>) = closed_calls r ep"
  "closed_calls r (ep\<lparr>batch := b\<rparr>) = closed_calls r ep" "closed_calls r (ep\<lparr>path_validation_tokens := v\<rparr>) = closed_calls r ep"
  "closed_calls r (ep\<lparr>conn_lookup := lk\<rparr>) = closed_calls r ep" "closed_calls r (ep\<lparr>last_lookup := ll\<rparr>) = closed_calls r ep"
  "closed_calls r (ep\<lparr>reset_token_conns := rs\<rparr>) = closed_calls r ep" "closed_calls r (set_conn rid c ep) = closed_calls r ep"
  "closed_calls r (ep\<lparr>conns := cs\<rparr>) = closed_calls r ep" "closed_calls r (ep\<lparr>next_rid := n\<rparr>) = closed_calls r ep"
  "closed_calls r (ep\<lparr>accepting_inbound := a\<rparr>) = closed_calls r ep" "closed_calls r (ep\<lparr>doomed := d\<rparr>) = closed_calls r ep"
  "closed_calls r (forget_last_lookup ep) = closed_calls r ep" "closed_calls r (schedule_conn_cleanup p q ep) = closed_calls r ep"
  "closed_calls r (ep_emit x ep) = closed_calls r ep + of_bool (closes r x)"
  by (simp_all add: closed_calls_def ep_emit_def set_conn_def forget_last_lookup_def schedule_conn_cleanup_def)

lemma steady_set:
  assumes "conn_at rid ep = Some c" "ended c \<Longrightarrow> ended c'"
  shows "steady ep (set_conn rid c' ep)"
  using assms by (simp add: steady_def)

lemma next_rid_frame [simp]:
  "next_rid (forget_last_lookup ep) = next_rid ep" "next_rid (ep_emit x ep) = next_rid ep"
  "next_rid (schedule_conn_cleanup p q ep) = next_rid ep"
  by (simp_all add: forget_last_lookup_def ep_emit_def schedule_conn_cleanup_def)

text \<open>An operation on a connection succeeds, keeps the invariant and the connection, and is steady.\<close>

definition keeps :: "rid \<Rightarrow> endpoint \<Rightarrow> endpoint option \<Rightarrow> bool" where
  "keeps rid ep r \<longleftrightarrow> (\<exists>ep'. r = Some ep' \<and> ep_inv ep' \<and> steady ep ep' \<and> conn_at rid ep' \<noteq> None)"

lemma keepsI: "ep_inv ep' \<Longrightarrow> steady ep ep' \<Longrightarrow> conn_at rid ep' \<noteq> None \<Longrightarrow> keeps rid ep (Some ep')"
  by (simp add: keeps_def)

lemma keeps_set:
  assumes "ep_inv ep" "conn_at rid ep = Some c" "connection_inv c'" "same_ids c c'" "ended c \<Longrightarrow> ended c'"
  shows "keeps rid ep (Some (set_conn rid c' ep))"
  by (rule keepsI [OF ep_inv_set [OF assms(1-4)] steady_set [OF assms(2,5)]]) simp_all

lemma keeps_then:
  assumes "keeps rid ep r" "\<And>ep'. ep_inv ep' \<Longrightarrow> conn_at rid ep' \<noteq> None \<Longrightarrow> steady ep ep' \<Longrightarrow> r = Some ep' \<Longrightarrow> keeps rid ep' (f ep')"
  shows "keeps rid ep (case r of None \<Rightarrow> None | Some ep' \<Rightarrow> f ep')"
proof -
  obtain ep' where r: "r = Some ep'" "ep_inv ep'" "steady ep ep'" "conn_at rid ep' \<noteq> None" using assms(1) by (auto simp: keeps_def)
  then obtain ep'' where "f ep' = Some ep''" "ep_inv ep''" "steady ep' ep''" "conn_at rid ep'' \<noteq> None"
    using assms(2) [of ep'] by (auto simp: keeps_def)
  then show ?thesis using r steady_trans by (auto simp: keeps_def)
qed

section \<open>Ids and tokens\<close>

lemma ended_ids [simp]:
  "ended (store_associated_cid i c) = ended c" "ended (delete_associated_cid i c) = ended c"
  "ended (store_associated_reset h c) = ended c" "ended (delete_associated_reset h c) = ended c"
  by (simp_all add: ended_def store_associated_cid_def delete_associated_cid_def store_associated_reset_def
      delete_associated_reset_def)

lemma steady_update:
  assumes "conn_at rid ep = Some c" "ended c' = ended c" "next_rid ep' = next_rid ep" "conns ep' = conns ep" "ep_out ep' = ep_out ep"
  shows "steady ep (set_conn rid c' ep')"
proof -
  have "conn_at r ep' = conn_at r ep" for r using assms(4) by (simp add: conn_at_live)
  moreover have "closed_calls r ep' = closed_calls r ep" for r using assms(5) by (simp add: closed_calls_def)
  ultimately show ?thesis using assms by (simp add: steady_def)
qed

lemma resets_ok_change:
  assumes "resets_ok cs rs"
    "\<And>h r. map_of rs' h = Some r \<Longrightarrow> owns_reset cs' r h \<or> map_of rs h = Some r \<and> (owns_reset cs r h \<longrightarrow> owns_reset cs' r h)"
  shows "resets_ok cs' rs'"
  unfolding resets_ok_def using assms(1) [unfolded resets_ok_def] assms(2) by blast

lemma owns_reset_live: "live cs rid = Some c \<Longrightarrow> owns_reset cs rid h \<longleftrightarrow> h \<in> set (associated_resets c)"
  by (simp add: owns_reset_def)

lemma resets_ok_same:
  assumes "resets_ok cs rs" "live cs rid = Some c" "associated_resets c' = associated_resets c"
  shows "resets_ok (AList.update rid (Some c') cs) rs"
  by (rule resets_ok_change [OF assms(1)]) (simp add: assms(3) owns_reset_live [OF assms(2)])

lemma store_cid_inv:
  assumes "ep_inv ep" "conn_at rid ep = Some c" "map_of (conn_lookup ep) i = None"
  shows "ep_inv (set_conn rid (store_associated_cid i c) (ep\<lparr>conn_lookup := AList.update i rid (conn_lookup ep)\<rparr>))"
proof -
  have l: "live (conns ep) rid = Some c" using assms(2) by (simp add: conn_at_live)
  have ex: "lookup_exact (conns ep) (conn_lookup ep)" using assms(1) by (simp add: ep_inv_def)
  have no: "\<not> owns_cid (conns ep) r i" for r using ex assms(3) unfolding lookup_exact_def by (metis option.distinct(1))
  have "lookup_exact (AList.update rid (Some (store_associated_cid i c)) (conns ep)) (AList.update i rid (conn_lookup ep))"
    unfolding lookup_exact_def
  proof (intro allI)
    fix j r
    show "map_of (AList.update i rid (conn_lookup ep)) j = Some r \<longleftrightarrow>
        owns_cid (AList.update rid (Some (store_associated_cid i c)) (conns ep)) r j"
      using ex l no unfolding lookup_exact_def by (auto simp: update_conv' owns_cid_def)
  qed
  moreover have "resets_ok (AList.update rid (Some (store_associated_cid i c)) (conns ep)) (reset_token_conns ep)"
    using assms(1) by (intro resets_ok_same [OF _ l]) (simp_all add: ep_inv_def)
  moreover have "cache_ok (AList.update i rid (conn_lookup ep)) (last_lookup ep)"
    using assms(1,3) by (auto simp: ep_inv_def cache_ok_def update_conv' split: option.splits)
  ultimately show ?thesis using assms(1) ep_inv_conn [OF assms(1,2)] by (simp add: ep_inv_def conns_ok_update)
qed

lemma associate_keeps:
  assumes "ep_inv ep" "conn_at rid ep \<noteq> None" "map_of (conn_lookup ep) i = None \<or> weakly"
  shows "keeps rid ep (associate_cid i weakly rid ep)"
proof (cases "map_of (conn_lookup ep) i = None")
  case True
  obtain c where c: "conn_at rid ep = Some c" using assms(2) by blast
  have "keeps rid ep (Some (set_conn rid (store_associated_cid i c) (ep\<lparr>conn_lookup := AList.update i rid (conn_lookup ep)\<rparr>)))"
    by (rule keepsI [OF store_cid_inv [OF assms(1) c True] steady_update [OF c]]) simp_all
  then show ?thesis using True c by (simp add: associate_cid_def on_conn_def)
next
  case False
  then have "associate_cid i weakly rid ep = Some ep" using assms(3) by (auto simp: associate_cid_def Let_def)
  then show ?thesis using assms by (simp add: keepsI)
qed

lemma dissociate_inv:
  assumes "ep_inv ep" "conn_at rid ep = Some c" "i \<in> set (associated_cids c) \<or> map_of (conn_lookup ep) i = None"
  shows "ep_inv (set_conn rid (delete_associated_cid i c)
    (forget_last_lookup (ep\<lparr>conn_lookup := AList.delete i (conn_lookup ep)\<rparr>)))"
proof -
  have l: "live (conns ep) rid = Some c" using assms(2) by (simp add: conn_at_live)
  have ex: "map_of (conn_lookup ep) j = Some r \<longleftrightarrow> owns_cid (conns ep) r j" for j r
    using assms(1) by (simp add: ep_inv_def lookup_exact_def)
  have only: "owns_cid (conns ep) r i \<Longrightarrow> r = rid" for r
    using ex [of i r] ex [of i rid] assms(3) l by (auto simp: owns_cid_def)
  have "map_of (AList.delete i (conn_lookup ep)) j = Some r \<longleftrightarrow>
      owns_cid (AList.update rid (Some (delete_associated_cid i c)) (conns ep)) r j" for j r
    using ex [of j r] l only by (auto simp: delete_conv' owns_cid_def)
  moreover have "resets_ok (AList.update rid (Some (delete_associated_cid i c)) (conns ep)) (reset_token_conns ep)"
    using assms(1) by (intro resets_ok_same [OF _ l]) (simp_all add: ep_inv_def)
  ultimately show ?thesis
    using assms(1) ep_inv_conn [OF assms(1,2)]
    by (simp add: ep_inv_def conns_ok_update forget_last_lookup_def lookup_exact_def)
qed

lemma dissociate_keeps:
  assumes "ep_inv ep" "conn_at rid ep = Some c" "i \<in> set (associated_cids c) \<or> map_of (conn_lookup ep) i = None"
  shows "keeps rid ep (dissociate_cid i rid ep)"
proof -
  have "keeps rid ep (Some (set_conn rid (delete_associated_cid i c)
      (forget_last_lookup (ep\<lparr>conn_lookup := AList.delete i (conn_lookup ep)\<rparr>))))"
    by (rule keepsI [OF dissociate_inv [OF assms] steady_update [OF assms(2)]]) (simp_all add: forget_last_lookup_def)
  then show ?thesis using assms(2) by (simp add: dissociate_cid_def on_conn_def)
qed

lemma reset_inv:
  assumes "ep_inv ep" "conn_at rid ep = Some c"
  shows "ep_inv (set_conn rid (store_associated_reset h c)
      (ep\<lparr>reset_token_conns := AList.update h rid (reset_token_conns ep)\<rparr>))" (is ?stored)
    and "ep_inv (set_conn rid (delete_associated_reset h c)
      (ep\<lparr>reset_token_conns := AList.delete h (reset_token_conns ep)\<rparr>))" (is ?deleted)
proof -
  have l: "live (conns ep) rid = Some c" using assms(2) by (simp add: conn_at_live)
  have lk: "lookup_exact (AList.update rid (Some c') (conns ep)) (conn_lookup ep)" if "associated_cids c' = associated_cids c" for c'
    using assms(1) l that by (auto simp: ep_inv_def lookup_exact_def owns_cid_def)
  have rs: "resets_ok (conns ep) (reset_token_conns ep)" using assms(1) by (simp add: ep_inv_def)
  have "resets_ok (AList.update rid (Some (store_associated_reset h c)) (conns ep)) (AList.update h rid (reset_token_conns ep))"
    by (rule resets_ok_change [OF rs]) (auto simp: update_conv' owns_reset_live [OF l] split: if_splits)
  then show ?stored using assms(1) ep_inv_conn [OF assms] by (simp add: ep_inv_def conns_ok_update lk)
  have "resets_ok (AList.update rid (Some (delete_associated_reset h c)) (conns ep)) (AList.delete h (reset_token_conns ep))"
    by (rule resets_ok_change [OF rs]) (auto simp: delete_conv' owns_reset_live [OF l] split: if_splits)
  then show ?deleted using assms(1) ep_inv_conn [OF assms] by (simp add: ep_inv_def conns_ok_update lk)
qed

lemma associate_reset_keeps:
  assumes "ep_inv ep" "conn_at rid ep \<noteq> None"
  shows "keeps rid ep (associate_reset env token rid ep)"
proof (cases token)
  case (Some t)
  let ?h = "hash_reset_token env t ep"
  obtain c where c: "conn_at rid ep = Some c" using assms(2) by blast
  have "keeps rid ep (Some (set_conn rid (store_associated_reset ?h c)
      (ep\<lparr>reset_token_conns := AList.update ?h rid (reset_token_conns ep)\<rparr>)))"
    by (rule keepsI [OF reset_inv(1) [OF assms(1) c] steady_update [OF c]]) simp_all
  then show ?thesis using Some c by (simp add: associate_reset_def on_conn_def Let_def)
qed (use assms in \<open>simp add: associate_reset_def keepsI\<close>)

lemma dissociate_reset_eq:
  "conn_at rid ep = Some c \<Longrightarrow> dissociate_reset env (Some t) rid ep =
    Some (let h = hash_reset_token env t ep
          in if map_of (reset_token_conns ep) h \<noteq> None
             then set_conn rid (delete_associated_reset h c) (ep\<lparr>reset_token_conns := AList.delete h (reset_token_conns ep)\<rparr>)
             else set_conn rid (delete_associated_reset h c) ep)"
  by (simp add: dissociate_reset_def on_conn_def Let_def set_conn_def)

lemma delete_absent: "map_of xs k = None \<Longrightarrow> AList.delete k xs = xs"
  by (auto simp: map_of_eq_None_iff)

lemma dissociate_reset_keeps:
  assumes "ep_inv ep" "conn_at rid ep \<noteq> None"
  shows "keeps rid ep (dissociate_reset env token rid ep)"
proof (cases token)
  case (Some t)
  let ?h = "hash_reset_token env t ep"
  obtain c where c: "conn_at rid ep = Some c" using assms(2) by blast
  have k: "keeps rid ep (Some (set_conn rid (delete_associated_reset ?h c)
      (ep\<lparr>reset_token_conns := AList.delete ?h (reset_token_conns ep)\<rparr>)))"
    by (rule keepsI [OF reset_inv(2) [OF assms(1) c] steady_update [OF c]]) simp_all
  show ?thesis
    using k delete_absent [of "reset_token_conns ep" ?h]
    by (cases "map_of (reset_token_conns ep) ?h") (simp_all add: Some dissociate_reset_eq [OF c] Let_def)
qed (use assms in \<open>simp add: dissociate_reset_def keepsI\<close>)

section \<open>Packets of a connection\<close>

text \<open>A change of a connection that keeps its ids and its end.\<close>

definition quiet :: "connection \<Rightarrow> connection \<Rightarrow> bool" where
  "quiet c c' \<longleftrightarrow> same_ids c c' \<and> ended c' = ended c \<and> is_outbound c' = is_outbound c"

lemma quiet_refl [simp]: "quiet c c"
  by (simp add: quiet_def)

lemma quiet_trans: "quiet a b \<Longrightarrow> quiet b c \<Longrightarrow> quiet a c"
  by (simp add: quiet_def same_ids_def)

lemma quiet_emit [simp]:
  "quiet b (ng_emit x c) = quiet b c" "quiet b (ask r c) = quiet b c" "quiet b (packet_io_ready c) = quiet b c"
  "quiet b (set_route w c) = quiet b c"
  by (simp_all add: quiet_def same_ids_def ended_def ng_emit_def ask_def packet_io_ready_def set_route_def)

lemma quiet_update [simp]:
  "quiet b (c\<lparr>chans := s\<rparr>) = quiet b c" "quiet b (c\<lparr>dead := d\<rparr>) = quiet b c" "quiet b (c\<lparr>pending_route := p\<rparr>) = quiet b c"
  "quiet b (c\<lparr>conn_reqs := q\<rparr>) = quiet b c" "quiet b (c\<lparr>unconfirmed_local := a\<rparr>) = quiet b c"
  "quiet b (c\<lparr>handshaked := h\<rparr>) = quiet b c" "quiet b (c\<lparr>handshake_confirmed := h\<rparr>) = quiet b c"
  "quiet b (c\<lparr>early_data := h\<rparr>) = quiet b c" "quiet b (c\<lparr>path := w\<rparr>) = quiet b c"
  by (simp_all add: quiet_def same_ids_def ended_def)

lemma quiet_migrate [simp]: "quiet b (snd (migrate ng mig r c)) = quiet b c"
  by (simp add: migrate_def Let_def)

lemma quiet_check:
  assumes "check_local_address nv ng rt mig c = Some (k, c')"
  shows "quiet c c'"
  using assms
proof (cases rule: check_local_cases)
  case (moves to)
  then show ?thesis by (metis quiet_migrate quiet_refl sndI)
next
  case (reroutes r)
  then show ?thesis by simp
qed simp_all

lemma quiet_mismatch: "local_address_mismatch nv ng rt mig a c = Some c' \<Longrightarrow> quiet c c'"
  unfolding local_address_mismatch_def
  by (auto split: if_splits option.splits dest!: quiet_check intro: quiet_trans)

lemma quiet_callback: "run_callback ng env x c = Some c' \<Longrightarrow> quiet c c'"
  by (cases x)
    (auto simp: client_handshake_completed_def on_handshake_confirmed_def on_path_validation_def client_path_validation_def
      server_path_validation_def submit_new_token_def set_remote_addr_def on_early_data_rejected_def Let_def
      split: if_splits sum.splits)

lemma quiet_read: "quiet c' (snd (read_packet ng mig (\<lambda>_. (rv, c')) c))"
  by (simp add: read_packet_def Let_def split: option.split)

lemma set_conn_set [simp]: "set_conn rid c (set_conn rid d ep) = set_conn rid c ep"
  by (simp add: set_conn_def update_last)

lemma keeps_quiet:
  assumes "ep_inv ep" "conn_at rid ep = Some c" "connection_inv c'" "quiet c c'"
  shows "keeps rid ep (Some (set_conn rid c' ep))"
  using assms by (intro keeps_set) (auto simp: quiet_def)

text \<open>
  The obligations of ngtcp2: a new id is not one in use (ids are 20 random bytes), an id removed is one of the
  connection's, and those of \<open>Connection_Correct\<close>.
\<close>

fun ep_callback_ok :: "ep_env \<Rightarrow> rid \<Rightarrow> ep_callback \<Rightarrow> endpoint \<Rightarrow> bool" where
  "ep_callback_ok env rid (CbConn x) ep =
     (case conn_at rid ep of None \<Rightarrow> False | Some c \<Rightarrow> callback_ok (stream_env env (is_outbound c)) x c)"
| "ep_callback_ok env rid (CbNewCid rnd_ok i token_ok) ep = (map_of (conn_lookup ep) i = None)"
| "ep_callback_ok env rid (CbRemoveCid i) ep =
     (case conn_at rid ep of None \<Rightarrow> False | Some c \<Rightarrow> i \<in> set (associated_cids c) \<or> map_of (conn_lookup ep) i = None)"
| "ep_callback_ok env rid _ ep = True"

lemma connection_inv_confirmed:
  "connection_inv c \<Longrightarrow> connection_inv (c\<lparr>handshaked := True, handshake_confirmed := True\<rparr>)"
  by (simp add: connection_inv_def route_inv_confirmed)

lemma connection_inv_emit [simp]: "\<not> is_NgMigrate x \<Longrightarrow> connection_inv (ng_emit x c) = connection_inv c"
  by (simp add: connection_inv_def)

lemma connection_inv_established: "connection_inv c \<Longrightarrow> connection_inv (c\<lparr>chans := check_established (chans c)\<rparr>)"
  by (simp add: connection_inv_def)

lemma submit_quiet: "connection_inv c \<Longrightarrow> connection_inv (snd (submit_new_token f t rv c)) \<and> quiet c (snd (submit_new_token f t rv c))"
  by (auto simp: submit_new_token_def split: sum.split)

lemma server_handshake_keeps:
  assumes "ep_inv ep" "conn_at rid ep \<noteq> None"
  shows "keeps rid ep (on_server_handshake tickets init_dcid token rv rid ep)"
proof -
  obtain c where c: "conn_at rid ep = Some c" using assms(2) by blast
  define c1 where "c1 = c\<lparr>handshaked := True, handshake_confirmed := True\<rparr>"
  define c2 where "c2 = (if tickets then ng_emit TlsSendTickets c1 else c1)"
  have c2: "connection_inv c2" "quiet c c2" "associated_cids c2 = associated_cids c1"
    using connection_inv_confirmed ep_inv_conn [OF assms(1) c]
    by (auto simp: c2_def c1_def ng_emit_def quiet_def same_ids_def ended_def connection_inv_def route_inv_def asked_migration_def)
  have k1: "keeps rid ep (Some (set_conn rid c2 ep))" by (rule keeps_quiet [OF assms(1) c c2(1,2)])
  let ?diss = "\<lambda>ep. case init_dcid of
      Some i \<Rightarrow> if i \<noteq> [] \<and> i \<in> set (associated_cids c1) then dissociate_cid i rid ep else Some ep | None \<Rightarrow> Some ep"
  let ?ep = "set_conn rid c2 ep"
  have inv: "ep_inv ?ep" using k1 by (simp add: keeps_def)
  have "keeps rid ?ep (?diss ?ep)"
    using dissociate_keeps [OF inv, of rid c2] c2(3) inv by (auto split: option.split intro: keepsI)
  then obtain ep3 where ep3: "?diss ?ep = Some ep3" "ep_inv ep3" "steady ?ep ep3" "conn_at rid ep3 \<noteq> None"
    by (auto simp: keeps_def)
  obtain c3 where c3: "conn_at rid ep3 = Some c3" using ep3(4) by blast
  define c4 where "c4 = snd (submit_new_token (- 1) token rv c3)"
  have c4: "connection_inv c4" "quiet c3 c4" using submit_quiet ep_inv_conn [OF ep3(2) c3] by (simp_all add: c4_def)
  define c5 where "c5 = c4\<lparr>chans := check_established (chans c4)\<rparr>"
  have c5: "connection_inv c5" "quiet c3 c5"
    using connection_inv_established [OF c4(1)] c4(2) by (simp_all add: c5_def)
  have k5: "keeps rid ep3 (Some (set_conn rid c5 ep3))" by (rule keeps_quiet [OF ep3(2) c3 c5])
  have "server_handshake_completed tickets init_dcid token rv rid ep =
      Some (fst (submit_new_token (- 1) token rv c3), set_conn rid c4 ep3)"
    by (simp only: server_handshake_completed_def c option.case Let_def c1_def [symmetric] c2_def [symmetric] ep3(1) c3
        c4_def case_prod_unfold)
  then have eq: "on_server_handshake tickets init_dcid token rv rid ep = Some (set_conn rid c5 ep3)"
    by (simp add: on_server_handshake_def on_conn_def c5_def)
  show ?thesis
    unfolding eq using k1 k5 ep3(3) by (auto simp: keeps_def intro: steady_trans)
qed

lemma ep_callback_keeps:
  assumes "ep_inv ep" "conn_at rid ep \<noteq> None" "ep_callback_ok env rid x ep"
  shows "keeps rid ep (run_ep_callback env rid x ep)"
proof -
  obtain c where c: "conn_at rid ep = Some c" using assms(2) by blast
  have same: "keeps rid ep (Some ep)" using assms by (simp add: keepsI)
  show ?thesis
  proof (cases x)
    case (CbConn y)
    obtain c' where c': "run_callback (codes env) (stream_env env (is_outbound c)) y c = Some c'" "connection_inv c'"
      using callback_inv [of c "stream_env env (is_outbound c)" y "codes env"] ep_inv_conn [OF assms(1) c] assms(3) CbConn c
      by auto
    show ?thesis using keeps_quiet [OF assms(1) c c'(2) quiet_callback [OF c'(1)]] c c'(1) by (simp add: CbConn)
  next
    case (CbNewCid rnd_ok i token_ok)
    have "keeps rid ep (map_option snd (map_option (Pair True) r))" if "keeps rid ep r" for r :: "endpoint option"
      using that by (simp add: option.map_comp comp_def option.map_ident)
    then show ?thesis
      using CbNewCid associate_keeps [OF assms(1,2), of i False] assms(3) same
      by (auto simp: get_new_connection_id_def associate_ngtcp2_cid_def)
  next
    case (CbRemoveCid i)
    then show ?thesis using dissociate_keeps [OF assms(1) c, of i] assms(3) c same
      by (simp add: remove_connection_id_def dissociate_ngtcp2_cid_def)
  next
    case (CbClientInitial i)
    then show ?thesis using associate_keeps [OF assms(1,2), of _ True] same
      by (simp add: associate_initial_dcid_def split: option.split)
  next
    case (CbCidStatus t token)
    then show ?thesis
      using associate_reset_keeps [OF assms(1,2), of env token] dissociate_reset_keeps [OF assms(1,2), of env token] same
      by (cases t) (simp_all add: on_connection_id_status_def)
  next
    case (CbStatelessReset token)
    then show ?thesis using assms same by (auto simp: recv_stateless_reset_def intro!: keepsI steadyI)
  next
    case (CbServerHandshake tickets i token rv)
    then show ?thesis using server_handshake_keeps [OF assms(1,2)] by simp
  next
    case (CbToken token)
    then show ?thesis using assms c
      by (auto simp: recv_token_def store_path_validation_token_def intro!: keepsI steadyI)
  qed
qed

interpretation ep_callback_sys:
  op_system "run_ep_callback env rid" "ep_callback_ok env rid" "\<lambda>ep. keeps rid ep0 (Some ep)" for env rid ep0
proof unfold_locales
  fix ep x
  assume "keeps rid ep0 (Some ep)" "ep_callback_ok env rid x ep"
  then show "\<exists>ep'. run_ep_callback env rid x ep = Some ep' \<and> keeps rid ep0 (Some ep')"
    using ep_callback_keeps [of ep rid env x] by (auto simp: keeps_def intro: steady_trans)
qed

definition read_ok :: "ep_env \<Rightarrow> read_answers \<Rightarrow> rid \<Rightarrow> endpoint \<Rightarrow> bool" where
  "read_ok env ra rid ep =
     (case conn_at rid ep of
        None \<Rightarrow> True
      | Some c \<Rightarrow> ops_ok (run_ep_callback env rid) (ep_callback_ok env rid) (read_callbacks ra)
                    (set_conn rid (ng_emit NgReadPkt c) ep))"

lemma take_requests_keeps:
  assumes "ep_inv ep" "conn_at rid ep = Some c"
  shows "keeps rid ep (take_requests env code rid ep)"
proof -
  have "connection_inv (c\<lparr>conn_reqs := []\<rparr>)"
    using ep_inv_conn [OF assms] by (simp add: connection_inv_def route_inv_def asked_migration_def)
  then have "keeps rid ep (Some (set_conn rid (c\<lparr>conn_reqs := []\<rparr>) ep))" by (rule keeps_quiet [OF assms]) simp
  then show ?thesis
    using assms by (auto simp: take_requests_def keeps_def steady_def)
qed

lemma conn_packet_keeps:
  assumes "ep_inv ep" "conn_at rid ep \<noteq> None" "read_ok env ra rid ep"
  shows "keeps rid ep (conn_packet env ra rid ep)"
proof -
  obtain c where c: "conn_at rid ep = Some c" using assms(2) by blast
  show ?thesis
  proof (cases "in_closing_period ra \<or> draining c \<or> dead c")
    case True
    then show ?thesis using assms c by (simp add: conn_packet_def keepsI)
  next
    case False
    let ?ep = "set_conn rid (ng_emit NgReadPkt c) ep"
    have "keeps rid ep (Some ?ep)"
      by (rule keeps_quiet [OF assms(1) c]) (use ep_inv_conn [OF assms(1) c] in simp_all)
    then obtain ep1 where ep1: "run_ops (run_ep_callback env rid) (read_callbacks ra) ?ep = Some ep1" "keeps rid ep (Some ep1)"
      using ep_callback_sys.run_inv [of rid ep ?ep env "read_callbacks ra"] assms(3) c by (auto simp: read_ok_def)
    then obtain c1 where inv1: "ep_inv ep1" "steady ep ep1" and c1: "conn_at rid ep1 = Some c1" by (auto simp: keeps_def)
    define c2 where "c2 = snd (read_packet (codes env) (\<lambda>_. migrate_rv ra) (\<lambda>_. (read_rv ra, c1)) c)"
    have c2: "connection_inv c2" "quiet c1 c2"
      using read_packet_inv quiet_read ep_inv_conn [OF inv1(1) c1] by (simp_all add: c2_def)
    have k2: "keeps rid ep1 (Some (set_conn rid c2 ep1))" by (rule keeps_quiet [OF inv1(1) c1 c2])
    then have "keeps rid (set_conn rid c2 ep1) (take_requests env (close_code ra) rid (set_conn rid c2 ep1))"
      by (intro take_requests_keeps [of _ _ c2]) (auto simp: keeps_def)
    then have k3: "keeps rid ep1 (take_requests env (close_code ra) rid (set_conn rid c2 ep1))"
      using k2 by (auto simp: keeps_def intro: steady_trans)
    have "conn_packet env ra rid ep = take_requests env (close_code ra) rid (set_conn rid c2 ep1)"
      using False c ep1(1) c1 by (simp add: conn_packet_def handle_conn_packet_def c2_def)
    then show ?thesis using k3 inv1(2) by (auto simp: keeps_def intro: steady_trans)
  qed
qed

lemma check_arrival_keeps:
  assumes "connection_inv c" "is_outbound c \<longrightarrow> is_set (path_local p)"
  shows "\<exists>c'. check_arrival env rt mig p c = Some c' \<and> connection_inv c' \<and> quiet c c'"
proof (cases "is_outbound c")
  case True
  have "is_any_addr (path_local p) \<noteq> None"
    using assms(2) True by (auto simp: is_any_addr_def is_set_def in4_def in6_def)
  moreover obtain c' where "local_address_mismatch (net env) (codes env) rt (\<lambda>_. mig) (path_local p) c = Some c'"
      "route_inv c'" "chans c' = chans c"
    using mismatch_inv [OF _ True] assms(1) unfolding connection_inv_def by blast
  ultimately show ?thesis
    using assms(1) quiet_mismatch by (auto simp: check_arrival_def connection_inv_def True)
qed (use assms in \<open>simp add: check_arrival_def\<close>)

definition arrival_ok :: "in_packet \<Rightarrow> rid \<Rightarrow> endpoint \<Rightarrow> bool" where
  "arrival_ok pkt rid ep = (case conn_at rid ep of None \<Rightarrow> True | Some c \<Rightarrow> is_outbound c \<longrightarrow> is_set (path_local (pkt_path pkt)))"

definition deliver_ok ::
  "ep_env \<Rightarrow> (Address \<Rightarrow> route option) \<Rightarrow> read_answers \<Rightarrow> in_packet \<Rightarrow> rid \<Rightarrow> endpoint \<Rightarrow> bool" where
  "deliver_ok env rt ra pkt rid ep \<longleftrightarrow>
     arrival_ok pkt rid ep \<and>
     (case conn_at rid ep of
        None \<Rightarrow> True
      | Some c \<Rightarrow> (case check_arrival env rt (migrate_rv ra) (pkt_path pkt) c of
                    None \<Rightarrow> True
                  | Some c \<Rightarrow> read_ok env ra rid (ep_emit (DeliverPacket rid (relabel (net env) c (pkt_path pkt)))
                                (set_conn rid c ep))))"

lemma deliver_keeps:
  assumes "ep_inv ep" "conn_at rid ep \<noteq> None" "deliver_ok env rt ra pkt rid ep"
  shows "keeps rid ep (hand_over env rt ra pkt rid ep)"
proof -
  obtain c where c: "conn_at rid ep = Some c" using assms(2) by blast
  obtain c' where c': "check_arrival env rt (migrate_rv ra) (pkt_path pkt) c = Some c'" "connection_inv c'" "quiet c c'"
    using check_arrival_keeps [of c "pkt_path pkt" env rt "migrate_rv ra"] ep_inv_conn [OF assms(1) c] assms(3) c
    by (auto simp: deliver_ok_def arrival_ok_def)
  let ?ep = "ep_emit (DeliverPacket rid (relabel (net env) c' (pkt_path pkt))) (set_conn rid c' ep)"
  have "keeps rid ep (Some (set_conn rid c' ep))" by (rule keeps_quiet [OF assms(1) c c'(2,3)])
  then have k: "keeps rid ep (Some ?ep)" by (auto simp: keeps_def steady_def)
  have "keeps rid ?ep (conn_packet env ra rid ?ep)"
    by (rule conn_packet_keeps) (use k assms(3) c c'(1) in \<open>auto simp: keeps_def deliver_ok_def\<close>)
  then show ?thesis using k c c'(1) by (auto simp: hand_over_def keeps_def intro: steady_trans)
qed

end
