(* ===== verification/Endpoint_Close.thy ===== *)
theory Endpoint_Close
  imports Endpoint_Tables
begin

text \<open>
  The end of connections: deleting one removes all of its ids and tokens and touches no other, and ending one runs its
  close callback at most once more.
\<close>

section \<open>Ending connections\<close>

lemma map_of_fold_delete: "map_of (fold AList.delete hs rs) h = (if h \<in> set hs then None else map_of rs h)"
  by (induction hs arbitrary: rs) (simp_all add: delete_conv')

text \<open>The other connections stay as they are.\<close>

definition others :: "rid \<Rightarrow> endpoint \<Rightarrow> endpoint \<Rightarrow> bool" where
  "others rid ep ep' \<longleftrightarrow> (\<forall>r. r \<noteq> rid \<longrightarrow> conn_at r ep' = conn_at r ep)"

lemma others_refl [simp]: "others rid ep ep"
  by (simp add: others_def)

lemma others_trans: "others rid a b \<Longrightarrow> others rid b c \<Longrightarrow> others rid a c"
  by (simp add: others_def)

lemma id_frame [simp]:
  "chans (delete_associated_cid i c) = chans c" "reset_token_conns (forget_last_lookup ep) = reset_token_conns ep"
  by (simp_all add: delete_associated_cid_def forget_last_lookup_def)

lemma dissociate_eq:
  "conn_at rid ep = Some c \<Longrightarrow> dissociate_cid i rid ep =
    Some (set_conn rid (delete_associated_cid i c) (forget_last_lookup (ep\<lparr>conn_lookup := AList.delete i (conn_lookup ep)\<rparr>)))"
  by (simp add: dissociate_cid_def on_conn_def)

lemma dissociate_all_keeps:
  assumes "ep_inv ep" "conn_at rid ep = Some c" "\<And>i. i \<in> set cids \<Longrightarrow> i \<in> set (associated_cids c) \<or> map_of (conn_lookup ep) i = None"
  shows "\<exists>ep' c'. dissociate_all cids rid ep = Some ep' \<and> ep_inv ep' \<and> steady ep ep' \<and> others rid ep ep' \<and>
    conn_at rid ep' = Some c' \<and> set (associated_cids c') = set (associated_cids c) - set cids \<and>
    associated_resets c' = associated_resets c \<and> ended c' = ended c \<and> chans c' = chans c \<and> reset_token_conns ep' = reset_token_conns ep"
  using assms
proof (induction cids arbitrary: ep c)
  case Nil
  then show ?case by simp
next
  case (Cons i cids)
  let ?c = "delete_associated_cid i c"
  let ?ep = "set_conn rid ?c (forget_last_lookup (ep\<lparr>conn_lookup := AList.delete i (conn_lookup ep)\<rparr>))"
  have "keeps rid ep (dissociate_cid i rid ep)" using Cons.prems(3) [of i] by (intro dissociate_keeps [OF Cons.prems(1,2)]) simp
  then have k: "ep_inv ?ep" "steady ep ?ep" using dissociate_eq [OF Cons.prems(2)] by (simp_all add: keeps_def)
  have c: "conn_at rid ?ep = Some ?c" by simp
  have pre: "j \<in> set (associated_cids ?c) \<or> map_of (conn_lookup ?ep) j = None" if "j \<in> set cids" for j
    using Cons.prems(3) [of j] that by (auto simp: delete_conv' forget_last_lookup_def)
  obtain ep' c' where r: "dissociate_all cids rid ?ep = Some ep'" "ep_inv ep'" "steady ?ep ep'" "others rid ?ep ep'"
      "conn_at rid ep' = Some c'" "set (associated_cids c') = set (associated_cids ?c) - set cids"
      "associated_resets c' = associated_resets ?c" "ended c' = ended ?c" "chans c' = chans ?c" "reset_token_conns ep' = reset_token_conns ?ep"
    using Cons.IH [OF k(1) c pre] by blast
  have "steady ep ep'" by (rule steady_trans [OF k(2) r(3)])
  then show ?case using dissociate_eq [OF Cons.prems(2), of i] r by (auto simp: others_def)
qed

lemma connection_inv_end [simp]:
  "connection_inv (c\<lparr>closing := b\<rparr>) = connection_inv c" "connection_inv (c\<lparr>draining := b\<rparr>) = connection_inv c"
  "connection_inv (halt_events_conn c) = connection_inv c"
  by (simp_all add: connection_inv_def route_inv_def asked_migration_def halt_events_conn_def)

lemma halt_fields [simp]:
  "same_ids c (halt_events_conn d) = same_ids c d" "ended (halt_events_conn c) = ended c" "chans (halt_events_conn c) = chans c"
  "associated_cids (halt_events_conn c) = associated_cids c" "associated_resets (halt_events_conn c) = associated_resets c"
  by (simp_all add: halt_events_conn_def same_ids_def ended_def)

text \<open>The result of deleting a connection.\<close>

definition deletes :: "rid \<Rightarrow> endpoint \<Rightarrow> endpoint option \<Rightarrow> bool" where
  "deletes rid ep r \<longleftrightarrow>
     (\<exists>ep'. r = Some ep' \<and> ep_inv ep' \<and> steady ep ep' \<and> others rid ep ep' \<and> conn_at rid ep' = None)"

lemma erase_inv:
  assumes "ep_inv ep" "conn_at rid ep = Some c" "associated_cids c = []" "\<And>h. map_of (reset_token_conns ep) h \<noteq> Some rid"
  shows "deletes rid ep (Some (erase_conn rid ep))"
proof -
  have l: "live (conns ep) rid = Some c" using assms(2) by (simp add: conn_at_live)
  define cs where "cs = AList.delete rid (conns ep)"
  have "owns_cid cs r i = owns_cid (conns ep) r i" for r i using l assms(3) by (auto simp: cs_def owns_cid_def)
  then have "lookup_exact cs (conn_lookup ep)" using assms(1) by (simp add: ep_inv_def lookup_exact_def)
  moreover have "resets_ok cs (reset_token_conns ep)"
    by (rule resets_ok_change [of "conns ep" "reset_token_conns ep"]) (use assms(1,4) in \<open>auto simp: ep_inv_def cs_def\<close>)
  moreover have "conns_ok (next_rid ep) cs" using assms(1) by (simp add: cs_def conns_ok_delete ep_inv_def)
  ultimately have "ep_inv (erase_conn rid ep)"
    using assms(2) by (simp add: erase_conn_def ep_inv_def forget_last_lookup_def cs_def)
  moreover have at: "conn_at r (erase_conn rid ep) = (if r = rid then None else conn_at r ep)" for r
    using assms(2) by (simp add: erase_conn_def conn_at_live forget_last_lookup_def)
  moreover have "steady ep (erase_conn rid ep)"
    using assms(2) at by (auto simp: steady_def erase_conn_def split: if_splits)
  ultimately show ?thesis by (simp add: deletes_def others_def)
qed

lemma resets_deleted_inv:
  "ep_inv ep \<Longrightarrow> ep_inv (ep\<lparr>reset_token_conns := fold AList.delete hs (reset_token_conns ep)\<rparr>)"
proof -
  assume inv: "ep_inv ep"
  have "resets_ok (conns ep) (fold AList.delete hs (reset_token_conns ep))"
    by (rule resets_ok_change [of "conns ep" "reset_token_conns ep"])
      (use inv in \<open>auto simp: ep_inv_def map_of_fold_delete split: if_splits\<close>)
  then show ?thesis using inv by (simp add: ep_inv_def)
qed

lemma halt_keeps:
  assumes "ep_inv ep" "conn_at rid ep = Some c"
  shows "\<exists>ep'. halt_events rid ep = Some ep' \<and> ep_inv ep' \<and> steady ep ep' \<and> others rid ep ep' \<and>
    conn_at rid ep' = Some (halt_events_conn c) \<and> next_rid ep' = next_rid ep"
proof -
  let ?ep = "set_conn rid (halt_events_conn c) ep"
  have "keeps rid ep (Some ?ep)"
    by (rule keeps_set [OF assms]) (use ep_inv_conn [OF assms] in simp_all)
  then show ?thesis using assms by (auto simp: halt_events_def on_conn_def keeps_def others_def steady_def)
qed

lemma delete_connection_deletes:
  assumes "ep_inv ep" "conn_at rid ep = Some c"
  shows "deletes rid ep (delete_connection rid ep)"
proof -
  obtain ep1 where ep1: "halt_events rid ep = Some ep1" "ep_inv ep1" "steady ep ep1" "others rid ep ep1"
      "conn_at rid ep1 = Some (halt_events_conn c)" using halt_keeps [OF assms] by blast
  define c2 where "c2 = (halt_events_conn c)\<lparr>closing := True\<rparr>"
  have "keeps rid ep1 (Some (set_conn rid c2 ep1))"
    by (rule keeps_set [OF ep1(2,5)])
      (use ep_inv_conn [OF ep1(2,5)] in \<open>simp_all add: c2_def same_ids_def ended_def\<close>)
  then have i2: "ep_inv (set_conn rid c2 ep1)" and s2: "steady ep1 (set_conn rid c2 ep1)" by (auto simp: keeps_def)
  obtain ep3 c3 where ep3: "dissociate_all (associated_cids c2) rid (set_conn rid c2 ep1) = Some ep3" "ep_inv ep3"
      "steady (set_conn rid c2 ep1) ep3" "others rid (set_conn rid c2 ep1) ep3" "conn_at rid ep3 = Some c3"
      "set (associated_cids c3) = {}" "associated_resets c3 = associated_resets c2"
    using dissociate_all_keeps [OF i2, of rid c2 "associated_cids c2"] by auto
  define ep4 where "ep4 = ep3\<lparr>reset_token_conns := fold AList.delete (associated_resets c2) (reset_token_conns ep3)\<rparr>"
  have i4: "ep_inv ep4" and c4: "conn_at rid ep4 = Some c3"
    using resets_deleted_inv [OF ep3(2)] ep3(5) by (simp_all add: ep4_def)
  define c5 where "c5 = c3\<lparr>chans := drop_streams (chans c3)\<rparr>"
  have "connection_inv c5" using ep_inv_conn [OF i4 c4] drop_streams_inv by (simp add: c5_def connection_inv_def)
  then have "keeps rid ep4 (Some (set_conn rid c5 ep4))" by (rule keeps_quiet [OF i4 c4]) (simp add: c5_def)
  then have i5: "ep_inv (set_conn rid c5 ep4)" and s5: "steady ep4 (set_conn rid c5 ep4)" by (auto simp: keeps_def)
  have none: "map_of (reset_token_conns (set_conn rid c5 ep4)) h \<noteq> Some rid" for h
  proof
    assume h: "map_of (reset_token_conns (set_conn rid c5 ep4)) h = Some rid"
    then have "map_of (reset_token_conns ep3) h = Some rid" "h \<notin> set (associated_resets c2)"
      by (simp_all add: ep4_def map_of_fold_delete split: if_splits)
    moreover from this(1) have "owns_reset (conns ep3) rid h" using ep3(2) unfolding ep_inv_def resets_ok_def by blast
    ultimately show False using ep3(5,7) by (simp add: owns_reset_def conn_at_live)
  qed
  have "deletes rid (set_conn rid c5 ep4) (Some (erase_conn rid (set_conn rid c5 ep4)))"
    by (rule erase_inv [OF i5, of rid c5]) (use ep3(6) none in \<open>simp_all add: c5_def\<close>)
  moreover have "delete_connection rid ep = Some (erase_conn rid (set_conn rid c5 ep4))"
    using ep1(1,5) ep3(1) ep3(5) c4
    by (simp add: delete_connection_def on_conn_def c2_def [symmetric] ep4_def [symmetric] c5_def Let_def)
  moreover have s4: "steady ep3 ep4" and "others rid ep3 ep4" by (simp_all add: ep4_def steady_def others_def)
  moreover have "steady ep (set_conn rid c5 ep4)"
    by (rule steady_trans [OF steady_trans [OF steady_trans [OF steady_trans [OF ep1(3) s2] ep3(3)] s4] s5])
  ultimately show ?thesis
    using ep1(4) ep3(4) steady_trans [of ep "set_conn rid c5 ep4"] unfolding deletes_def by (auto simp: others_def)
qed

text \<open>ngtcp2 opens bidirectional streams only (no others are allowed by the transport parameters).\<close>

definition streams_bidi :: "ep_env \<Rightarrow> endpoint \<Rightarrow> bool" where
  "streams_bidi env ep \<longleftrightarrow>
     list_all (\<lambda>(_, p). case p of None \<Rightarrow> True | Some c \<Rightarrow> conn_ok (stream_env env (is_outbound c)) CloseAll (chans c)) (conns ep)"

definition conn_bidi :: "ep_env \<Rightarrow> connection \<Rightarrow> bool" where
  "conn_bidi env c \<longleftrightarrow> conn_ok (stream_env env (is_outbound c)) CloseAll (chans c)"

lemma streams_bidi_at: "streams_bidi env ep \<Longrightarrow> conn_at rid ep = Some c \<Longrightarrow> conn_bidi env c"
  unfolding streams_bidi_def conn_bidi_def list_all_iff conn_at_def
  by (force split: option.splits dest: map_of_SomeD)

lemma conn_bidi_fields [simp]:
  "conn_bidi env (c\<lparr>closing := b\<rparr>) = conn_bidi env c" "conn_bidi env (c\<lparr>draining := b\<rparr>) = conn_bidi env c"
  "conn_bidi env (halt_events_conn c) = conn_bidi env c"
  by (simp_all add: conn_bidi_def halt_events_conn_def)

text \<open>
  The result of ending a connection: others are untouched, its close callback ran at most once more, and what is left of
  it is at its end.
\<close>

definition ends :: "rid \<Rightarrow> endpoint \<Rightarrow> endpoint option \<Rightarrow> bool" where
  "ends rid ep r \<longleftrightarrow>
     (\<exists>ep'. r = Some ep' \<and> ep_inv ep' \<and> next_rid ep' = next_rid ep \<and> others rid ep ep' \<and>
        (\<forall>x. x \<noteq> rid \<longrightarrow> closed_calls x ep' = closed_calls x ep) \<and> closed_calls rid ep' \<le> closed_calls rid ep + 1 \<and>
        (\<forall>c. conn_at rid ep' = Some c \<longrightarrow> ended c))"

lemma endsI:
  "ep_inv ep' \<Longrightarrow> next_rid ep' = next_rid ep \<Longrightarrow> others rid ep ep' \<Longrightarrow> (\<And>x. x \<noteq> rid \<Longrightarrow> closed_calls x ep' = closed_calls x ep) \<Longrightarrow>
   closed_calls rid ep' \<le> closed_calls rid ep + 1 \<Longrightarrow> (\<And>c. conn_at rid ep' = Some c \<Longrightarrow> ended c) \<Longrightarrow> ends rid ep (Some ep')"
  by (simp add: ends_def)

text \<open>Before the hooks: a connection that is marked as ending, with nothing else changed.\<close>

definition ready_to_end :: "rid \<Rightarrow> endpoint \<Rightarrow> endpoint \<Rightarrow> bool" where
  "ready_to_end rid ep ep' \<longleftrightarrow> ep_inv ep' \<and> next_rid ep' = next_rid ep \<and> others rid ep ep' \<and> (\<forall>x. closed_calls x ep' = closed_calls x ep)"

lemma hooks_result:
  assumes "ready_to_end rid ep ep1" "conn_at rid ep1 = Some c" "conn_bidi env c"
  shows "\<exists>ep2 s. execute_close_hooks env ec rid ep1 = Some ep2 \<and> ep_inv ep2 \<and> next_rid ep2 = next_rid ep \<and> others rid ep ep2 \<and>
    (\<forall>x. x \<noteq> rid \<longrightarrow> closed_calls x ep2 = closed_calls x ep) \<and> closed_calls rid ep2 \<le> closed_calls rid ep + 1 \<and>
    conn_at rid ep2 = Some (c\<lparr>chans := s\<rparr>)"
proof (cases "close_quietly c")
  case True
  then show ?thesis
    using assms by (auto simp: execute_close_hooks_def ready_to_end_def intro!: exI [of _ "chans c"])
next
  case False
  have inv: "ep_inv ep1" using assms(1) by (simp add: ready_to_end_def)
  have ci: "connection_inv c" using ep_inv_conn [OF inv assms(2)] by simp
  obtain s where s: "close_all_streams (stream_env env (is_outbound c)) (chans c) = Some s" "conn_inv s"
    using close_all_inv [of "chans c" "stream_env env (is_outbound c)"] ci assms(3)
    by (auto simp: connection_inv_def conn_bidi_def list_all_iff case_prod_unfold)
  let ?ep = "set_conn rid (c\<lparr>chans := s\<rparr>) ep1"
  have "connection_inv (c\<lparr>chans := s\<rparr>)" using ci s(2) by (simp add: connection_inv_def)
  then have "keeps rid ep1 (Some ?ep)" by (rule keeps_quiet [OF inv assms(2)]) simp
  then have "ep_inv ?ep" by (simp add: keeps_def)
  then show ?thesis
    using False assms s(1) by (auto simp: execute_close_hooks_def ready_to_end_def others_def Let_def)
qed

lemma set_conn_next: "on_conn rid f ep = Some ep' \<Longrightarrow> next_rid ep' = next_rid ep"
  by (auto simp: on_conn_def split: option.splits)

lemma dissociate_all_next: "dissociate_all cids rid ep = Some ep' \<Longrightarrow> next_rid ep' = next_rid ep"
  by (induction cids arbitrary: ep) (auto simp: dissociate_cid_def split: option.splits dest!: set_conn_next)

lemma erase_next [simp]: "next_rid (erase_conn rid ep) = next_rid ep"
  by (simp add: erase_conn_def split: option.split)

lemma delete_next_rid: "delete_connection rid ep = Some ep' \<Longrightarrow> next_rid ep' = next_rid ep"
  by (auto simp: delete_connection_def halt_events_def Let_def split: option.splits
      dest!: set_conn_next dissociate_all_next bind_eq_Some_conv [THEN iffD1])

lemma hooks_delete:
  assumes "ready_to_end rid ep ep1" "conn_at rid ep1 = Some c" "conn_bidi env c"
  shows "ends rid ep (drop_connection_now env ec rid ep1)"
proof -
  obtain ep2 s where ep2: "execute_close_hooks env ec rid ep1 = Some ep2" "ep_inv ep2" "next_rid ep2 = next_rid ep"
      "others rid ep ep2" "\<forall>x. x \<noteq> rid \<longrightarrow> closed_calls x ep2 = closed_calls x ep" "closed_calls rid ep2 \<le> closed_calls rid ep + 1"
      "conn_at rid ep2 = Some (c\<lparr>chans := s\<rparr>)"
    using hooks_result [OF assms] by blast
  obtain ep3 where ep3: "delete_connection rid ep2 = Some ep3" "ep_inv ep3" "steady ep2 ep3" "others rid ep2 ep3" "conn_at rid ep3 = None"
    using delete_connection_deletes [OF ep2(2,7)] by (auto simp: deletes_def)
  have "next_rid ep3 = next_rid ep2" using ep3(1) by (rule delete_next_rid)
  then show ?thesis
    using ep2 ep3 others_trans [OF ep2(4) ep3(4)]
    by (auto simp: drop_connection_now_def steady_def intro!: endsI)
qed

lemma prepared_mark:
  assumes "ep_inv ep" "conn_at rid ep = Some c" "f = (\<lambda>c. c\<lparr>closing := True\<rparr>) \<or> f = (\<lambda>c. c\<lparr>draining := True\<rparr>)"
  shows "\<exists>ep1. Option.bind (halt_events rid ep) (on_conn rid f) = Some ep1 \<and> ready_to_end rid ep ep1 \<and>
    conn_at rid ep1 = Some (f (halt_events_conn c))"
proof -
  obtain ep1 where ep1: "halt_events rid ep = Some ep1" "ep_inv ep1" "steady ep ep1" "others rid ep ep1"
      "conn_at rid ep1 = Some (halt_events_conn c)" "next_rid ep1 = next_rid ep"
    using halt_keeps [OF assms(1,2)] by blast
  have "keeps rid ep1 (Some (set_conn rid (f (halt_events_conn c)) ep1))"
    by (rule keeps_set [OF ep1(2,5)])
      (use ep_inv_conn [OF ep1(2,5)] assms(3) in \<open>auto simp: same_ids_def ended_def\<close>)
  then show ?thesis
    using ep1 by (auto simp: on_conn_def keeps_def ready_to_end_def others_def steady_def)
qed

lemma halt_closing: "halt_events_conn (c\<lparr>closing := b\<rparr>) = (halt_events_conn c)\<lparr>closing := b\<rparr>"
  by (cases c) (simp add: halt_events_conn_def)

lemma set_conn_batch: "set_conn rid c (ep\<lparr>batch := b\<rparr>) = (set_conn rid c ep)\<lparr>batch := b\<rparr>"
  by (cases ep) (simp add: set_conn_def)

lemma mark_halt_commute:
  "Option.bind (on_conn rid (\<lambda>c. c\<lparr>closing := True\<rparr>) ep) (halt_events rid) =
   Option.bind (halt_events rid ep) (on_conn rid (\<lambda>c. c\<lparr>closing := True\<rparr>))"
  by (cases "conn_at rid ep") (simp_all add: on_conn_def halt_events_def halt_closing set_conn_batch)

lemma drain_ends:
  assumes "ep_inv ep" "conn_at rid ep = Some c" "conn_bidi env c" "\<not> ended c"
  shows "ends rid ep (drain_connection env pto code rid ep)"
proof -
  let ?f = "\<lambda>c. c\<lparr>draining := True\<rparr>"
  obtain ep1 where ep1: "Option.bind (halt_events rid ep) (on_conn rid ?f) = Some ep1" "ready_to_end rid ep ep1"
      "conn_at rid ep1 = Some (?f (halt_events_conn c))" using prepared_mark [OF assms(1,2), of ?f] by auto
  obtain ep2 s where ep2: "execute_close_hooks env (io_error_u64 code) rid ep1 = Some ep2" "ep_inv ep2" "next_rid ep2 = next_rid ep"
      "others rid ep ep2" "\<forall>x. x \<noteq> rid \<longrightarrow> closed_calls x ep2 = closed_calls x ep" "closed_calls rid ep2 \<le> closed_calls rid ep + 1"
      "conn_at rid ep2 = Some ((?f (halt_events_conn c))\<lparr>chans := s\<rparr>)"
    using hooks_result [OF ep1(2,3), of env "io_error_u64 code"] assms(3) by auto
  have "ends rid ep (Some (schedule_conn_cleanup pto rid ep2))"
    using ep2 by (intro endsI) (auto simp: others_def ended_def schedule_conn_cleanup_def)
  then show ?thesis
    using assms(2,4) ep1(1) ep2(1) by (simp add: drain_connection_def ended_def)
qed

definition close_packets_ok :: "(rid \<Rightarrow> bytes option) \<Rightarrow> bool" where
  "close_packets_ok written \<longleftrightarrow> (\<forall>rid. pred_option (\<lambda>b. length b \<le> MAX_PMTUD_UDP_PAYLOAD) (written rid))"

lemma close_ends:
  assumes "ep_inv ep" "conn_at rid ep = Some c" "conn_bidi env c" "\<not> ended c" "pred_option (\<lambda>b. length b \<le> MAX_PMTUD_UDP_PAYLOAD) written"
  shows "ends rid ep (close_connection_now env pto written ec rid ep)"
proof -
  let ?f = "\<lambda>c. c\<lparr>closing := True\<rparr>"
  obtain ep1 where ep1: "Option.bind (halt_events rid ep) (on_conn rid ?f) = Some ep1" "ready_to_end rid ep ep1"
      "conn_at rid ep1 = Some (?f (halt_events_conn c))" using prepared_mark [OF assms(1,2), of ?f] by auto
  have bidi: "conn_bidi env (?f (halt_events_conn c))" using assms(3) by simp
  note idle = hooks_delete [OF ep1(2,3) bidi, of "io_error_u64 CONN_IDLE_CLOSED"]
  obtain ep2 s where ep2: "execute_close_hooks env ec rid ep1 = Some ep2" "ep_inv ep2" "next_rid ep2 = next_rid ep"
      "others rid ep ep2" "\<forall>x. x \<noteq> rid \<longrightarrow> closed_calls x ep2 = closed_calls x ep" "closed_calls rid ep2 \<le> closed_calls rid ep + 1"
      "conn_at rid ep2 = Some ((?f (halt_events_conn c))\<lparr>chans := s\<rparr>)"
    using hooks_result [OF ep1(2,3) bidi] by blast
  have kept: "ends rid ep (Some (ep_emit (QueuePacket p b q r) (schedule_conn_cleanup pto rid ep2)))" for p b q r
    using ep2 by (intro endsI) (auto simp: others_def ended_def schedule_conn_cleanup_def)
  have dropped: "ends rid ep (delete_connection rid ep2)"
    using hooks_delete [OF ep1(2,3) bidi, of ec] ep2(1) by (simp add: drop_connection_now_def)
  show ?thesis
    using assms(2,4,5) ep1(1) ep2(1) idle kept dropped
    by (cases written) (simp_all add: close_connection_now_def mark_halt_commute ended_def)
qed

end
