(* ===== verification/Endpoint_Steps.thy ===== *)
theory Endpoint_Steps
  imports Endpoint_Close
begin

text \<open>
  The operations of an endpoint from outside, with what they rely on, and that each keeps the endpoint's tables: new
  connections, packets, jobs, timers and network changes.
\<close>

section \<open>New connections\<close>

definition chosen_cid :: "cid list \<Rightarrow> endpoint \<Rightarrow> cid option" where
  "chosen_cid cids ep = List.find (\<lambda>i. map_of (conn_lookup ep) i = None) cids"

text \<open>ngtcp2 reports the source id a connection was constructed with.\<close>

definition reports_scid :: "made \<Rightarrow> cid \<Rightarrow> bool" where
  "reports_scid md i = (case md of MakeThrows \<Rightarrow> True | Made _ scids \<Rightarrow> scids = [i])"

lemma chosen_unused: "chosen_cid cids ep = Some i \<Longrightarrow> map_of (conn_lookup ep) i = None"
  unfolding chosen_cid_def by (induction cids) (auto split: if_splits)

text \<open>An endpoint with a new connection.\<close>

definition with_new :: "rid \<Rightarrow> cid \<Rightarrow> connection \<Rightarrow> endpoint \<Rightarrow> endpoint" where
  "with_new rid i c ep = ep\<lparr>conn_lookup := AList.update i rid (conn_lookup ep), conns := AList.update rid (Some c) (conns ep)\<rparr>"

lemma with_new_inv:
  assumes "ep_inv ep" "map_of (conn_lookup ep) i = None" "connection_inv c" "associated_cids c = [i]" "associated_resets c = []"
    "rid = next_rid ep + 1"
  shows "ep_inv (with_new rid i c (ep\<lparr>next_rid := rid\<rparr>)) \<and> steady ep (with_new rid i c (ep\<lparr>next_rid := rid\<rparr>))"
proof -
  have cs: "conns_ok (next_rid ep) (conns ep)" and ex: "lookup_exact (conns ep) (conn_lookup ep)"
    and rs: "resets_ok (conns ep) (reset_token_conns ep)" using assms(1) by (simp_all add: ep_inv_def)
  have fresh: "live (conns ep) rid = None" using conns_ok_fresh [OF cs] assms(6) by (simp add: live_def)
  have no: "\<not> owns_cid (conns ep) r i" for r using ex assms(2) unfolding lookup_exact_def by (metis option.distinct(1))
  have no': "\<not> owns_cid (conns ep) rid j" "\<not> owns_reset (conns ep) rid j" for j
    using fresh by (simp_all add: owns_cid_def owns_reset_def)
  have "map_of (AList.update i rid (conn_lookup ep)) j = Some r \<longleftrightarrow> owns_cid (AList.update rid (Some c) (conns ep)) r j" for j r
    using ex no [of r] no'(1) [of j] assms(4) unfolding lookup_exact_def by (auto simp: update_conv')
  moreover have "resets_ok (AList.update rid (Some c) (conns ep)) (reset_token_conns ep)"
    by (rule resets_ok_change [OF rs]) (use no'(2) in auto)
  moreover have "conns_ok rid (AList.update rid (Some c) (conns ep))"
    using conns_ok_update [of rid "conns ep" rid c] conns_ok_mono [OF cs, of 1] assms(3,6) by simp
  moreover have "cache_ok (AList.update i rid (conn_lookup ep)) (last_lookup ep)"
    using assms(1,2) by (auto simp: ep_inv_def cache_ok_def update_conv' split: option.splits)
  moreover have "steady ep (with_new rid i c (ep\<lparr>next_rid := rid\<rparr>))"
    using assms(6) by (auto simp: steady_def with_new_def conn_at_live split: if_splits)
  ultimately show ?thesis by (simp add: ep_inv_def with_new_def lookup_exact_def)
qed

lemma update_twice [simp]: "AList.update k v (AList.update k w xs) = AList.update k v xs"
  by (rule update_last)

lemma delete_update_absent: "map_of xs k = None \<Longrightarrow> AList.delete k (AList.update k v xs) = xs"
  by (simp add: delete_update_same delete_absent)

lemma initial_scid:
  "map_of (conn_lookup ep) i = Some rid \<Longrightarrow> conn_at rid ep = Some c \<Longrightarrow>
    initial_association [i] rid ep = Some (set_conn rid (store_associated_cid i c) ep)"
  by (simp add: associate_cid_def on_conn_def)

definition new_connection :: "bool \<Rightarrow> Path \<Rightarrow> Address option \<Rightarrow> conn_options \<Rightarrow> cid \<Rightarrow> connection" where
  "new_connection outbound p nat64 opts i =
     store_associated_cid i (packet_io_ready (make_connection outbound p nat64 opts))"

lemma new_connection_fields:
  "nat64 = None \<or> outbound \<Longrightarrow> connection_inv (new_connection outbound p nat64 opts i)"
  "associated_cids (new_connection outbound p nat64 opts i) = [i]"
  "associated_resets (new_connection outbound p nat64 opts i) = []"
proof -
  have "connection_inv (packet_io_ready c) = connection_inv c" for c
    by (simp add: connection_inv_def)
  then show "nat64 = None \<or> outbound \<Longrightarrow> connection_inv (new_connection outbound p nat64 opts i)"
    by (simp add: new_connection_def make_connection_def connection_ctor_inv)
qed (simp_all add: new_connection_def make_connection_def connection_ctor_def packet_io_ready_def store_associated_cid_def)

lemma connect_loop_made:
  assumes "chosen_cid cids ep = Some i" "map_of (conns ep) rid = None"
  shows "connect_loop cids p nat64 (Made opts [i]) rid ep = Done (Some rid) (with_new rid i (new_connection True p nat64 opts i) ep)"
  using assms
proof (induction cids)
  case (Cons j cids)
  show ?case
  proof (cases "map_of (conn_lookup ep) j = None")
    case True
    then have j: "j = i" using Cons.prems(1) by (simp add: chosen_cid_def)
    let ?c = "packet_io_ready (make_connection True p nat64 opts)"
    let ?ep = "set_conn rid ?c (ep\<lparr>conn_lookup := AList.update i rid (conn_lookup ep), conns := AList.update rid None (conns ep)\<rparr>)"
    have a: "initial_association [i] rid ?ep = Some (set_conn rid (store_associated_cid i ?c) ?ep)"
      by (rule initial_scid) (simp_all add: update_conv')
    show ?thesis
      using True j Cons.prems(2) a
      by (simp add: make_conn_def Let_def lift_ep_def with_new_def new_connection_def set_conn_def del: initial_association.simps)
  next
    case False
    then show ?thesis using Cons by (auto simp: chosen_cid_def)
  qed
qed (simp add: chosen_cid_def)

lemma connect_loop_throws:
  assumes "chosen_cid cids ep = Some i" "map_of (conns ep) rid = None"
  shows "connect_loop cids p nat64 MakeThrows rid ep = Threw (forget_last_lookup ep)"
  using assms
proof (induction cids)
  case (Cons j cids)
  then show ?case
    by (cases "map_of (conn_lookup ep) j = None")
      (auto simp: chosen_cid_def make_conn_def Let_def delete_update_absent forget_last_lookup_def)
qed (simp add: chosen_cid_def)

lemma accept_loop_made:
  assumes "chosen_cid cids ep = Some i" "map_of (conns ep) rid = None"
  shows "accept_loop cids p (Made opts [i]) rid ep = Done (Some rid) (with_new rid i (new_connection False p None opts i) ep)"
  using assms
proof (induction cids)
  case (Cons j cids)
  show ?case
  proof (cases "map_of (conn_lookup ep) j = None")
    case True
    then have j: "j = i" using Cons.prems(1) by (simp add: chosen_cid_def)
    let ?c = "packet_io_ready (make_connection False p None opts)"
    let ?ep = "set_conn rid ?c (ep\<lparr>conn_lookup := AList.update i rid (conn_lookup ep), conns := AList.update rid None (conns ep)\<rparr>)"
    have a: "initial_association [i] rid ?ep = Some (set_conn rid (store_associated_cid i ?c) ?ep)"
      by (rule initial_scid) (simp_all add: update_conv')
    show ?thesis
      using True j Cons.prems(2) a
      by (simp add: make_conn_def Let_def lift_ep_def with_new_def new_connection_def set_conn_def del: initial_association.simps)
  next
    case False
    then show ?thesis using Cons by (auto simp: chosen_cid_def)
  qed
qed (simp add: chosen_cid_def)

section \<open>Operations\<close>

datatype ep_op =
    Connect "cid list" "route option" Address made
  | Listen
  | Receive packet_answers in_packet
  | RunJob nat "rid \<Rightarrow> bytes option"
  | CloseSent io_result rid
  | CleanupTimer rid
  | AppClose rid nat
  | AppCloseAll "bool option"
  | SendFailed rid
  | ConnTimer rid int
  | HostNetwork "Address \<Rightarrow> route option" "rid \<Rightarrow> int"

fun ep_step :: "ep_env \<Rightarrow> ep_op \<Rightarrow> endpoint \<Rightarrow> endpoint option" where
  "ep_step env (Connect cids r remote md) ep =
     (case connect cids (\<lambda>_. r) remote md ep of Done _ ep \<Rightarrow> Some ep | Threw ep \<Rightarrow> Some ep | _ \<Rightarrow> None)"
| "ep_step env Listen ep = Some (listen ep)"
| "ep_step env (Receive pa pkt) ep = (case handle_packet env pa pkt ep of Done _ ep \<Rightarrow> Some ep | _ \<Rightarrow> None)"
| "ep_step env (RunJob pto written) ep = run_job env pto written ep"
| "ep_step env (CloseSent rv rid) ep = close_packet_sent rv rid ep"
| "ep_step env (CleanupTimer rid) ep = cleanup_timer rid ep"
| "ep_step env (AppClose rid code) ep = Some (close_connection env rid (io_error_u64 code) None ep)"
| "ep_step env (AppCloseAll d) ep = Some (close_conns d ep)"
| "ep_step env (SendFailed rid) ep = Some (drop_connection rid (io_error_u64 CONN_SEND_FAIL) ep)"
| "ep_step env (ConnTimer rid rv) ep =
     Option.bind (on_conn rid (\<lambda>c. snd (retransmit_timer rv c)) ep) (take_requests env 0 rid)"
| "ep_step env (HostNetwork rt mig) ep = network_changed env rt mig ep"

text \<open>
  The obligations. The packets ngtcp2 writes fit the buffers they are written into; one of the random ids is not in use;
  constructing an inbound connection does not throw.
\<close>

definition fits :: "nat \<Rightarrow> bytes option \<Rightarrow> bool" where
  "fits n w = pred_option (\<lambda>b. length b \<le> n) w"

definition writes_ok :: "packet_answers \<Rightarrow> bool" where
  "writes_ok pa \<longleftrightarrow>
     fits MAX_PMTUD_UDP_PAYLOAD (vneg_packet pa) \<and> fits MAX_PMTUD_UDP_PAYLOAD (retry_packet (accepts pa)) \<and>
     fits MAX_PMTUD_UDP_PAYLOAD (close_packet (accepts pa)) \<and> (\<forall>n k. fits n (reset_packet pa n k))"

definition inbound_ok :: "packet_answers \<Rightarrow> endpoint \<Rightarrow> bool" where
  "inbound_ok pa ep =
     (case (new_conn pa, chosen_cid (random_cids pa) ep) of (Made _ scids, Some i) \<Rightarrow> scids = [i] | _ \<Rightarrow> False)"

definition packet_ok :: "ep_env \<Rightarrow> packet_answers \<Rightarrow> in_packet \<Rightarrow> endpoint \<Rightarrow> bool" where
  "packet_ok env pa pkt ep \<longleftrightarrow>
     writes_ok pa \<and> inbound_ok pa ep \<and>
     (case route_packet env pa pkt ep of
        RouteTo rid ep \<Rightarrow> deliver_ok env (routes pa) (reads pa) pkt rid ep
      | Stop _ \<Rightarrow> True)"

fun ep_ok :: "ep_env \<Rightarrow> ep_op \<Rightarrow> endpoint \<Rightarrow> bool" where
  "ep_ok env (Connect cids r remote md) ep \<longleftrightarrow>
     is_set remote \<and> (case chosen_cid cids ep of None \<Rightarrow> False | Some i \<Rightarrow> reports_scid md i)"
| "ep_ok env (Receive pa pkt) ep \<longleftrightarrow> packet_ok env pa pkt ep"
| "ep_ok env (RunJob pto written) ep \<longleftrightarrow> streams_bidi env ep \<and> close_packets_ok written"
| "ep_ok env (ConnTimer rid rv) ep \<longleftrightarrow> conn_at rid ep \<noteq> None"
| "ep_ok env _ ep \<longleftrightarrow> True"

text \<open>The outcome of an operation that ends no connection.\<close>

definition goes_on :: "endpoint \<Rightarrow> endpoint option \<Rightarrow> bool" where
  "goes_on ep r \<longleftrightarrow> (\<exists>ep'. r = Some ep' \<and> ep_inv ep' \<and> steady ep ep')"

lemma goes_onI: "ep_inv ep' \<Longrightarrow> steady ep ep' \<Longrightarrow> goes_on ep (Some ep')"
  by (simp add: goes_on_def)

lemma goes_on_same: "ep_inv ep \<Longrightarrow> goes_on ep (Some ep)"
  by (simp add: goes_onI)

lemma keeps_goes_on: "keeps rid ep r \<Longrightarrow> goes_on ep r"
  by (auto simp: keeps_def goes_on_def)

lemma deletes_goes_on: "deletes rid ep r \<Longrightarrow> goes_on ep r"
  by (auto simp: deletes_def goes_on_def)

lemma goes_on_trans: "steady ep ep1 \<Longrightarrow> goes_on ep1 r \<Longrightarrow> goes_on ep r"
  by (auto simp: goes_on_def intro: steady_trans)

lemma addressable_set: "is_set a \<Longrightarrow> is_addressable a \<noteq> None"
  by (auto simp: is_addressable_def is_any_addr_def is_any_port_def is_set_def in4_def in6_def split: option.splits if_splits)

lemma connect_to_goes_on:
  assumes "ep_inv ep" "chosen_cid cids ep = Some i" "reports_scid md i"
  shows "\<exists>ep'. (connect_to cids rt remote md ep = Threw ep' \<or> connect_to cids rt remote md ep = Done (Some (next_rid ep + 1)) ep') \<and>
    goes_on ep (Some ep')"
proof -
  let ?rid = "next_rid ep + 1"
  let ?ep = "ep\<lparr>next_rid := ?rid\<rparr>"
  define p where "p = path_ctor (case rt remote of Some r \<Rightarrow> route_local r | None \<Rightarrow> ep_local ep) remote"
  define nat where "nat = Option.bind (rt remote) route_nat64"
  have eq: "connect_to cids rt remote md ep = connect_loop cids p nat md ?rid ?ep"
    by (simp add: connect_to_def next_reference_id_def p_def nat_def Let_def)
  have ch: "chosen_cid cids ?ep = Some i" using assms(2) by (simp add: chosen_cid_def)
  have free: "map_of (conns ?ep) ?rid = None" using conns_ok_fresh assms(1) by (simp add: ep_inv_def)
  have "ep_inv ?ep" using assms(1) conns_ok_mono [of "next_rid ep" "conns ep" 1] by (simp add: ep_inv_def)
  then have lost: "goes_on ep (Some (forget_last_lookup ?ep))"
    by (auto simp: goes_on_def ep_inv_def forget_last_lookup_def steady_def)
  show ?thesis
  proof (cases md)
    case MakeThrows
    then show ?thesis using connect_loop_throws [OF ch free] lost eq by auto
  next
    case (Made opts scids)
    then have "scids = [i]" using assms(3) by (simp add: reports_scid_def)
    moreover have "goes_on ep (Some (with_new ?rid i (new_connection True p nat opts i) ?ep))"
      using with_new_inv [OF assms(1) chosen_unused [OF assms(2)] new_connection_fields(1) new_connection_fields(2,3)]
      by (simp add: goes_on_def)
    ultimately show ?thesis using connect_loop_made [OF ch free] eq Made by auto
  qed
qed

lemma send_written_goes_on:
  assumes "ep_inv ep" "fits cap w"
  shows "goes_on ep (send_written cap w p ep)"
  using assms
  by (cases w) (auto simp: send_written_def fits_def steady_def intro!: goes_onI goes_on_same)

lemma fetch_goes_on:
  assumes "ep_inv ep"
  shows "\<exists>ep'. fetch_associated_conn i ep = (map_of (conn_lookup ep) i, ep') \<and> ep_inv ep' \<and> steady ep ep' \<and>
    conns ep' = conns ep \<and> conn_lookup ep' = conn_lookup ep"
proof -
  have ex: "lookup_exact (conns ep) (conn_lookup ep)" using assms by (simp add: ep_inv_def)
  have at: "conn_at rid ep \<noteq> None" if "map_of (conn_lookup ep) j = Some rid" for j rid
    using ex that owns_live [of "conns ep" rid j] unfolding lookup_exact_def by (auto simp: conn_at_live)
  have cache: "map_of (conn_lookup ep) j = Some rid" if "last_lookup ep = Some (j, rid)" for j rid
    using assms that by (simp add: ep_inv_def cache_ok_def)
  have upd: "ep_inv (ep\<lparr>last_lookup := Some (j, rid)\<rparr>)" if "map_of (conn_lookup ep) j = Some rid" for j rid
    using assms that by (simp add: ep_inv_def cache_ok_def)
  show ?thesis
  proof (cases "\<exists>rid. last_lookup ep = Some (i, rid)")
    case True
    then show ?thesis using assms cache by (auto simp: fetch_associated_conn_def)
  next
    case False
    then have "fetch_associated_conn i ep =
        (case map_of (conn_lookup ep) i of
           Some rid \<Rightarrow> if conn_at rid ep \<noteq> None then (Some rid, ep\<lparr>last_lookup := Some (i, rid)\<rparr>) else (None, ep)
         | None \<Rightarrow> (None, ep))"
      by (auto simp: fetch_associated_conn_def Let_def split: option.split prod.split)
    then show ?thesis
      using assms at upd by (cases "map_of (conn_lookup ep) i") (auto simp: steady_def)
  qed
qed

lemma accept_goes_on:
  assumes "ep_inv ep" "writes_ok pa" "inbound_ok pa ep"
  shows "\<exists>dealt r ep'. accept_initial_connection (accepts pa) (random_cids pa) (new_conn pa) pkt ep = (dealt, Done r ep') \<and>
    ep_inv ep' \<and> steady ep ep' \<and> (\<forall>rid. r = Some rid \<longrightarrow> conn_at rid ep' \<noteq> None)"
proof -
  obtain opts i where md: "new_conn pa = Made opts [i]" and ch: "chosen_cid (random_cids pa) ep = Some i"
    using assms(3) by (auto simp: inbound_ok_def split: made.splits option.splits)
  let ?rid = "next_rid ep + 1"
  let ?ep = "ep\<lparr>next_rid := ?rid\<rparr>"
  have free: "map_of (conns ?ep) ?rid = None" using conns_ok_fresh assms(1) by (simp add: ep_inv_def)
  have ch': "chosen_cid (random_cids pa) ?ep = Some i" using ch by (simp add: chosen_cid_def)
  have new: "ep_inv (with_new ?rid i (new_connection False p None opts i) ?ep) \<and>
      steady ep (with_new ?rid i (new_connection False p None opts i) ?ep)" for p
    by (rule with_new_inv [OF assms(1) chosen_unused [OF ch] new_connection_fields(1) new_connection_fields(2,3)]) simp_all
  have sent: "\<exists>ep'. lift_ep None x = Done None ep' \<and> ep_inv ep' \<and> steady ep ep'" if "goes_on ep x" for x
    using that by (auto simp: goes_on_def lift_ep_def)
  have retry: "goes_on ep (send_retry a b (retry_packet (accepts pa)) pkt ep)" for a b
    using send_written_goes_on [OF assms(1)] goes_on_same [OF assms(1)] assms(2) by (simp add: send_retry_def writes_ok_def)
  have close: "goes_on ep (send_stateless_connection_close (close_packet (accepts pa)) pkt ep)"
    using send_written_goes_on [OF assms(1)] assms(2) by (simp add: send_stateless_connection_close_def writes_ok_def)
  show ?thesis
  proof (cases "accepted_hdr (accepts pa)")
    case None
    then show ?thesis using assms(1) by (auto simp: accept_initial_connection_def)
  next
    case (Some hdr)
    show ?thesis
    proof (cases "check_token (accepts pa) hdr")
      case TokenOk
      then show ?thesis
        using Some accept_loop_made [OF ch' free] new
        by (auto simp: accept_initial_connection_def next_reference_id_def md with_new_def conn_at_live)
    next
      case TokenClose
      then show ?thesis using Some sent [OF close] by (auto simp: accept_initial_connection_def)
    next
      case TokenRetry
      then show ?thesis using Some sent [OF retry [of "retry_rnd_ok (accepts pa)" "retry_made_ok (accepts pa)"]] by (auto simp: accept_initial_connection_def)
    qed
  qed
qed

text \<open>A packet is handed to a live connection, or the endpoint deals with it.\<close>

definition routes_well :: "endpoint \<Rightarrow> routed \<Rightarrow> bool" where
  "routes_well ep r =
     (case r of
        RouteTo rid ep' \<Rightarrow> ep_inv ep' \<and> steady ep ep' \<and> conn_at rid ep' \<noteq> None
      | Stop (Done _ ep') \<Rightarrow> ep_inv ep' \<and> steady ep ep'
      | Stop _ \<Rightarrow> False)"

lemma routes_well_trans: "steady ep ep1 \<Longrightarrow> routes_well ep1 r \<Longrightarrow> routes_well ep r"
  by (auto simp: routes_well_def split: routed.splits ep_result.splits intro: steady_trans)

lemma reset_conn_live: "ep_inv ep \<Longrightarrow> map_of (reset_token_conns ep) h = Some rid \<Longrightarrow> conn_at rid ep \<noteq> None"
  unfolding ep_inv_def resets_ok_def owns_reset_def conn_at_live by (metis option.simps(4))

lemma stateless_reset_goes_on:
  assumes "ep_inv ep" "\<And>n k. fits n (wr n k)"
  shows "goes_on ep (send_stateless_reset rnd wr pkt ep)"
  using send_written_goes_on [OF assms] goes_on_same [OF assms(1)]
  by (simp add: send_stateless_reset_def split: option.split)

lemma route_unknown_well:
  assumes "ep_inv ep" "writes_ok pa"
  shows "routes_well ep (route_unknown env pa pkt ep)"
proof -
  have "goes_on ep (send_stateless_reset (reset_rnd pa) (reset_packet pa) pkt ep)"
    using assms by (intro stateless_reset_goes_on) (simp_all add: writes_ok_def)
  then have stop: "routes_well ep (Stop (lift_ep None (send_stateless_reset (reset_rnd pa) (reset_packet pa) pkt ep)))"
    by (auto simp: routes_well_def goes_on_def lift_ep_def)
  show ?thesis
    using stop assms(1) reset_conn_live [OF assms(1)]
    by (auto simp: route_unknown_def check_stateless_reset_def get_conn_def Let_def routes_well_def split: option.splits if_splits)
qed

lemma accept_cases:
  assumes "ep_inv ep" "writes_ok pa" "inbound_ok pa ep"
  shows "routes_well ep
    (case accept_initial_connection (accepts pa) (random_cids pa) (new_conn pa) pkt ep of
       (_, Done (Some rid) ep) \<Rightarrow> RouteTo rid ep
     | (dealt_with, Done None ep) \<Rightarrow> if dealt_with then Stop (Done None ep) else route_unknown env pa pkt ep
     | (_, r) \<Rightarrow> Stop r)"
proof -
  obtain dealt r ep' where
    a: "accept_initial_connection (accepts pa) (random_cids pa) (new_conn pa) pkt ep = (dealt, Done r ep')"
      "ep_inv ep'" "steady ep ep'" "\<forall>rid. r = Some rid \<longrightarrow> conn_at rid ep' \<noteq> None"
    using accept_goes_on [OF assms] by metis
  show ?thesis
  proof (cases r)
    case None
    then show ?thesis
      using a routes_well_trans [OF a(3) route_unknown_well [OF a(2) assms(2)]] by (simp add: routes_well_def)
  next
    case (Some rid)
    then show ?thesis using a by (simp add: routes_well_def)
  qed
qed

lemma route_packet_well:
  assumes "ep_inv ep" "writes_ok pa" "inbound_ok pa ep"
  shows "routes_well ep (route_packet env pa pkt ep)"
proof -
  have vneg: "goes_on ep (send_version_negotiation (vneg_packet pa) p ep)" for p
    using send_written_goes_on [OF assms(1)] assms(2) by (simp add: send_version_negotiation_def writes_ok_def)
  show ?thesis
  proof (cases "decode pa")
    case VersionNegotiation
    then show ?thesis using vneg [of "pkt_path pkt"]
      by (auto simp: route_packet_def handle_packet_connid_def goes_on_def routes_well_def)
  next
    case DecodeError
    then show ?thesis using assms(1) by (simp add: route_packet_def handle_packet_connid_def routes_well_def)
  next
    case (DecodedCid i)
    obtain ep' where f: "fetch_associated_conn i ep = (map_of (conn_lookup ep) i, ep')" "ep_inv ep'" "steady ep ep'"
        "conns ep' = conns ep" "conn_lookup ep' = conn_lookup ep" using fetch_goes_on [OF assms(1)] by blast
    have live: "conn_at rid ep' \<noteq> None" if "map_of (conn_lookup ep) i = Some rid" for rid
      using f(2,5) that owns_live [of "conns ep'" rid i] unfolding ep_inv_def lookup_exact_def by (auto simp: conn_at_live)
    have in': "inbound_ok pa ep'" using assms(3) f(5) by (simp add: inbound_ok_def chosen_cid_def)
    have new: "routes_well ep (case accept_initial_connection (accepts pa) (random_cids pa) (new_conn pa) pkt ep' of
         (_, Done (Some rid) ep) \<Rightarrow> RouteTo rid ep
       | (dealt_with, Done None ep) \<Rightarrow> if dealt_with then Stop (Done None ep) else route_unknown env pa pkt ep
       | (_, r) \<Rightarrow> Stop r)"
      by (rule routes_well_trans [OF f(3) accept_cases [OF f(2) assms(2) in']])
    have unk: "routes_well ep (route_unknown env pa pkt ep')"
      by (rule routes_well_trans [OF f(3) route_unknown_well [OF f(2) assms(2)]])
    show ?thesis
    proof (cases "length i > NGTCP2_MAX_CIDLEN")
      case True
      then show ?thesis using assms(1) DecodedCid by (simp add: route_packet_def handle_packet_connid_def routes_well_def)
    next
      case False
      then have "route_packet env pa pkt ep =
          (case map_of (conn_lookup ep) i of
             Some rid \<Rightarrow> RouteTo rid ep'
           | None \<Rightarrow>
               if accepting_inbound ep'
               then (case accept_initial_connection (accepts pa) (random_cids pa) (new_conn pa) pkt ep' of
                       (_, Done (Some rid) ep) \<Rightarrow> RouteTo rid ep
                     | (dealt_with, Done None ep) \<Rightarrow> if dealt_with then Stop (Done None ep) else route_unknown env pa pkt ep
                     | (_, r) \<Rightarrow> Stop r)
               else route_unknown env pa pkt ep')"
        by (simp only: route_packet_def DecodedCid handle_packet_connid_def decoded.case if_False option.case prod.case f(1))
      then show ?thesis using new unk live f(2,3)
        by (cases "map_of (conn_lookup ep) i"; cases "accepting_inbound ep'") (simp_all add: routes_well_def [of ep "RouteTo _ _"])
    qed
  qed
qed

lemma receive_goes_on:
  assumes "ep_inv ep" "packet_ok env pa pkt ep"
  shows "goes_on ep (ep_step env (Receive pa pkt) ep)"
proof -
  have well: "routes_well ep (route_packet env pa pkt ep)"
    using assms by (intro route_packet_well) (simp_all add: packet_ok_def)
  show ?thesis
  proof (cases "route_packet env pa pkt ep")
    case (RouteTo rid ep1)
    have r: "ep_inv ep1" "steady ep ep1" "conn_at rid ep1 \<noteq> None" using well RouteTo by (simp_all add: routes_well_def)
    have "keeps rid ep1 (hand_over env (routes pa) (reads pa) pkt rid ep1)"
      by (rule deliver_keeps [OF r(1,3)]) (use assms(2) RouteTo in \<open>simp add: packet_ok_def\<close>)
    then have "goes_on ep (hand_over env (routes pa) (reads pa) pkt rid ep1)"
      by (rule goes_on_trans [OF r(2) keeps_goes_on])
    then show ?thesis using RouteTo by (auto simp: handle_packet_def lift_ep_def goes_on_def)
  next
    case (Stop r)
    then show ?thesis using well by (cases r) (auto simp: handle_packet_def routes_well_def goes_on_def)
  qed
qed

lemma network_each_goes_on:
  "ep_inv ep \<Longrightarrow> list_all (\<lambda>rid. conn_at rid ep \<noteq> None) rids \<Longrightarrow> goes_on ep (network_changed_each env rt mig rids ep)"
proof (induction rids arbitrary: ep)
  case Nil
  then show ?case by (simp add: goes_on_same)
next
  case (Cons rid rids)
  obtain c where c: "conn_at rid ep = Some c" using Cons.prems(2) by auto
  show ?case
  proof (cases "is_outbound c")
    case True
    let ?c = "c\<lparr>unconfirmed_local := None\<rparr>"
    have ci: "connection_inv c" using ep_inv_conn [OF Cons.prems(1) c] by simp
    then have "route_inv ?c" by (simp add: connection_inv_def route_inv_unconfirmed)
    then obtain k c' where c': "check_local_address (net env) (codes env) rt (\<lambda>_. mig rid) ?c = Some (k, c')" "route_inv c'"
        "chans c' = chans ?c" using check_request_inv [of ?c "net env" "codes env" rt "\<lambda>_. mig rid"] True by auto
    have "connection_inv c'" using c' ci by (simp add: connection_inv_def)
    moreover have "quiet c c'" using quiet_trans [OF _ quiet_check [OF c'(1)], of c] by simp
    ultimately have "keeps rid ep (Some (set_conn rid c' ep))" by (intro keeps_quiet [OF Cons.prems(1) c])
    then have k: "ep_inv (set_conn rid c' ep)" "steady ep (set_conn rid c' ep)" by (auto simp: keeps_def)
    have "goes_on (set_conn rid c' ep) (network_changed_each env rt mig rids (set_conn rid c' ep))"
      using Cons.prems(2) by (intro Cons.IH [OF k(1)]) (auto simp: list_all_iff)
    then show ?thesis using goes_on_trans [OF k(2)] c True c'(1) by simp
  next
    case False
    then show ?thesis using Cons c by simp
  qed
qed

section \<open>Jobs\<close>

definition closed_inv :: "endpoint \<Rightarrow> bool" where
  "closed_inv ep \<longleftrightarrow>
     (\<forall>rid. closed_calls rid ep \<le> 1 \<and>
        (closed_calls rid ep \<noteq> 0 \<longrightarrow> rid \<le> next_rid ep \<and> (\<forall>c. conn_at rid ep = Some c \<longrightarrow> ended c)))"

lemma closed_inv_steady: "closed_inv ep \<Longrightarrow> steady ep ep' \<Longrightarrow> closed_inv ep'"
  unfolding closed_inv_def steady_def by (metis le_trans)

lemma closed_inv_ends:
  assumes "closed_inv ep" "ends rid ep (Some ep')" "conn_at rid ep = Some c" "\<not> ended c" "ep_inv ep"
  shows "closed_inv ep'"
proof -
  have z: "closed_calls rid ep = 0" using assms(1,3,4) unfolding closed_inv_def by blast
  have le: "rid \<le> next_rid ep" using ep_inv_conn [OF assms(5,3)] by simp
  have e: "next_rid ep' = next_rid ep" "others rid ep ep'" "\<forall>x. x \<noteq> rid \<longrightarrow> closed_calls x ep' = closed_calls x ep"
      "closed_calls rid ep' \<le> 1" "\<forall>c. conn_at rid ep' = Some c \<longrightarrow> ended c"
    using assms(2) z by (auto simp: ends_def)
  show ?thesis
    unfolding closed_inv_def
  proof
    fix r
    show "closed_calls r ep' \<le> 1 \<and> (closed_calls r ep' \<noteq> 0 \<longrightarrow> r \<le> next_rid ep' \<and> (\<forall>c. conn_at r ep' = Some c \<longrightarrow> ended c))"
      using assms(1) e le unfolding closed_inv_def others_def by (cases "r = rid") auto
  qed
qed

text \<open>A close of one or of all connections.\<close>

lemma close_now_cases:
  assumes "ep_inv ep" "conn_at rid ep = Some c" "conn_bidi env c" "fits MAX_PMTUD_UDP_PAYLOAD w"
  shows "\<exists>ep'. close_connection_now env pto w ec rid ep = Some ep' \<and> ep_inv ep' \<and> others rid ep ep' \<and> (closed_inv ep \<longrightarrow> closed_inv ep')"
proof (cases "ended c")
  case True
  then have "close_connection_now env pto w ec rid ep = Some ep" using assms(2) by (auto simp: close_connection_now_def ended_def)
  then show ?thesis using assms(1) by simp
next
  case False
  have "ends rid ep (close_connection_now env pto w ec rid ep)"
    by (rule close_ends [OF assms(1-3) False]) (use assms(4) in \<open>simp add: fits_def\<close>)
  then obtain ep' where ep': "close_connection_now env pto w ec rid ep = Some ep'" "ends rid ep (Some ep')" "ep_inv ep'" "others rid ep ep'"
    by (auto simp: ends_def)
  then show ?thesis using closed_inv_ends [OF _ ep'(2) assms(2) False assms(1)] by blast
qed

lemma close_each_goes_on:
  assumes "ep_inv ep" "distinct rids" "\<And>rid. rid \<in> set rids \<Longrightarrow> \<exists>c. conn_at rid ep = Some c \<and> conn_bidi env c"
    "close_packets_ok written"
  shows "\<exists>ep'. close_each env pto written rids ep = Some ep' \<and> ep_inv ep' \<and> (closed_inv ep \<longrightarrow> closed_inv ep')"
  using assms
proof (induction rids arbitrary: ep)
  case (Cons rid rids)
  obtain c where c: "conn_at rid ep = Some c" "conn_bidi env c" using Cons.prems(3) by auto
  have "fits MAX_PMTUD_UDP_PAYLOAD (written rid)" using assms(4) by (simp add: close_packets_ok_def fits_def)
  then obtain ep1 where ep1: "close_connection_now env pto (written rid) (io_error_u64 0) rid ep = Some ep1" "ep_inv ep1"
      "others rid ep ep1" "closed_inv ep \<longrightarrow> closed_inv ep1"
    using close_now_cases [OF Cons.prems(1) c] by blast
  have "\<exists>c. conn_at r ep1 = Some c \<and> conn_bidi env c" if "r \<in> set rids" for r
  proof -
    have "r \<noteq> rid" using Cons.prems(2) that by auto
    then show ?thesis using Cons.prems(3) [of r] that ep1(3) by (simp add: others_def)
  qed
  then obtain ep2 where "close_each env pto written rids ep1 = Some ep2" "ep_inv ep2" "closed_inv ep1 \<longrightarrow> closed_inv ep2"
    using Cons.IH [OF ep1(2) _ _ assms(4)] Cons.prems(2) by auto
  then show ?case using ep1 by auto
qed simp

lemma conns_distinct: "ep_inv ep \<Longrightarrow> distinct (map fst (conns ep))"
  by (simp add: ep_inv_def conns_ok_def)

lemma in_conns_at:
  assumes "ep_inv ep" "(rid, p) \<in> set (conns ep)"
  shows "\<exists>c. p = Some c \<and> conn_at rid ep = Some c"
proof -
  have m: "map_of (conns ep) rid = Some p" using conns_distinct [OF assms(1)] assms(2) by simp
  have "conns_ok (next_rid ep) (conns ep)" using assms(1) by (simp add: ep_inv_def)
  from conns_okD [OF this m] show ?thesis using m by (auto simp: conn_at_def)
qed

text \<open>No job drops a connection that is already closing or draining.\<close>

definition no_late_drop :: "endpoint \<Rightarrow> bool" where
  "no_late_drop ep =
     (case jobs ep of
        JobDrop rid _ # _ \<Rightarrow> (case conn_at rid ep of None \<Rightarrow> True | Some c \<Rightarrow> \<not> ended c)
      | _ \<Rightarrow> True)"

lemma run_job_goes_on:
  assumes "ep_inv ep" "streams_bidi env ep" "close_packets_ok written"
  shows "\<exists>ep'. run_job env pto written ep = Some ep' \<and> ep_inv ep' \<and> (closed_inv ep \<and> no_late_drop ep \<longrightarrow> closed_inv ep')"
proof (cases "jobs ep")
  case Nil
  then show ?thesis using assms(1) by (simp add: run_job_def)
next
  case (Cons j js)
  let ?ep = "ep\<lparr>jobs := js\<rparr>"
  have inv: "ep_inv ?ep" using assms(1) by simp
  have bidi: "conn_bidi env c" if "conn_at rid ?ep = Some c" for rid c
    using streams_bidi_at [OF assms(2)] that by simp
  have cl: "closed_inv ?ep = closed_inv ep" by (simp add: closed_inv_def)
  have same: "\<exists>ep'. Some ?ep = Some ep' \<and> ep_inv ep' \<and> (closed_inv ep \<and> no_late_drop ep \<longrightarrow> closed_inv ep')" using inv cl by simp
  have w: "fits MAX_PMTUD_UDP_PAYLOAD (written rid)" for rid using assms(3) by (simp add: close_packets_ok_def fits_def)
  show ?thesis
  proof (cases j)
    case (JobClose rid ec msg)
    show ?thesis
    proof (cases "conn_at rid ?ep")
      case None
      then show ?thesis using same Cons JobClose by (simp add: run_job_def)
    next
      case (Some c)
      obtain ep' where "close_connection_now env pto (written rid) ec rid ?ep = Some ep'" "ep_inv ep'" "closed_inv ?ep \<longrightarrow> closed_inv ep'"
        using close_now_cases [OF inv Some bidi [OF Some] w] by blast
      then show ?thesis using cl Cons JobClose Some by (simp add: run_job_def)
    qed
  next
    case (JobDrop rid err)
    show ?thesis
    proof (cases "conn_at rid ?ep")
      case None
      then show ?thesis using same Cons JobDrop by (simp add: run_job_def get_conn_def)
    next
      case (Some c)
      have "ends rid ?ep (drop_connection_now env err rid ?ep)"
        by (rule hooks_delete [OF _ Some bidi [OF Some]]) (use inv in \<open>simp add: ready_to_end_def\<close>)
      then obtain ep' where ep': "drop_connection_now env err rid ?ep = Some ep'" "ends rid ?ep (Some ep')" "ep_inv ep'"
        by (auto simp: ends_def)
      have "closed_inv ep'" if "closed_inv ep" "no_late_drop ep"
        using closed_inv_ends [OF _ ep'(2) Some _ inv] that cl Cons JobDrop Some by (simp add: no_late_drop_def)
      then show ?thesis using ep' Cons JobDrop Some by (simp add: run_job_def get_conn_def)
    qed
  next
    case (JobDrain rid code)
    show ?thesis
    proof (cases "conn_at rid ?ep")
      case None
      then show ?thesis using same Cons JobDrain by (simp add: run_job_def)
    next
      case (Some c)
      show ?thesis
      proof (cases "ended c")
        case True
        then have "drain_connection env pto code rid ?ep = Some ?ep" using Some by (auto simp: drain_connection_def ended_def)
        then show ?thesis using same Cons JobDrain Some by (simp add: run_job_def)
      next
        case False
        obtain ep' where ep': "drain_connection env pto code rid ?ep = Some ep'" "ends rid ?ep (Some ep')" "ep_inv ep'"
          using drain_ends [OF inv Some bidi [OF Some] False, of pto code] by (auto simp: ends_def)
        then show ?thesis
          using closed_inv_ends [OF _ ep'(2) Some False inv] cl Cons JobDrain Some by (simp add: run_job_def)
      qed
    qed
  next
    case (JobCloseConns d)
    let ?sel = "filter (\<lambda>(_, p). case p of None \<Rightarrow> False | Some c \<Rightarrow> (case d of None \<Rightarrow> True | Some b \<Rightarrow> is_outbound c = b)) (conns ?ep)"
    have "distinct (map fst ?sel)" using conns_distinct [OF inv] by (rule distinct_map_filter)
    moreover have "\<exists>c. conn_at rid ?ep = Some c \<and> conn_bidi env c" if "rid \<in> set (map fst ?sel)" for rid
      using that in_conns_at [OF inv, of rid] bidi [of rid] by fastforce
    ultimately have "\<exists>ep'. close_conns_now env pto written d ?ep = Some ep' \<and> ep_inv ep' \<and> (closed_inv ?ep \<longrightarrow> closed_inv ep')"
      unfolding close_conns_now_def using close_each_goes_on [OF inv, of "map fst ?sel" env written pto] assms(3) by simp
    then show ?thesis using cl Cons JobCloseConns by (auto simp: run_job_def)
  qed
qed

lemma ep_step_goes_on:
  assumes "ep_inv ep" "ep_ok env x ep" "\<And>pto w. x \<noteq> RunJob pto w"
  shows "goes_on ep (ep_step env x ep)"
proof (cases x)
  case (Connect cids r remote md)
  obtain i where i: "chosen_cid cids ep = Some i" "reports_scid md i" using assms(2) Connect by (auto split: option.splits)
  have thrown: "goes_on ep (Some ep)" using assms(1) by (rule goes_on_same)
  have "goes_on ep (case connect_to cids (\<lambda>_. r) a md ep of Done _ ep \<Rightarrow> Some ep | Threw ep \<Rightarrow> Some ep | _ \<Rightarrow> None)" for a
    using connect_to_goes_on [OF assms(1) i, of "\<lambda>_. r" a] by auto
  then show ?thesis
    using Connect assms(2) thrown addressable_set [of remote]
    by (auto simp: connect_def split: sum.split)
next
  case (Receive pa pkt)
  then show ?thesis using receive_goes_on [OF assms(1)] assms(2) by simp
next
  case (CloseSent rv rid)
  then show ?thesis
    using deletes_goes_on [OF delete_connection_deletes [OF assms(1)]] goes_on_same [OF assms(1)]
    by (auto simp: close_packet_sent_def get_conn_def split: option.split)
next
  case (CleanupTimer rid)
  show ?thesis
  proof (cases "map_of (conns ep) rid")
    case None
    then show ?thesis using goes_on_same [OF assms(1)] CleanupTimer by (simp add: cleanup_timer_def)
  next
    case (Some p)
    then obtain c where "conn_at rid ep = Some c" using in_conns_at [OF assms(1) map_of_SomeD [OF Some]] by blast
    then show ?thesis
      using deletes_goes_on [OF delete_connection_deletes [OF assms(1)]] CleanupTimer Some by (simp add: cleanup_timer_def)
  qed
next
  case (ConnTimer rid rv)
  then obtain c where c: "conn_at rid ep = Some c" using assms(2) by auto
  let ?c = "snd (retransmit_timer rv c)"
  have "connection_inv ?c" using ep_inv_conn [OF assms(1) c] by (simp add: connection_inv_def retransmit_inv)
  moreover have "quiet c ?c" by (simp add: retransmit_timer_def Let_def)
  ultimately have k: "keeps rid ep (Some (set_conn rid ?c ep))" by (rule keeps_quiet [OF assms(1) c])
  then have "keeps rid (set_conn rid ?c ep) (take_requests env 0 rid (set_conn rid ?c ep))"
    by (intro take_requests_keeps [of _ _ ?c]) (auto simp: keeps_def)
  then have "goes_on ep (take_requests env 0 rid (set_conn rid ?c ep))"
    using k by (intro goes_on_trans [OF _ keeps_goes_on]) (auto simp: keeps_def)
  then show ?thesis using ConnTimer c by (simp add: on_conn_def)
next
  case (HostNetwork rt mig)
  have "conn_at rid ep \<noteq> None" if "rid \<in> set (map fst (conns ep))" for rid
    using that in_conns_at [OF assms(1), of rid] by fastforce
  then have "list_all (\<lambda>rid. conn_at rid ep \<noteq> None) (map fst (conns ep))" by (simp add: list_all_iff)
  then show ?thesis using network_each_goes_on [OF assms(1)] HostNetwork by (simp add: network_changed_def)
qed (use assms in \<open>auto simp: listen_def close_connection_def close_conns_def drop_connection_def steady_def intro!: goes_onI\<close>)

end
