(* ===== verification/Endpoint_Correct.thy ===== *)
theory Endpoint_Correct
  imports Endpoint_Steps
begin

text \<open>
  What holds of an endpoint after any sequence of operations: its tables, the closed callback, deletion, routing and
  stateless resets. The contract \<open>op_system\<close> of Quic_Prelude is interpreted on the endpoint's operations, twice.
\<close>

section \<open>Reachable endpoints\<close>

text \<open>The constructor, after its options: a random secret is used if none was given.\<close>

definition endpoint_ctor :: "Address \<Rightarrow> bool \<Rightarrow> bytes \<Rightarrow> bytes \<Rightarrow> bool \<Rightarrow> endpoint" where
  "endpoint_ctor local manual given rnd has_close_cb =
     \<lparr>ep_local = local, routes_manually = manual, accepting_inbound = False, secret = (if given = [] then rnd else given),
      close_cb = has_close_cb, next_rid = 0, conns = [], conn_lookup = [], last_lookup = None, reset_token_conns = [],
      path_validation_tokens = [], batch = batch_ctor, jobs = [], timers = [], doomed = [], ep_out = []\<rparr>"

lemma endpoint_ctor_inv: "ep_inv (endpoint_ctor l m g r cb)" "closed_inv (endpoint_ctor l m g r cb)"
  by (simp_all add: endpoint_ctor_def ep_inv_def conns_ok_def lookup_exact_def owns_cid_def live_def resets_ok_def closed_inv_def closed_calls_def)

lemma ep_step_inv:
  assumes "ep_inv ep" "ep_ok env x ep"
  shows "\<exists>ep'. ep_step env x ep = Some ep' \<and> ep_inv ep'"
proof (cases "\<exists>pto w. x = RunJob pto w")
  case True
  then obtain pto w where x: "x = RunJob pto w" by blast
  then show ?thesis using run_job_goes_on [OF assms(1), of env w pto] assms(2) by auto
next
  case False
  then show ?thesis using ep_step_goes_on [OF assms] by (auto simp: goes_on_def)
qed

interpretation ep_sys: op_system "ep_step env" "ep_ok env" ep_inv for env
  by unfold_locales (rule ep_step_inv)

text \<open>The obligation for the closed callback: no job drops a connection that is already closing or draining.\<close>

definition ep_once_ok :: "ep_env \<Rightarrow> ep_op \<Rightarrow> endpoint \<Rightarrow> bool" where
  "ep_once_ok env x ep \<longleftrightarrow> ep_ok env x ep \<and> (case x of RunJob _ _ \<Rightarrow> no_late_drop ep | _ \<Rightarrow> True)"

interpretation once_sys: op_system "ep_step env" "ep_once_ok env" "\<lambda>ep. ep_inv ep \<and> closed_inv ep" for env
proof unfold_locales
  fix ep x
  assume inv: "ep_inv ep \<and> closed_inv ep" and ok: "ep_once_ok env x ep"
  show "\<exists>ep'. ep_step env x ep = Some ep' \<and> ep_inv ep' \<and> closed_inv ep'"
  proof (cases "\<exists>pto w. x = RunJob pto w")
    case True
    then obtain pto w where x: "x = RunJob pto w" by blast
    then show ?thesis using run_job_goes_on [of ep env w pto] inv ok by (auto simp: ep_once_ok_def)
  next
    case False
    then obtain ep' where "ep_step env x ep = Some ep'" "ep_inv ep'" "steady ep ep'"
      using ep_step_goes_on [of ep env x] inv ok by (auto simp: goes_on_def ep_once_ok_def)
    then show ?thesis using closed_inv_steady inv by blast
  qed
qed

lemma get_all_conns_some: "ep_inv ep \<Longrightarrow> get_all_conns d ep \<noteq> None"
proof -
  assume inv: "ep_inv ep"
  have "list_all (\<lambda>(_, p). p \<noteq> None) (conns ep)"
    unfolding list_all_iff using in_conns_at [OF inv] by fastforce
  then show ?thesis by (auto simp: get_all_conns_def split: option.split)
qed

lemma owns_conn: "owns_cid (conns ep) rid i \<longleftrightarrow> (\<exists>c. conn_at rid ep = Some c \<and> i \<in> set (associated_cids c))"
  "owns_reset (conns ep) rid h \<longleftrightarrow> (\<exists>c. conn_at rid ep = Some c \<and> h \<in> set (associated_resets c))"
  by (auto simp: owns_cid_def owns_reset_def conn_at_live split: option.splits)


text \<open>
  C19: over any such sequence in which no queued drop comes up for a connection that is already closing or draining, a
  connection's closed callback (or the endpoint's, for it) is called at most once, and reference ids are not reused.
\<close>
theorem closed_callback_at_most_once:
  assumes "ops_ok (ep_step env) (ep_once_ok env) ops (endpoint_ctor local manual given rnd cb)"
  shows "\<exists>ep. run_ops (ep_step env) ops (endpoint_ctor local manual given rnd cb) = Some ep \<and>
    (\<forall>rid. closed_calls rid ep \<le> 1 \<and> (rid > next_rid ep \<longrightarrow> closed_calls rid ep = 0 \<and> conn_at rid ep = None))"
proof -
  obtain ep where ep: "run_ops (ep_step env) ops (endpoint_ctor local manual given rnd cb) = Some ep" "ep_inv ep" "closed_inv ep"
    using once_sys.run_inv [OF _ assms] endpoint_ctor_inv by blast
  have "conn_at rid ep = None" if "rid > next_rid ep" for rid
    using ep_inv_conn [OF ep(2), of rid] that by (cases "conn_at rid ep") auto
  moreover have "closed_calls rid ep \<le> 1" "rid > next_rid ep \<Longrightarrow> closed_calls rid ep = 0" for rid
    using ep(3) unfolding closed_inv_def by (blast, metis leD)
  ultimately show ?thesis using ep(1) by blast
qed

section \<open>Deletion\<close>

text \<open>
  C21: deleting a connection of a reachable endpoint succeeds and leaves nothing behind that leads to it: no id, no reset
  token, no cached lookup; every other connection and every id of another is as it was.
\<close>
theorem deleted_connection_forgotten:
  assumes "ops_ok (ep_step env) (ep_ok env) ops (endpoint_ctor local manual given rnd cb)"
    "run_ops (ep_step env) ops (endpoint_ctor local manual given rnd cb) = Some ep" "conn_at rid ep = Some c"
  shows "\<exists>ep'. delete_connection rid ep = Some ep' \<and> conn_at rid ep' = None \<and>
    (\<forall>i. map_of (conn_lookup ep') i \<noteq> Some rid \<and> fst (fetch_associated_conn i ep') \<noteq> Some rid) \<and>
    (\<forall>h. map_of (reset_token_conns ep') h \<noteq> Some rid) \<and>
    (\<forall>r. r \<noteq> rid \<longrightarrow> conn_at r ep' = conn_at r ep) \<and>
    (\<forall>i r. r \<noteq> rid \<longrightarrow> (map_of (conn_lookup ep') i = Some r) = (map_of (conn_lookup ep) i = Some r))"
proof -
  have inv: "ep_inv ep" by (rule ep_sys.run_result [OF endpoint_ctor_inv(1) assms(1,2)])
  have del: "deletes rid ep (delete_connection rid ep)" by (rule delete_connection_deletes [OF inv assms(3)])
  obtain ep' where ep': "delete_connection rid ep = Some ep'" "ep_inv ep'" "others rid ep ep'" "conn_at rid ep' = None"
    using del by (auto simp: deletes_def)
  have ex: "map_of (conn_lookup e) i = Some r \<longleftrightarrow> (\<exists>c. conn_at r e = Some c \<and> i \<in> set (associated_cids c))" if "ep_inv e" for e i r
    using that unfolding ep_inv_def lookup_exact_def owns_conn(1) by blast
  have "map_of (reset_token_conns ep') h \<noteq> Some rid" for h
    using ep'(2,4) unfolding ep_inv_def resets_ok_def owns_conn by fastforce
  moreover have "fst (fetch_associated_conn i ep') = map_of (conn_lookup ep') i" for i using fetch_goes_on [OF ep'(2), of i] by auto
  ultimately show ?thesis using ep' ex [OF ep'(2)] ex [OF inv] by (simp add: others_def)
qed

section \<open>Routing\<close>

text \<open>Only one connection changes, and the endpoint itself calls nothing.\<close>

definition local_to :: "rid \<Rightarrow> endpoint \<Rightarrow> endpoint option \<Rightarrow> bool" where
  "local_to rid ep r = pred_option (\<lambda>ep'. others rid ep ep' \<and> ep_out ep' = ep_out ep) r"

lemma local_to_simps [simp]:
  "local_to rid ep None" "local_to rid ep (Some ep') \<longleftrightarrow> others rid ep ep' \<and> ep_out ep' = ep_out ep"
  by (simp_all add: local_to_def)

lemma others_frame [simp]:
  "others rid ep (set_conn rid c ep') = others rid ep ep'" "ep_out (set_conn rid c ep'') = ep_out ep''"
  "others rid ep (ep'\<lparr>conn_lookup := lk\<rparr>) = others rid ep ep'" "others rid ep (ep'\<lparr>reset_token_conns := rs\<rparr>) = others rid ep ep'"
  "others rid ep (ep'\<lparr>last_lookup := ll\<rparr>) = others rid ep ep'" "others rid ep (ep'\<lparr>jobs := js\<rparr>) = others rid ep ep'"
  "others rid ep (ep'\<lparr>path_validation_tokens := ts\<rparr>) = others rid ep ep'"
  by (auto simp: others_def)

lemma local_to_trans: "local_to rid ep (Some ep1) \<Longrightarrow> local_to rid ep1 r \<Longrightarrow> local_to rid ep r"
  by (cases r) (auto simp: others_def)

lemma local_on_conn:
  "others rid ep ep' \<Longrightarrow> ep_out ep' = ep_out ep \<Longrightarrow> local_to rid ep (on_conn rid f ep')"
  by (simp add: on_conn_def split: option.split)

lemma local_associate: "local_to rid ep (associate_cid i w rid ep)"
  by (auto simp: associate_cid_def Let_def intro!: local_on_conn)

lemma local_dissociate: "local_to rid ep (dissociate_cid i rid ep)"
  by (auto simp: dissociate_cid_def forget_last_lookup_def intro!: local_on_conn)

lemma local_server_handshake: "local_to rid ep (on_server_handshake tk dcid token rv rid ep)"
proof (cases "conn_at rid ep")
  case None
  then show ?thesis by (simp add: on_server_handshake_def server_handshake_completed_def)
next
  case (Some c)
  define c1 where "c1 = c\<lparr>handshaked := True, handshake_confirmed := True\<rparr>"
  define ep1 where "ep1 = set_conn rid (if tk then ng_emit TlsSendTickets c1 else c1) ep"
  define r where "r = (case dcid of
      Some i \<Rightarrow> if i \<noteq> [] \<and> i \<in> set (associated_cids c1) then dissociate_cid i rid ep1 else Some ep1 | None \<Rightarrow> Some ep1)"
  have r: "local_to rid ep r"
    by (rule local_to_trans [of _ _ ep1]) (auto simp: ep1_def r_def local_dissociate split: option.split)
  have eq: "server_handshake_completed tk dcid token rv rid ep =
      (case r of
         None \<Rightarrow> None
       | Some ep \<Rightarrow>
           (case conn_at rid ep of
              None \<Rightarrow> None
            | Some c \<Rightarrow> let (res, c) = submit_new_token (- 1) token rv c in Some (res, set_conn rid c ep)))"
    unfolding server_handshake_completed_def Some c1_def ep1_def r_def Let_def by simp
  show ?thesis
  proof (cases r)
    case (Some ep2)
    then show ?thesis
      using r by (cases "conn_at rid ep2") (auto simp: on_server_handshake_def eq intro!: local_on_conn split: prod.split)
  qed (simp add: on_server_handshake_def eq)
qed

lemma local_callback: "local_to rid ep (run_ep_callback env rid x ep)"
proof (cases x)
  case (CbConn y)
  then show ?thesis by (auto simp: local_to_def option.pred_set split: option.split)
next
  case (CbNewCid a i b)
  then show ?thesis
    using local_associate [of rid ep i False]
    by (auto simp: get_new_connection_id_def associate_ngtcp2_cid_def option.map_comp comp_def option.map_ident)
next
  case (CbRemoveCid i)
  then show ?thesis using local_dissociate by (auto simp: remove_connection_id_def dissociate_ngtcp2_cid_def)
next
  case (CbClientInitial i)
  then show ?thesis using local_associate by (auto simp: associate_initial_dcid_def split: option.split)
next
  case (CbCidStatus t token)
  have "local_to rid ep (associate_reset env token rid ep)"
    by (auto simp: associate_reset_def Let_def intro!: local_on_conn split: option.split)
  moreover have "local_to rid ep (dissociate_reset env token rid ep)"
    using local_on_conn [of rid ep ep]
    by (auto simp: dissociate_reset_def Let_def local_to_def option.pred_set split: option.split)
  ultimately show ?thesis using CbCidStatus by (auto simp: on_connection_id_status_def split: cid_status.split)
next
  case (CbServerHandshake tk i token rv)
  then show ?thesis using local_server_handshake by simp
next
  case (CbToken token)
  then show ?thesis by (auto simp: recv_token_def store_path_validation_token_def split: option.split)
qed (auto simp: recv_stateless_reset_def)

lemma local_callbacks: "local_to rid ep (run_ops (run_ep_callback env rid) xs ep)"
proof (induction xs arbitrary: ep)
  case (Cons x xs)
  then show ?case using local_callback [of rid ep env x] local_to_trans by (auto split: option.split)
qed simp

lemma local_take_requests: "local_to rid ep (take_requests env code rid ep)"
  by (auto simp: take_requests_def split: option.split)

lemma local_conn_packet: "local_to rid ep (conn_packet env ra rid ep)"
proof (cases "conn_at rid ep")
  case (Some c)
  let ?r = "run_ops (run_ep_callback env rid) (read_callbacks ra) (set_conn rid (ng_emit NgReadPkt c) ep)"
  have r: "local_to rid ep ?r" by (rule local_to_trans [OF _ local_callbacks]) simp
  have "local_to rid ep (take_requests env (close_code ra) rid (set_conn rid c' ep1))" if "?r = Some ep1" for ep1 c'
    by (rule local_to_trans [OF _ local_take_requests]) (use r that in simp)
  then show ?thesis using Some r by (auto simp: conn_packet_def split: option.split)
qed (simp add: conn_packet_def)

lemma deliver_local:
  assumes "hand_over env rt ra pkt rid ep = Some ep'"
  shows "others rid ep ep' \<and> (\<exists>p. ep_out ep' = ep_out ep @ [DeliverPacket rid p] \<and>
    (\<forall>c. conn_at rid ep = Some c \<longrightarrow> \<not> is_outbound c \<longrightarrow> p = pkt_path pkt))"
proof -
  obtain c c1 where c: "conn_at rid ep = Some c" "check_arrival env rt (migrate_rv ra) (pkt_path pkt) c = Some c1"
    using assms by (auto simp: hand_over_def split: option.splits)
  let ?p = "relabel (net env) c1 (pkt_path pkt)"
  let ?ep = "ep_emit (DeliverPacket rid ?p) (set_conn rid c1 ep)"
  have "conn_packet env ra rid ?ep = Some ep'" using assms c by (simp add: hand_over_def)
  then have "others rid ?ep ep'" "ep_out ep' = ep_out ?ep" using local_conn_packet [of rid ?ep env ra] by auto
  moreover have "others rid ep ?ep" "ep_out ?ep = ep_out ep @ [DeliverPacket rid ?p]"
    by (simp add: others_def) (simp add: ep_emit_def)
  moreover have "?p = pkt_path pkt" if "\<not> is_outbound c" using c(2) that by (auto simp: relabel_def check_arrival_def)
  ultimately show ?thesis using c(1) by (auto simp: others_def)
qed

text \<open>
  C6: in a reachable endpoint a packet whose destination id a connection owns is handed to that connection, once, and to no other:
  every other connection stays as it was, whatever ngtcp2 calls back while it reads the packet. A server's packet
  keeps the path it arrived on.
\<close>
theorem packet_reaches_its_owner:
  assumes "ops_ok (ep_step env) (ep_ok env) ops (endpoint_ctor local manual given rnd cb)"
    "run_ops (ep_step env) ops (endpoint_ctor local manual given rnd cb) = Some ep"
    "conn_at rid ep = Some c" "i \<in> set (associated_cids c)"
    "decode pa = DecodedCid i" "length i \<le> NGTCP2_MAX_CIDLEN" "packet_ok env pa pkt ep"
  shows "\<exists>ep' p. handle_packet env pa pkt ep = Done (Some rid) ep' \<and> ep_out ep' = ep_out ep @ [DeliverPacket rid p] \<and>
    (\<forall>r. r \<noteq> rid \<longrightarrow> conn_at r ep' = conn_at r ep) \<and> conn_at rid ep' \<noteq> None \<and>
    (\<not> is_outbound c \<longrightarrow> p = pkt_path pkt)"
proof -
  have inv: "ep_inv ep" by (rule ep_sys.run_result [OF endpoint_ctor_inv(1) assms(1,2)])
  have "map_of (conn_lookup ep) i = Some rid"
    using inv assms(3,4) unfolding ep_inv_def lookup_exact_def owns_conn(1) by blast
  then obtain ep1 where ep1: "fetch_associated_conn i ep = (Some rid, ep1)" "ep_inv ep1" "conns ep1 = conns ep"
    using fetch_goes_on [OF inv, of i] by auto
  have at: "conn_at r ep1 = conn_at r ep" for r using ep1(3) by (simp add: conn_at_def)
  have out: "ep_out ep1 = ep_out ep"
    using ep1(1) by (auto simp: fetch_associated_conn_def Let_def split: option.splits prod.splits if_splits)
  have route: "route_packet env pa pkt ep = RouteTo rid ep1"
    using assms(5,6) ep1(1) by (simp add: route_packet_def handle_packet_connid_def)
  then have "deliver_ok env (routes pa) (reads pa) pkt rid ep1" using assms(7) by (simp add: packet_ok_def)
  then obtain ep' where ep': "hand_over env (routes pa) (reads pa) pkt rid ep1 = Some ep'" "conn_at rid ep' \<noteq> None"
    using deliver_keeps [OF ep1(2), of rid env "routes pa" "reads pa" pkt] assms(3) at by (auto simp: keeps_def)
  then show ?thesis
    using deliver_local [OF ep'(1)] route at out assms(3) by (auto simp: handle_packet_def lift_ep_def others_def)
qed

section \<open>Stateless resets\<close>

lemma reset_size_bounds:
  assumes "stateless_reset_size rnd n = Some m"
  shows "MIN_STATELESS_RESET_SIZE \<le> m" "m < n"
proof -
  define k where "k = n - MIN_STATELESS_RESET_SIZE"
  have gt: "\<not> n \<le> MIN_STATELESS_RESET_SIZE" using assms by (simp add: stateless_reset_size_def split: if_splits)
  then have n: "n = MIN_STATELESS_RESET_SIZE + k" "k > 0" by (simp_all add: k_def)
  define q where "q = rnd mod k"
  define r where "r = (if k > 1 then 1 + q else 1)"
  have "q < k" unfolding q_def using n(2) by (rule mod_less_divisor)
  then have r: "1 \<le> r" "r \<le> k" using n(2) by (auto simp: r_def)
  have "m = n - r" using assms gt by (auto simp: stateless_reset_size_def Let_def r_def q_def k_def)
  then show "MIN_STATELESS_RESET_SIZE \<le> m" "m < n" using n r by simp_all
qed

text \<open>
  The sizes of the resets two endpoints that do not know each other's connection send in answer to each other, starting from
  a packet of \<open>n\<close> bytes, each with its random number.
\<close>

fun reset_exchange :: "nat list \<Rightarrow> nat \<Rightarrow> nat list" where
  "reset_exchange [] n = []"
| "reset_exchange (rnd # rnds) n = (case stateless_reset_size rnd n of None \<Rightarrow> [] | Some m \<Rightarrow> m # reset_exchange rnds m)"

lemma reset_exchange_bounds:
  "n + length (reset_exchange rnds n) \<le> n + (n - MIN_STATELESS_RESET_SIZE) \<and> (\<forall>m \<in> set (reset_exchange rnds n). MIN_STATELESS_RESET_SIZE \<le> m \<and> m < n)"
proof (induction rnds arbitrary: n)
  case (Cons rnd rnds)
  show ?case
  proof (cases "stateless_reset_size rnd n")
    case (Some m)
    then show ?thesis using Cons [of m] reset_size_bounds [OF Some] by auto
  qed simp
qed simp


section \<open>An inbound connection that cannot be constructed\<close>

lemma accept_loop_throws:
  assumes "chosen_cid cids ep = Some i" "map_of (conns ep) rid = None"
  shows "accept_loop cids p MakeThrows rid ep =
    Threw (ep\<lparr>conn_lookup := AList.update i rid (conn_lookup ep), conns := AList.update rid None (conns ep)\<rparr>)"
  using assms
proof (induction cids)
  case (Cons j cids)
  then show ?case
    by (cases "map_of (conn_lookup ep) j = None") (auto simp: chosen_cid_def make_conn_def Let_def)
qed (simp add: chosen_cid_def)

lemma network_changed_null:
  "rid \<in> set rids \<Longrightarrow> conn_at rid ep = None \<Longrightarrow> network_changed_each env rt mig rids ep = None"
proof (induction rids arbitrary: ep)
  case (Cons r rids)
  then show ?case by (cases "r = rid") (auto split: option.split)
qed simp

text \<open>
  C39: when the construction of an inbound connection throws, as it does when ngtcp2 or gnutls fails, the null pointer stays
  among the connections and the new id keeps leading to it; listing the connections of a direction or announcing a
  network change then follows that null pointer. An outbound connection that throws leaves no trace.
\<close>
theorem inbound_throw_leaves_null:
  assumes "ops_ok (ep_step env) (ep_ok env) ops (endpoint_ctor local manual given rnd cb)"
    "run_ops (ep_step env) ops (endpoint_ctor local manual given rnd cb) = Some ep"
    "accepted_hdr ans = Some hdr" "check_token ans hdr = TokenOk" "chosen_cid cids ep = Some i"
  shows "(\<exists>ep'. accept_initial_connection ans cids MakeThrows pkt ep = (True, Threw ep') \<and>
       map_of (conns ep') (next_rid ep + 1) = Some None \<and> map_of (conn_lookup ep') i = Some (next_rid ep + 1) \<and>
       get_all_conns (Some b) ep' = None \<and> network_changed env rt mig ep' = None) \<and>
     (\<exists>ep'. connect_to cids rt remote MakeThrows ep = Threw ep' \<and> conns ep' = conns ep \<and> conn_lookup ep' = conn_lookup ep)"
proof -
  have inv: "ep_inv ep" by (rule ep_sys.run_result [OF endpoint_ctor_inv(1) assms(1,2)])
  let ?rid = "next_rid ep + 1"
  let ?ep = "ep\<lparr>next_rid := ?rid\<rparr>"
  have free: "map_of (conns ?ep) ?rid = None" using conns_ok_fresh inv by (simp add: ep_inv_def)
  have ch: "chosen_cid cids ?ep = Some i" using assms(5) by (simp add: chosen_cid_def)
  define ep' where "ep' = ?ep\<lparr>conn_lookup := AList.update i ?rid (conn_lookup ?ep), conns := AList.update ?rid None (conns ?ep)\<rparr>"
  have a: "accept_initial_connection ans cids MakeThrows pkt ep = (True, Threw ep')"
    using assms(3,4) accept_loop_throws [OF ch free] by (simp add: accept_initial_connection_def next_reference_id_def ep'_def)
  have null: "map_of (conns ep') ?rid = Some None" "map_of (conn_lookup ep') i = Some ?rid"
    by (simp_all add: ep'_def update_conv')
  have "(?rid, None) \<in> set (conns ep')" using null(1) by (rule map_of_SomeD)
  then have "get_all_conns (Some b) ep' = None" by (auto simp: get_all_conns_def list_all_iff)
  moreover have "network_changed env rt mig ep' = None"
    unfolding network_changed_def
    by (rule network_changed_null [of ?rid]) (use null(1) \<open>(?rid, None) \<in> set (conns ep')\<close> in \<open>force simp: conn_at_def\<close>)+
  moreover have "\<exists>ep'. connect_to cids rt remote MakeThrows ep = Threw ep' \<and> conns ep' = conns ep \<and> conn_lookup ep' = conn_lookup ep"
    using connect_loop_throws [OF ch free] by (simp add: connect_to_def next_reference_id_def Let_def forget_last_lookup_def)
  ultimately show ?thesis using a null by blast
qed

section \<open>Examples\<close>

definition ep_env_example :: ep_env where
  "ep_env_example =
     \<lparr>net = env_example, codes = ng_example, stream_env = rfc_env, strerror = (\<lambda>_. ''error''), shake256 = (\<lambda>b. drop (length b - 16) b)\<rparr>"

definition opts_example :: conn_options where
  "opts_example = \<lparr>co_datagrams = False, co_splitting = False, co_closed_cb = True, co_zero_rtt = False\<rparr>"

definition ep_example :: endpoint where
  "ep_example = endpoint_ctor (host_addr 1) False [] (replicate 32 7) False"

definition cid_example :: cid where
  "cid_example = [1, 2, 3, 4]"

definition connect_example :: ep_op where
  "connect_example = Connect [cid_example] None (host_addr 9) (Made opts_example [cid_example])"

definition conn_new :: connection where
  "conn_new = new_connection True (path_ctor (host_addr 1) (host_addr 9)) None opts_example cid_example"

definition ep_connected :: endpoint where
  "ep_connected = with_new 1 cid_example conn_new (ep_example\<lparr>next_rid := 1\<rparr>)"

lemma host_addressable: "is_addressable (host_addr 9) = Some True" "is_ipv6 (host_addr 1) = False" "is_set (host_addr b)"
  by (simp_all add: host_addr_def is_addressable_def is_any_addr_def is_any_port_def is_ipv4_def is_ipv6_def is_set_def in4_def in6_def)

lemma connect_example_step: "ep_step env connect_example ep_example = Some ep_connected"
proof -
  let ?ep = "ep_example\<lparr>next_rid := 1\<rparr>"
  have "chosen_cid [cid_example] ?ep = Some cid_example" "map_of (conns ?ep) 1 = None"
    by (simp_all add: chosen_cid_def ep_example_def endpoint_ctor_def)
  from connect_loop_made [OF this] show ?thesis
    by (simp add: connect_example_def connect_def connect_to_def next_reference_id_def host_addressable ep_connected_def conn_new_def
        ep_example_def endpoint_ctor_def Let_def)
qed

lemma connect_example_ok: "ep_ok env connect_example ep_example"
  by (simp add: connect_example_def host_addressable chosen_cid_def ep_example_def endpoint_ctor_def reports_scid_def)

lemma connected_at: "conn_at r ep_connected = (if r = 1 then Some conn_new else None)"
  by (simp add: ep_connected_def with_new_def ep_example_def endpoint_ctor_def conn_at_def)

lemmas conn_new_defs =
  conn_new_def new_connection_def make_connection_def connection_ctor_def packet_io_ready_def store_associated_cid_def opts_example_def

lemma conn_new_fields:
  "is_outbound conn_new" "\<not> closing conn_new" "\<not> draining conn_new" "associated_cids conn_new = [cid_example]"
  "\<not> close_quietly conn_new" "has_closed_cb conn_new"
  "associated_resets conn_new = []" "chans conn_new = conn_ctor True False" "path conn_new = path_assign (path_ctor (host_addr 1) (host_addr 9))"
  by (simp_all add: conn_new_defs)

lemma connected_bidi: "streams_bidi ep_env_example ep_connected"
  by (simp add: streams_bidi_def ep_connected_def with_new_def ep_example_def endpoint_ctor_def conn_new_fields conn_ctor_def)

lemma ctor_close_all: "close_all_streams e (conn_ctor b d) = Some (conn_ctor b d)"
  by (simp add: close_all_streams_def conn_ctor_def close_open_streams.simps)

text \<open>A connection without streams whose owner wants to hear of its end.\<close>

definition idle_conn :: "connection \<Rightarrow> bool" where
  "idle_conn c \<longleftrightarrow> is_outbound c \<and> \<not> close_quietly c \<and> has_closed_cb c \<and> chans c = conn_ctor True False"

lemma idle_hooks:
  assumes "conn_at rid ep = Some c" "idle_conn c"
  shows "execute_close_hooks env ec rid ep = Some (ep_emit (ConnClosedCallback rid (io_code ec)) (set_conn rid c ep))"
proof -
  have e: "c\<lparr>chans := conn_ctor True False\<rparr> = c" using assms(2) by (simp add: idle_conn_def)
  show ?thesis using assms by (simp add: execute_close_hooks_def ctor_close_all Let_def idle_conn_def e)
qed

lemma idle_drop:
  assumes "ep_inv ep" "conn_at rid ep = Some c" "idle_conn c"
  shows "\<exists>ep'. drop_connection_now env err rid ep = Some ep' \<and> closed_calls rid ep' = closed_calls rid ep + 1"
proof -
  let ?ep = "ep_emit (ConnClosedCallback rid (io_code err)) (set_conn rid c ep)"
  have "ep_inv (set_conn rid c ep)" by (rule ep_inv_set [OF assms(1,2)]) (use ep_inv_conn [OF assms(1,2)] in simp_all)
  then have inv: "ep_inv ?ep" by simp
  have "conn_at rid ?ep = Some c" by simp
  from delete_connection_deletes [OF inv this] obtain ep' where "delete_connection rid ?ep = Some ep'" "steady ?ep ep'"
    by (auto simp: deletes_def)
  then show ?thesis using idle_hooks [OF assms(2,3)] by (auto simp: drop_connection_now_def steady_def)
qed

lemma idle_close:
  assumes "conn_at rid ep = Some c" "idle_conn c" "\<not> ended c" "ngtcp2_code ec \<noteq> NGTCP2_ERR_IDLE_CLOSE (codes env)"
    "length p \<le> MAX_PMTUD_UDP_PAYLOAD"
  shows "\<exists>ep' c'. close_connection_now env pto (Some p) ec rid ep = Some ep' \<and> closed_calls rid ep' = closed_calls rid ep + 1 \<and>
    conn_at rid ep' = Some c' \<and> idle_conn c' \<and> jobs ep' = jobs ep"
proof -
  let ?c = "halt_events_conn (c\<lparr>closing := True\<rparr>)"
  let ?ep = "(set_conn rid ?c ep)\<lparr>batch := forget_send_stall rid (batch ep)\<rparr>"
  have i: "idle_conn ?c" using assms(2) by (simp add: idle_conn_def halt_events_conn_def)
  have h: "Option.bind (on_conn rid (\<lambda>c. c\<lparr>closing := True\<rparr>) ep) (halt_events rid) = Some ?ep"
    using assms(1) by (simp add: on_conn_def halt_events_def)
  have c: "conn_at rid ?ep = Some ?c" by simp
  show ?thesis
    using assms h idle_hooks [OF c i] i
    by (simp add: close_connection_now_def ended_def) (simp add: ep_emit_def schedule_conn_cleanup_def set_conn_def)
qed

lemma connected_inv: "ep_inv ep_connected"
  using ep_step_inv [of ep_example ep_env_example connect_example] connect_example_ok connect_example_step endpoint_ctor_inv(1)
  by (simp add: ep_example_def)

lemma conn_new_idle: "idle_conn conn_new" "\<not> ended conn_new"
  by (simp_all add: idle_conn_def ended_def conn_new_fields)

lemma connected_frame: "jobs ep_connected = []" "closed_calls r ep_connected = 0" "ep_out ep_connected = []"
  by (simp_all add: ep_connected_def with_new_def ep_example_def endpoint_ctor_def closed_calls_def)

lemma example_close_packets: "close_packets_ok (\<lambda>_. Some [1])"
  by (simp add: close_packets_ok_def MAX_PMTUD_UDP_PAYLOAD_def)

lemma streams_bidiI:
  assumes "ep_inv ep" "\<And>rid c. conn_at rid ep = Some c \<Longrightarrow> conn_bidi env c"
  shows "streams_bidi env ep"
  unfolding streams_bidi_def list_all_iff
proof (clarify)
  fix rid p
  assume "(rid, p) \<in> set (conns ep)"
  from in_conns_at [OF assms(1) this] assms(2)
  show "case p of None \<Rightarrow> True | Some c \<Rightarrow> conn_ok (stream_env env (is_outbound c)) CloseAll (chans c)"
    by (auto simp: conn_bidi_def)
qed

lemma idle_bidi: "idle_conn c \<Longrightarrow> conn_bidi env c"
  by (simp add: idle_conn_def conn_bidi_def conn_ctor_def)


section \<open>Witnesses\<close>

lemma connected_reached:
  "ops_ok (ep_step ep_env_example) (ep_ok ep_env_example) [connect_example] (endpoint_ctor (host_addr 1) False [] (replicate 32 7) False)"
  "run_ops (ep_step ep_env_example) [connect_example] (endpoint_ctor (host_addr 1) False [] (replicate 32 7) False) = Some ep_connected"
  using connect_example_step connect_example_ok by (simp_all add: ep_example_def)


theorem closed_callback_at_most_once_witness:
  "\<exists>ep. run_ops (ep_step ep_env_example) [connect_example, AppClose 1 0, RunJob 0 (\<lambda>_. Some [1])] ep_example = Some ep \<and>
     closed_calls 1 ep \<le> 1 \<and> jobs ep = []"
proof -
  let ?env = "ep_env_example"
  let ?ops = "[connect_example, AppClose 1 0, RunJob 0 (\<lambda>_. Some [1])]"
  define ec where "ec = io_error_u64 0"
  let ?ep = "ep_connected\<lparr>jobs := [JobClose 1 ec (io_strerror (strerror ?env) ec)]\<rparr>"
  let ?rest = "ep_connected\<lparr>jobs := []\<rparr>"
  have "ngtcp2_code ec \<noteq> NGTCP2_ERR_IDLE_CLOSE (codes ?env)"
    by (simp add: ec_def ep_env_example_def ng_example_def io_error_u64_def ngtcp2_code_def)
  then obtain ep2 where ep2: "close_connection_now ?env 0 (Some [1]) ec 1 ?rest = Some ep2" "jobs ep2 = []"
    using idle_close [of 1 ?rest conn_new ec ?env "[1]" 0] conn_new_idle connected_at by (auto simp: MAX_PMTUD_UDP_PAYLOAD_def)
  have r: "run_job ?env 0 (\<lambda>_. Some [1]) ?ep = Some ep2"
    using ep2(1) by (simp add: run_job_def connected_at)
  have "streams_bidi ?env ?ep" using connected_bidi by (simp add: streams_bidi_def)
  then have ok: "ops_ok (ep_step ?env) (ep_once_ok ?env) ?ops (endpoint_ctor (host_addr 1) False [] (replicate 32 7) False)"
    using connect_example_step connect_example_ok example_close_packets connected_frame
    by (simp add: ep_example_def [symmetric] ep_once_ok_def close_connection_def no_late_drop_def ec_def)
      (auto simp: connect_example_def split: option.split)
  have run: "run_ops (ep_step ?env) ?ops (endpoint_ctor (host_addr 1) False [] (replicate 32 7) False) = Some ep2"
    using connect_example_step r connected_frame by (simp add: ep_example_def [symmetric] close_connection_def ec_def)
  show ?thesis
    using closed_callback_at_most_once [OF ok] run ep2(2) unfolding ep_example_def by (metis option.inject)
qed

theorem deleted_connection_forgotten_witness:
  "\<exists>ep'. delete_connection 1 ep_connected = Some ep' \<and> conn_at 1 ep' = None \<and> map_of (conn_lookup ep') cid_example \<noteq> Some 1"
  using deleted_connection_forgotten [OF connected_reached, of 1 conn_new] connected_at by auto

definition answers_example :: "cid \<Rightarrow> packet_answers" where
  "answers_example i =
     \<lparr>decode = DecodedCid i, vneg_packet = None,
      accepts = \<lparr>accepted_hdr = Some \<lparr>hd_token = [], hd_dcid = i\<rparr>, magic_retry = 182, magic_regular = 54, min_initial_dcidlen = 8,
        retry_token_ok = False, regular_token_ok = False, retry_rnd_ok = True, retry_made_ok = True, retry_packet = None, close_packet = None\<rparr>,
      random_cids = [[5, 6]], new_conn = Made opts_example [[5, 6]], reset_rnd = 0, reset_packet = (\<lambda>_ _. None), routes = (\<lambda>_. None),
      reads = \<lparr>in_closing_period = False, read_callbacks = [], read_rv = 0, migrate_rv = 0, close_code = 0\<rparr>\<rparr>"

definition pkt_example :: in_packet where
  "pkt_example = \<lparr>pkt_path = path_ctor (host_addr 1) (host_addr 9), pkt_data = replicate 50 0\<rparr>"

lemma fetch_example: "fetch_associated_conn cid_example ep_connected = (Some 1, ep_connected\<lparr>last_lookup := Some (cid_example, 1)\<rparr>)"
proof -
  have "map_of (conn_lookup ep_connected) cid_example = Some 1" "last_lookup ep_connected = None"
    by (simp_all add: ep_connected_def with_new_def ep_example_def endpoint_ctor_def)
  then show ?thesis by (simp add: fetch_associated_conn_def connected_at)
qed

lemma packet_example_ok: "packet_ok ep_env_example (answers_example cid_example) pkt_example ep_connected"
proof -
  have "writes_ok (answers_example cid_example)" by (simp add: writes_ok_def answers_example_def fits_def)
  moreover have "inbound_ok (answers_example cid_example) ep_connected"
    by (simp add: inbound_ok_def answers_example_def chosen_cid_def ep_connected_def with_new_def ep_example_def endpoint_ctor_def cid_example_def)
  moreover have "deliver_ok ep_env_example rt (reads (answers_example cid_example)) pkt_example 1 ep" for rt ep
    by (auto simp: deliver_ok_def arrival_ok_def read_ok_def answers_example_def pkt_example_def path_ctor_def host_addressable split: option.split)
  moreover have "route_packet ep_env_example (answers_example cid_example) pkt_example ep_connected = RouteTo 1 (ep_connected\<lparr>last_lookup := Some (cid_example, 1)\<rparr>)"
    using fetch_example by (simp add: route_packet_def handle_packet_connid_def answers_example_def) (simp add: cid_example_def NGTCP2_MAX_CIDLEN_def)
  ultimately show ?thesis by (simp add: packet_ok_def)
qed

theorem packet_reaches_its_owner_witness:
  "\<exists>ep' p. handle_packet ep_env_example (answers_example cid_example) pkt_example ep_connected = Done (Some 1) ep' \<and>
     ep_out ep' = [DeliverPacket 1 p]"
  using packet_reaches_its_owner [OF connected_reached _ _ _ _ packet_example_ok, of 1 conn_new cid_example]
    connected_at connected_frame conn_new_fields
  by (auto simp: answers_example_def cid_example_def NGTCP2_MAX_CIDLEN_def)


theorem inbound_throw_leaves_null_witness:
  "\<exists>ep'. accept_initial_connection (accepts (answers_example [9])) [[5, 6]] MakeThrows pkt_example ep_connected = (True, Threw ep') \<and>
     map_of (conns ep') 2 = Some None \<and> get_all_conns (Some False) ep' = None"
proof -
  have "chosen_cid [[5, 6]] ep_connected = Some [5, 6]"
    by (simp add: chosen_cid_def ep_connected_def with_new_def ep_example_def endpoint_ctor_def cid_example_def)
  moreover have "next_rid ep_connected + 1 = 2" by (simp add: ep_connected_def with_new_def ep_example_def)
  ultimately show ?thesis
    using inbound_throw_leaves_null [OF connected_reached, of "accepts (answers_example [9])" "\<lparr>hd_token = [], hd_dcid = [9]\<rparr>" "[[5, 6]]" "[5, 6]"
        pkt_example False "\<lambda>_. None" "\<lambda>_. 0" "host_addr 9"]
    by (auto simp: answers_example_def check_token_def simp del: One_nat_def add_Suc_right)
qed

end
