(* ===== verification/Flush.thy ===== *)
theory Flush
  imports Datagrams Dgram_Queue_Correct Connection_Correct Send_Batch_Correct
begin

text \<open>
  Writing a connection's packets: \<open>on_packet_io_ready\<close>, \<open>flush_packets\<close> and \<open>send\<close> of \<open>connection.cpp\<close>. A flush asks the
  connection's streams and datagrams in turn for data, offers it to ngtcp2, which fills packets with it, and sends the packets
  in batches through the batch the endpoint's connections share.

  ngtcp2 is a function of the number of the write call and what it is asked to write: the size written or an error, how much of
  the stream's data was taken or whether the datagram was, the packet and its ECN value. The number of calls is
  bounded by \<open>fuel\<close>, and a flush that has none left has the result \<open>OutOfFuel\<close>; \<open>Flush_Correct\<close> has a bound that is
  enough. A channel is a stream by its id, the datagrams, or the pseudo stream that stands for no stream at the end
  of the list. \<open>Abort\<close> is a failed assertion. The log \<open>taken\<close> has the data ngtcp2 took from each stream, \<open>dgrams_taken\<close>
  the pieces of datagrams it took.
\<close>

section \<open>State\<close>

record write_answer =
  wa_nwrite :: int
  wa_ndatalen :: int
  wa_accepted :: bool
  wa_packet :: bytes
  wa_ecn :: nat

record write_codes = ng_codes +
  NGTCP2_ERR_WRITE_MORE :: int
  NGTCP2_ERR_CLOSING :: int
  NGTCP2_ERR_STREAM_DATA_BLOCKED :: int
  NGTCP2_ERR_STREAM_NOT_FOUND :: int
  NGTCP2_ERR_STREAM_SHUT_WR :: int
  NGTCP2_ERR_INVALID_STATE :: int
  NGTCP2_ERR_INVALID_ARGUMENT :: int

datatype channel = ChStream int | ChDatagrams | ChPseudo

datatype write_call = WriteStream int bytes bool | WriteDatagram prepared | UpdatePktTxTime | GetExpiry

text \<open>
  The environment of a flush: the socket, the route lookup, ngtcp2's answers about migration, the payload size of
  the path and its send quantum.
\<close>

record flush_env =
  fe_os :: os_errors
  fe_tr :: transport
  fe_net :: net_env
  fe_codes :: write_codes
  fe_route :: "Address \<Rightarrow> route option"
  fe_mig :: "Path \<Rightarrow> int"
  path_max_tx_udp_payload_size :: nat
  send_quantum :: nat
  fe_write :: "nat \<Rightarrow> write_call \<Rightarrow> write_answer"

record flush =
  fl_conn :: connection
  fl_dgrams :: "dgrams option"
  fl_batch :: send_batch
  channels :: "channel list"
  partially_filled :: bool
  stream_packets :: nat
  fuel :: nat
  taken :: "(int \<times> bytes) list"
  dgrams_taken :: "prepared list"
  fl_calls :: "write_call list"

datatype flow = Continue flush | Break flush | Return bool flush | OutOfFuel | Abort

definition fl_call :: "write_call \<Rightarrow> flush \<Rightarrow> flush" where
  "fl_call x st = st\<lparr>fl_calls := fl_calls st @ [x]\<rparr>"

definition ng_write :: "flush_env \<Rightarrow> write_call \<Rightarrow> flush \<Rightarrow> write_answer \<times> flush" where
  "ng_write env x st = (fe_write env (length (fl_calls st)) x, fl_call x (st\<lparr>fuel := fuel st - 1\<rparr>))"

definition max_stream_packets :: "flush_env \<Rightarrow> nat" where
  "max_stream_packets env = send_quantum env div path_max_tx_udp_payload_size env"

definition fl_stream :: "int \<Rightarrow> flush \<Rightarrow> object option" where
  "fl_stream i st = map_of (streams (chans (fl_conn st))) i"

definition fl_update :: "int \<Rightarrow> (stream \<Rightarrow> stream) \<Rightarrow> flush \<Rightarrow> flush" where
  "fl_update i f st =
     (case fl_stream i st of
        None \<Rightarrow> st
      | Some (ob, s) \<Rightarrow>
          let c = fl_conn st
          in st\<lparr>fl_conn := c\<lparr>chans := (chans c)\<lparr>streams := map_put i (ob, f s) (streams (chans c))\<rparr>\<rparr>\<rparr>)"

section \<open>Sending\<close>

text \<open>What the connection does about the outcome of a send.\<close>

fun react :: "flush_env \<Rightarrow> batch_call \<Rightarrow> connection \<Rightarrow> connection option" where
  "react env (PacketTooBig _ sz) c =
     packet_too_big (fe_net env) (ng_codes.truncate (fe_codes env)) (fe_route env) (fe_mig env)
       (path_max_tx_udp_payload_size env) sz c"
| "react env (SendUnreachable _) c =
     send_unreachable (fe_net env) (ng_codes.truncate (fe_codes env)) (fe_route env) (fe_mig env) c"
| "react env (DropConnection _ code) c = Some (ask (AskDrop (io_error_u64 code)) c)"
| "react env _ c = Some c"

fun react_all :: "flush_env \<Rightarrow> batch_call list \<Rightarrow> connection \<Rightarrow> connection option" where
  "react_all env [] c = Some c"
| "react_all env (x # xs) c = (case react env x c of None \<Rightarrow> None | Some c \<Rightarrow> react_all env xs c)"

definition fl_send :: "flush_env \<Rightarrow> nat \<Rightarrow> flush \<Rightarrow> (bool \<times> flush) option" where
  "fl_send env rid st =
     (case conn_send (fe_os env) (fe_tr env) rid (fl_batch st) of
        None \<Rightarrow> None
      | Some (go, b) \<Rightarrow>
          map_option (\<lambda>c. (go, st\<lparr>fl_conn := c, fl_batch := b\<rparr>))
            (react_all env (drop (length (batch_out (fl_batch st))) (batch_out b)) (fl_conn st)))"

text \<open>The packet is written behind those of the batch, and its size and ECN value into the arrays.\<close>

definition put_packet :: "bytes \<Rightarrow> nat \<Rightarrow> pktbuf \<Rightarrow> pktbuf" where
  "put_packet pkt ecn p =
     (let n = n_pkts p; pos = sum_list (take n (pk_size p))
      in \<lparr>pk_buf = take pos (pk_buf p) @ pkt @ drop (pos + length pkt) (pk_buf p),
          pk_size = take n (pk_size p) @ [length pkt] @ drop (n + 1) (pk_size p),
          pk_ecn = take n (pk_ecn p) @ [ecn] @ drop (n + 1) (pk_ecn p), n_pkts = n + 1\<rparr>)"

definition batch_put :: "bytes \<Rightarrow> nat \<Rightarrow> send_batch \<Rightarrow> send_batch" where
  "batch_put pkt ecn b = b\<lparr>batch_send := (batch_send b)\<lparr>pkts := put_packet pkt ecn (pkts (batch_send b))\<rparr>\<rparr>"

text \<open>There is room for a packet of any size behind those of the batch, and for its size and ECN value.\<close>

definition buffer_room :: "send_batch \<Rightarrow> bool" where
  "buffer_room b \<longleftrightarrow>
     n_packets b < MAX_BATCH \<and>
     sum_list (take (n_packets b) (pk_size (pkts (batch_send b)))) + MAX_PMTUD_UDP_PAYLOAD \<le> MAX_PMTUD_UDP_PAYLOAD * MAX_BATCH"

section \<open>The datagrams of a packet\<close>

text \<open>
  The inner loop of the datagram block: as many datagrams as fit the packet. The result has the last size written,
  whether there is a datagram none of which went into the packet, and the last answer.
\<close>

datatype dgram_flow = DgramDone bool "write_answer option" flush | DgramOutOfFuel | DgramAbort

definition next_datagram :: "flush_env \<Rightarrow> flush \<Rightarrow> (prepared option \<times> flush) option" where
  "next_datagram env st =
     (case fl_dgrams st of
        None \<Rightarrow> None
      | Some d \<Rightarrow>
          let (piece, c) = get_max_datagram_piece (path_max_tx_udp_payload_size env) (fl_conn st)
          in map_option (\<lambda>(p, d). (p, st\<lparr>fl_conn := c, fl_dgrams := Some d\<rparr>))
               (dgrams_pending piece (partially_filled st) d))"

definition datagram_taken :: "prepared \<Rightarrow> flush \<Rightarrow> flush option" where
  "datagram_taken p st =
     (case Option.bind (fl_dgrams st) confirm_datagram_sent of
        None \<Rightarrow> None
      | Some d \<Rightarrow> Some (st\<lparr>fl_dgrams := Some d, dgrams_taken := dgrams_taken st @ [p]\<rparr>))"

definition datagram_answer :: "prepared \<Rightarrow> write_answer \<Rightarrow> flush \<Rightarrow> flush option" where
  "datagram_answer p a st = (if wa_accepted a then datagram_taken p st else Some st)"

lemma next_datagram_fuel: "next_datagram env st = Some (p, st') \<Longrightarrow> fuel st' = fuel st"
  by (auto simp: next_datagram_def split: option.splits prod.splits)

lemma datagram_answer_fuel: "datagram_answer p a st = Some st' \<Longrightarrow> fuel st' = fuel st"
  by (auto simp: datagram_answer_def datagram_taken_def split: option.splits if_splits)

lemma ng_write_fuel [simp]: "fuel (snd (ng_write env x st)) = fuel st - 1"
  by (simp add: ng_write_def fl_call_def)

function datagram_loop :: "flush_env \<Rightarrow> bool \<Rightarrow> write_answer option \<Rightarrow> flush \<Rightarrow> dgram_flow" where
  "datagram_loop env waiting lst st =
     (case next_datagram env st of
        None \<Rightarrow> DgramAbort
      | Some (None, st) \<Rightarrow> DgramDone False lst st
      | Some (Some p, st) \<Rightarrow>
          if fuel st = 0 then DgramOutOfFuel
          else if \<not> buffer_room (fl_batch st) then DgramAbort
          else let (a, st) = ng_write env (WriteDatagram p) st
               in case datagram_answer p a st of
                    None \<Rightarrow> DgramAbort
                  | Some st \<Rightarrow>
                      if wa_nwrite a \<noteq> NGTCP2_ERR_WRITE_MORE (fe_codes env)
                      then DgramDone (waiting \<and> \<not> wa_accepted a) (Some a) st
                      else datagram_loop env (waiting \<and> \<not> wa_accepted a) (Some a) (st\<lparr>partially_filled := True\<rparr>))"
  by pat_completeness auto
termination
proof (relation "measure (\<lambda>(env, waiting, lst, st). fuel st)", goal_cases)
  case (2 env waiting lst st y p' st1 p z a st2 st3)
  then have h: "next_datagram env st = Some (p', st1)" "(a, st2) = ng_write env (WriteDatagram p) st1"
      "datagram_answer p a st2 = Some st3" by simp_all
  have "fuel st2 = fuel st1 - 1" using h(2) ng_write_fuel by (metis snd_conv)
  then show ?case using 2 next_datagram_fuel [OF h(1)] datagram_answer_fuel [OF h(3)] by simp
qed simp

declare datagram_loop.simps [simp del]

section \<open>One round\<close>

definition ch_has_unsent :: "channel \<Rightarrow> flush \<Rightarrow> bool" where
  "ch_has_unsent ch st =
     (case ch of
        ChStream i \<Rightarrow> (case fl_stream i st of None \<Rightarrow> False | Some (_, s) \<Rightarrow> stream_has_unsent_impl s)
      | ChDatagrams \<Rightarrow> (case fl_dgrams st of None \<Rightarrow> False | Some d \<Rightarrow> dgrams_has_unsent_impl d)
      | ChPseudo \<Rightarrow> False)"

definition recoverable :: "write_codes \<Rightarrow> channel \<Rightarrow> int \<Rightarrow> bool" where
  "recoverable ng ch rv =
     (if ch = ChDatagrams
      then rv = NGTCP2_ERR_WRITE_MORE ng \<or> rv = NGTCP2_ERR_INVALID_STATE ng \<or> rv = NGTCP2_ERR_INVALID_ARGUMENT ng
      else rv = NGTCP2_ERR_WRITE_MORE ng \<or> rv = NGTCP2_ERR_STREAM_DATA_BLOCKED ng \<or>
           rv = NGTCP2_ERR_STREAM_NOT_FOUND ng \<or> rv = NGTCP2_ERR_STREAM_SHUT_WR ng)"

text \<open>ngtcp2 took the first \<open>n\<close> of the bytes offered.\<close>

definition stream_took :: "int \<Rightarrow> bytes \<Rightarrow> nat \<Rightarrow> flush \<Rightarrow> flush" where
  "stream_took i offered n st = fl_update i (wrote n) (st\<lparr>taken := taken st @ [(i, take n offered)]\<rparr>)"

definition drop_batch :: "flush \<Rightarrow> flush" where
  "drop_batch st = st\<lparr>fl_batch := clear_packets (fl_batch st)\<rparr>"

definition write_failed :: "flush_env \<Rightarrow> channel \<Rightarrow> bytes \<Rightarrow> write_answer \<Rightarrow> flush \<Rightarrow> flow" where
  "write_failed env ch offered a st =
     (let ng = fe_codes env; rv = wa_nwrite a
      in if rv = NGTCP2_ERR_CLOSING ng \<or> rv = NGTCP2_ERR_DRAINING ng then Return True (drop_batch st)
         else if \<not> recoverable ng ch rv
         then Return True (drop_batch (st\<lparr>fl_conn := ask (AskClose (io_error_int rv) None) ((fl_conn st)\<lparr>dead := True\<rparr>)\<rparr>))
         else if rv = NGTCP2_ERR_WRITE_MORE ng
         then let st = st\<lparr>partially_filled := True\<rparr>
              in case ch of
                   ChDatagrams \<Rightarrow> Continue (if ch_has_unsent ch st then st\<lparr>channels := ChDatagrams # channels st\<rparr> else st)
                 | ChStream i \<Rightarrow>
                     if wa_ndatalen a < 0 then Abort else Continue (stream_took i offered (nat (wa_ndatalen a)) st)
                 | ChPseudo \<Rightarrow> if wa_ndatalen a < 0 then Abort else Continue st
         else Continue st)"

text \<open>Where the channel goes after a packet: \<open>waiting\<close> is a datagram that did not fit.\<close>

definition requeue :: "bool \<Rightarrow> channel \<Rightarrow> flush \<Rightarrow> flow" where
  "requeue waiting ch st =
     (if waiting then Continue (st\<lparr>channels := ChDatagrams # channels st\<rparr>)
      else if ch = ChPseudo \<and> channels st = [] then Continue (st\<lparr>channels := [ChPseudo]\<rparr>)
      else if ch_has_unsent ch st
      then if channels st = [] then Abort
           else Continue (st\<lparr>channels := takeWhile (\<lambda>x. x \<noteq> ChPseudo) (channels st) @ [ch] @ dropWhile (\<lambda>x. x \<noteq> ChPseudo) (channels st)\<rparr>)
      else Continue st)"

text \<open>The packet joins the batch, which is sent when it is full.\<close>

definition packet_done :: "flush_env \<Rightarrow> bool \<Rightarrow> channel \<Rightarrow> flush \<Rightarrow> flow" where
  "packet_done env waiting ch st =
     (if stream_packets st = max_stream_packets env then Break st else requeue waiting ch st)"

definition packet_put :: "flush_env \<Rightarrow> nat \<Rightarrow> bool \<Rightarrow> channel \<Rightarrow> write_answer \<Rightarrow> flush \<Rightarrow> flow" where
  "packet_put env rid waiting ch a st =
     (let st = st\<lparr>fl_batch := batch_put (wa_packet a) (wa_ecn a) (fl_batch st), stream_packets := stream_packets st + 1\<rparr>
      in if n_packets (fl_batch st) = MAX_BATCH
         then case fl_send env rid st of
                None \<Rightarrow> Abort
              | Some (go, st) \<Rightarrow>
                  if \<not> go then Return (\<not> stalled (fl_batch st)) st
                  else if n_packets (fl_batch st) \<noteq> 0 then Abort
                  else packet_done env waiting ch st
         else packet_done env waiting ch st)"

definition packet_written :: "flush_env \<Rightarrow> nat \<Rightarrow> bool \<Rightarrow> channel \<Rightarrow> bytes \<Rightarrow> write_answer \<Rightarrow> flush \<Rightarrow> flow" where
  "packet_written env rid waiting ch offered a st =
     (let st = st\<lparr>partially_filled := False\<rparr>
      in packet_put env rid waiting ch a
           (case ch of
              ChStream i \<Rightarrow> if wa_ndatalen a \<ge> 0 then stream_took i offered (nat (wa_ndatalen a)) st else st
            | _ \<Rightarrow> st))"

definition after_write :: "flush_env \<Rightarrow> nat \<Rightarrow> bool \<Rightarrow> channel \<Rightarrow> bytes \<Rightarrow> write_answer \<Rightarrow> flush \<Rightarrow> flow" where
  "after_write env rid waiting ch offered a st =
     (if wa_nwrite a = 0
      then Continue (case ch of ChStream _ \<Rightarrow> st\<lparr>channels := dropWhile (\<lambda>x. x \<noteq> ChPseudo) (channels st)\<rparr> | _ \<Rightarrow> st)
      else if wa_nwrite a < 0 then write_failed env ch offered a st
      else packet_written env rid waiting ch offered a st)"

text \<open>A stream: the data it has ready, with the FIN if that is all of it.\<close>

definition write_stream :: "flush_env \<Rightarrow> nat \<Rightarrow> int \<Rightarrow> flush \<Rightarrow> flow" where
  "write_stream env rid i st =
     (case fl_stream i st of
        None \<Rightarrow> Abort
      | Some (_, s) \<Rightarrow>
          let (bufs, more) = pending MAX_PMTUD_UDP_PAYLOAD s;
              sending_fin = (send_fin s \<and> \<not> more)
          in if \<not> sending_fin \<and> bufs = [] then Continue st
             else if fuel st = 0 then OutOfFuel
             else if \<not> buffer_room (fl_batch st) then Abort
             else let offered = concat bufs;
                      (a, st) = ng_write env (WriteStream i offered sending_fin) st;
                      st = (if sending_fin \<and> wa_ndatalen a \<ge> 0 \<and> nat (wa_ndatalen a) = length offered
                            then fl_update i (\<lambda>s. s\<lparr>sent_fin := True\<rparr>) st else st)
                  in after_write env rid False (ChStream i) offered a st)"

definition write_pseudo :: "flush_env \<Rightarrow> nat \<Rightarrow> flush \<Rightarrow> flow" where
  "write_pseudo env rid st =
     (if fuel st = 0 then OutOfFuel
      else if \<not> buffer_room (fl_batch st) then Abort
      else let (a, st) = ng_write env (WriteStream (- 1) [] False) st
           in after_write env rid False ChPseudo [] a st)"

definition no_write :: write_answer where
  "no_write = \<lparr>wa_nwrite = 0, wa_ndatalen = 0, wa_accepted = False, wa_packet = [], wa_ecn = 0\<rparr>"

definition write_datagrams :: "flush_env \<Rightarrow> nat \<Rightarrow> flush \<Rightarrow> flow" where
  "write_datagrams env rid st =
     (case datagram_loop env True None st of
        DgramAbort \<Rightarrow> Abort
      | DgramOutOfFuel \<Rightarrow> OutOfFuel
      | DgramDone waiting a st \<Rightarrow>
          after_write env rid waiting ChDatagrams [] (case a of None \<Rightarrow> no_write | Some a \<Rightarrow> a) st)"

definition flush_step :: "flush_env \<Rightarrow> nat \<Rightarrow> flush \<Rightarrow> flow" where
  "flush_step env rid st =
     (case channels st of
        [] \<Rightarrow> Break st
      | ch # rest \<Rightarrow>
          let st = st\<lparr>channels := rest\<rparr>
          in case ch of
               ChStream i \<Rightarrow> write_stream env rid i st
             | ChDatagrams \<Rightarrow> write_datagrams env rid st
             | ChPseudo \<Rightarrow> write_pseudo env rid st)"

section \<open>The flush\<close>

text \<open>The runs of the datagram loop that come to an end, as a relation.\<close>

inductive dgram_runs :: "flush_env \<Rightarrow> bool \<Rightarrow> write_answer option \<Rightarrow> flush \<Rightarrow> bool \<Rightarrow> write_answer option \<Rightarrow> flush \<Rightarrow> bool"
  for env where
  none_left: "next_datagram env st = Some (None, st') \<Longrightarrow> dgram_runs env w lst st False lst st'"
| packet_done: "next_datagram env st = Some (Some p, st1) \<Longrightarrow> fuel st1 \<noteq> 0 \<Longrightarrow> ng_write env (WriteDatagram p) st1 = (a, st2) \<Longrightarrow>
    datagram_answer p a st2 = Some st' \<Longrightarrow> wa_nwrite a \<noteq> NGTCP2_ERR_WRITE_MORE (fe_codes env) \<Longrightarrow>
    dgram_runs env w lst st (w \<and> \<not> wa_accepted a) (Some a) st'"
| room_left: "next_datagram env st = Some (Some p, st1) \<Longrightarrow> fuel st1 \<noteq> 0 \<Longrightarrow> ng_write env (WriteDatagram p) st1 = (a, st2) \<Longrightarrow>
    datagram_answer p a st2 = Some st3 \<Longrightarrow> wa_nwrite a = NGTCP2_ERR_WRITE_MORE (fe_codes env) \<Longrightarrow>
    dgram_runs env (w \<and> \<not> wa_accepted a) (Some a) (st3\<lparr>partially_filled := True\<rparr>) w' b st' \<Longrightarrow>
    dgram_runs env w lst st w' b st'"

lemma datagram_loop_runs: "datagram_loop env w lst st = DgramDone w' a st' \<Longrightarrow> dgram_runs env w lst st w' a st'"
proof (induction env w lst st rule: datagram_loop.induct)
  case (1 env w lst st)
  show ?case
  proof (cases "next_datagram env st")
    case None
    then show ?thesis using 1(2) by (simp add: datagram_loop.simps)
  next
    case (Some y)
    obtain p st1 where y: "y = (p, st1)" by fastforce
    show ?thesis
    proof (cases p)
      case None
      then show ?thesis using 1(2) Some y by (simp add: datagram_loop.simps none_left)
    next
      case q: (Some q)
      obtain x st2 where w: "ng_write env (WriteDatagram q) st1 = (x, st2)" by fastforce
      note eq = 1(2) [unfolded datagram_loop.simps [of env w lst st] Some y q option.case prod.case w Let_def]
      have fu: "fuel st1 \<noteq> 0" and ro: "buffer_room (fl_batch st1)" using eq by (auto split: if_splits)
      obtain st3 where s3: "datagram_answer q x st2 = Some st3" using eq fu ro by (cases "datagram_answer q x st2") simp_all
      show ?thesis
      proof (cases "wa_nwrite x = NGTCP2_ERR_WRITE_MORE (fe_codes env)")
        case True
        then have "datagram_loop env (w \<and> \<not> wa_accepted x) (Some x) (st3\<lparr>partially_filled := True\<rparr>) = DgramDone w' a st'"
          using eq fu ro s3 by simp
        from 1(1) [OF Some y [symmetric] q fu _ refl w [symmetric] s3 _ this] True ro
        show ?thesis using room_left [OF _ fu w s3 True] Some y q by simp
      next
        case False
        then show ?thesis using eq fu ro s3 Some y q packet_done [OF _ fu w s3 False, of st w lst] by auto
      qed
    qed
  qed
qed

lemma ng_write_fields:
  "ng_write env x st = (a, st') \<Longrightarrow> channels st' = channels st \<and> fuel st' = fuel st - 1"
  by (auto simp: ng_write_def fl_call_def)

lemma next_datagram_channels: "next_datagram env st = Some (p, st') \<Longrightarrow> channels st' = channels st"
  by (auto simp: next_datagram_def split: option.splits prod.splits)

lemma datagram_answer_channels: "datagram_answer p a st = Some st' \<Longrightarrow> channels st' = channels st"
  by (auto simp: datagram_answer_def datagram_taken_def split: option.splits if_splits)

lemma dgram_runs_fuel:
  "dgram_runs env w lst st w' a st' \<Longrightarrow> channels st' = channels st \<and> (fuel st' < fuel st \<or> fuel st' = fuel st \<and> a = lst)"
proof (induction rule: dgram_runs.induct)
  case (none_left st st' w lst)
  then show ?case using next_datagram_fuel next_datagram_channels by fastforce
next
  case (packet_done st p st1 a st2 st' w lst)
  then show ?case
    using next_datagram_fuel [OF packet_done(1)] next_datagram_channels [OF packet_done(1)] ng_write_fields [OF packet_done(3)]
      datagram_answer_fuel [OF packet_done(4)] datagram_answer_channels [OF packet_done(4)] by simp
next
  case (room_left st p st1 a st2 st3 w w' b st' lst)
  then show ?case
    using next_datagram_fuel [OF room_left(1)] next_datagram_channels [OF room_left(1)] ng_write_fields [OF room_left(3)]
      datagram_answer_fuel [OF room_left(4)] datagram_answer_channels [OF room_left(4)] by auto
qed

lemma fl_send_fields: "fl_send env rid st = Some (go, st') \<Longrightarrow> channels st' = channels st \<and> fuel st' = fuel st"
  by (auto simp: fl_send_def split: option.splits)

lemma stream_took_fields [simp]: "channels (stream_took i d n st) = channels st" "fuel (stream_took i d n st) = fuel st"
  by (simp_all add: stream_took_def fl_update_def fl_stream_def Let_def split: option.split)

lemma requeue_fields:
  "requeue w ch st = Continue st' \<Longrightarrow> fuel st' = fuel st"
  by (auto simp: requeue_def split: if_splits)

lemma packet_done_fuel: "packet_done env w ch st = Continue st' \<Longrightarrow> fuel st' = fuel st"
  using requeue_fields by (simp add: packet_done_def split: if_splits)

lemma packet_put_fuel: "packet_put env rid w ch a st = Continue st' \<Longrightarrow> fuel st' = fuel st"
  by (auto simp: packet_put_def Let_def split: if_splits option.splits prod.splits dest!: packet_done_fuel fl_send_fields)

lemma packet_written_fuel: "packet_written env rid w ch d a st = Continue st' \<Longrightarrow> fuel st' = fuel st"
  by (auto simp: packet_written_def Let_def split: channel.splits if_splits dest!: packet_put_fuel)

lemma after_write_fuel: "after_write env rid w ch d a st = Continue st' \<Longrightarrow> fuel st' = fuel st"
  using packet_written_fuel
  by (fastforce simp: after_write_def write_failed_def Let_def split: channel.splits if_splits)

lemma write_datagrams_smaller:
  assumes "write_datagrams env rid st = Continue st'"
  shows "fuel st' < fuel st \<or> fuel st' = fuel st \<and> channels st' = channels st"
proof -
  obtain w a st1 where d: "datagram_loop env True None st = DgramDone w a st1"
    and aw: "after_write env rid w ChDatagrams [] (case a of None \<Rightarrow> no_write | Some a \<Rightarrow> a) st1 = Continue st'"
    using assms by (auto simp: write_datagrams_def split: dgram_flow.splits)
  have f: "channels st1 = channels st" "fuel st1 < fuel st \<or> fuel st1 = fuel st \<and> a = None"
    using dgram_runs_fuel [OF datagram_loop_runs [OF d]] by auto
  have "fuel st' = fuel st1" using after_write_fuel [OF aw] .
  moreover have "channels st' = channels st1" if "a = None"
    using aw that by (simp add: after_write_def no_write_def)
  ultimately show ?thesis using f by auto
qed

lemma write_stream_smaller:
  assumes "write_stream env rid i st = Continue st'"
  shows "fuel st' < fuel st \<or> fuel st' = fuel st \<and> channels st' = channels st"
proof -
  obtain ob s where s: "fl_stream i st = Some (ob, s)" using assms by (auto simp: write_stream_def split: option.splits)
  obtain bufs mr where p: "pending MAX_PMTUD_UDP_PAYLOAD s = (bufs, mr)" by fastforce
  obtain a st1 where w: "ng_write env (WriteStream i (concat bufs) (send_fin s \<and> \<not> mr)) st = (a, st1)" by fastforce
  note eq = assms [unfolded write_stream_def s p option.case prod.case Let_def w]
  show ?thesis
  proof (cases "\<not> (send_fin s \<and> \<not> mr) \<and> bufs = []")
    case True
    then show ?thesis using eq by simp
  next
    case False
    then have fu: "fuel st \<noteq> 0" "buffer_room (fl_batch st)" using eq by (auto split: if_splits)
    then obtain st2 where "after_write env rid False (ChStream i) (concat bufs) a st2 = Continue st'" "fuel st2 = fuel st1"
      using eq False by (auto simp: fl_update_def Let_def split: option.splits)
    then show ?thesis using after_write_fuel ng_write_fields [OF w] fu by fastforce
  qed
qed

lemma write_pseudo_smaller: "write_pseudo env rid st = Continue st' \<Longrightarrow> fuel st' < fuel st"
  using after_write_fuel by (fastforce simp: write_pseudo_def ng_write_def fl_call_def split: if_splits)

lemma flush_step_smaller:
  assumes "flush_step env rid st = Continue st'"
  shows "fuel st' < fuel st \<or> fuel st' = fuel st \<and> length (channels st') < length (channels st)"
proof (cases "channels st")
  case (Cons ch rest)
  show ?thesis
  proof (cases ch)
    case (ChStream i)
    then show ?thesis using write_stream_smaller [of env rid i "st\<lparr>channels := rest\<rparr>" st'] assms Cons by (auto simp: flush_step_def)
  next
    case ChDatagrams
    then show ?thesis using write_datagrams_smaller [of env rid "st\<lparr>channels := rest\<rparr>" st'] assms Cons by (auto simp: flush_step_def)
  next
    case ChPseudo
    then show ?thesis using write_pseudo_smaller [of env rid "st\<lparr>channels := rest\<rparr>" st'] assms Cons by (auto simp: flush_step_def)
  qed
qed (use assms in \<open>simp add: flush_step_def\<close>)

function flush_loop :: "flush_env \<Rightarrow> nat \<Rightarrow> flush \<Rightarrow> flow" where
  "flush_loop env rid st = (case flush_step env rid st of Continue st \<Rightarrow> flush_loop env rid st | r \<Rightarrow> r)"
  by pat_completeness auto
termination
  by (relation "measures [\<lambda>(env, rid, st). fuel st, \<lambda>(env, rid, st). length (channels st)]")
    (auto dest!: flush_step_smaller)

declare flush_loop.simps [simp del]

text \<open>The channels, starting from a random stream, with the datagrams in the middle.\<close>

definition unfinished :: "(int \<times> object) list \<Rightarrow> channel list" where
  "unfinished xs = map (ChStream \<circ> fst) (filter (\<lambda>(_, _, s). \<not> sent_fin s) xs)"

definition flush_channels :: "nat \<Rightarrow> connection \<Rightarrow> dgrams option \<Rightarrow> channel list" where
  "flush_channels mid c d =
     (let xs = streams (chans c);
          dg = (case d of None \<Rightarrow> [] | Some d \<Rightarrow> if \<not> dgrams_is_empty_impl d then [ChDatagrams] else [])
      in (if xs \<noteq> [] then unfinished (drop mid xs) @ dg @ unfinished (take mid xs) else dg) @ [ChPseudo])"

text \<open>When the flush leaves its scope ngtcp2 is told of the time, unless a send failed.\<close>

definition leave_flush :: "send_batch \<Rightarrow> flush \<Rightarrow> flush" where
  "leave_flush b st =
     (if CancelTxTime \<in> set (drop (length (batch_out b)) (batch_out (fl_batch st))) then st else fl_call UpdatePktTxTime st)"

definition flush_start :: "nat \<Rightarrow> nat \<Rightarrow> connection \<Rightarrow> dgrams option \<Rightarrow> send_batch \<Rightarrow> flush" where
  "flush_start mid n c d b =
     \<lparr>fl_conn = c, fl_dgrams = d, fl_batch = b, channels = flush_channels mid c d, partially_filled = False,
      stream_packets = 0, fuel = n, taken = [], dgrams_taken = [], fl_calls = []\<rparr>"

definition flush_packets ::
  "flush_env \<Rightarrow> nat \<Rightarrow> nat \<Rightarrow> nat \<Rightarrow> connection \<Rightarrow> dgrams option \<Rightarrow> send_batch \<Rightarrow> flow" where
  "flush_packets env rid mid n c d b =
     (let st = flush_start mid n c d b
      in if dead c then Return True st
         else if stalled b
         then (case wait_for_send_stall rid b of None \<Rightarrow> Abort | Some b \<Rightarrow> Return False (st\<lparr>fl_batch := b\<rparr>))
         else if n_packets b \<noteq> 0 then Abort
         else if path_max_tx_udp_payload_size env = 0 then Abort
         else case flush_loop env rid st of
                Break st \<Rightarrow>
                  if n_packets (fl_batch st) > 0
                  then (case fl_send env rid st of
                          None \<Rightarrow> Abort
                        | Some (_, st) \<Rightarrow> Return (\<not> stalled (fl_batch st)) (leave_flush b st))
                  else Return (\<not> stalled (fl_batch st)) (leave_flush b st)
              | Return r st \<Rightarrow> Return r (leave_flush b st)
              | r \<Rightarrow> r)"

text \<open>
  The event that starts a flush; the second result is the time the retransmit timer is set to, if it is. \<open>expiry\<close> is
  ngtcp2's next expiry, \<open>ts\<close> the time now.
\<close>

definition on_packet_io_ready ::
  "flush_env \<Rightarrow> nat \<Rightarrow> nat \<Rightarrow> nat \<Rightarrow> nat \<Rightarrow> int \<Rightarrow> connection \<Rightarrow> dgrams option \<Rightarrow> send_batch \<Rightarrow> flow \<times> (int \<times> int) option" where
  "on_packet_io_ready env rid mid n expiry ts c d b =
     (if dead c then (Return True (flush_start mid n c d b), None)
      else case flush_packets env rid mid n c d b of
             Return True st \<Rightarrow>
               if \<not> io_events (fl_conn st) then (Return True st, None)
               else (Return True (fl_call GetExpiry st), schedule_packet_retransmit expiry ts)
           | r \<Rightarrow> (r, None))"

end
