(* ===== verification/Flush_Round.thy ===== *)
theory Flush_Round
  imports Flush
begin

text \<open>
  One round of a flush: what ngtcp2 and the socket promise, the ledgers of the data taken from streams and datagrams, the state
  of the batch and the budget of calls, and that every round keeps them.
\<close>

section \<open>What a flush relies on\<close>

text \<open>
  What ngtcp2 documents of its write calls: a packet fits the buffer; it takes no more of a stream's data than it is
  offered, and some only if it writes a packet or has room for more; it asks for more datagrams only after it took one.
\<close>

definition answer_ok :: "write_codes \<Rightarrow> write_call \<Rightarrow> write_answer \<Rightarrow> bool" where
  "answer_ok ng x a \<longleftrightarrow>
     (wa_nwrite a \<le> 0 \<or> int (length (wa_packet a)) = wa_nwrite a \<and> length (wa_packet a) \<le> MAX_PMTUD_UDP_PAYLOAD) \<and>
     (case x of
        WriteStream i offered fin \<Rightarrow>
          wa_ndatalen a \<le> int (length offered) \<and>
          (wa_ndatalen a < 0 \<and> wa_nwrite a \<noteq> NGTCP2_ERR_WRITE_MORE ng \<or>
           0 \<le> wa_ndatalen a \<and> (0 < wa_nwrite a \<or> wa_nwrite a = NGTCP2_ERR_WRITE_MORE ng))
      | WriteDatagram p \<Rightarrow> wa_accepted a \<or> wa_nwrite a \<noteq> NGTCP2_ERR_WRITE_MORE ng
      | _ \<Rightarrow> True)"

definition write_codes_ok :: "write_codes \<Rightarrow> bool" where
  "write_codes_ok ng \<longleftrightarrow>
     NGTCP2_ERR_WRITE_MORE ng < 0 \<and> NGTCP2_ERR_WRITE_MORE ng \<noteq> NGTCP2_ERR_CLOSING ng \<and>
     NGTCP2_ERR_WRITE_MORE ng \<noteq> NGTCP2_ERR_DRAINING ng"

definition flush_env_ok :: "flush_env \<Rightarrow> bool" where
  "flush_env_ok env \<longleftrightarrow>
     posix_codes (os_codes.truncate (fe_os env)) \<and> (case fe_tr env of Socket sock \<Rightarrow> sock_ok sock | _ \<Rightarrow> False) \<and>
     write_codes_ok (fe_codes env) \<and>
     1200 \<le> path_max_tx_udp_payload_size env \<and> path_max_tx_udp_payload_size env < 65536 \<and>
     (\<forall>k x. answer_ok (fe_codes env) x (fe_write env k x))"

section \<open>The data of the streams\<close>

text \<open>What ngtcp2 took from a stream in a flush, and what that made of the stream.\<close>

definition got :: "int \<Rightarrow> flush \<Rightarrow> bytes" where
  "got i st = concat (map snd (filter (\<lambda>(j, _). j = i) (taken st)))"

definition moved :: "bytes \<Rightarrow> object \<Rightarrow> object \<Rightarrow> bool" where
  "moved d x y \<longleftrightarrow>
     fst y = fst x \<and> queued (snd x) = d @ queued (snd y) \<and> inflight (snd y) = inflight (snd x) @ d \<and>
     send_fin (snd y) = send_fin (snd x) \<and>
     (sent_fin (snd y) = sent_fin (snd x) \<or> sent_fin (snd y) \<and> send_fin (snd x) \<and> queued (snd y) = [])"

definition ledger :: "flush \<Rightarrow> flush \<Rightarrow> bool" where
  "ledger st0 st \<longleftrightarrow> (\<forall>i. rel_option (moved (got i st)) (fl_stream i st0) (fl_stream i st))"

lemma ledger_frame:
  assumes "streams (chans (fl_conn st')) = streams (chans (fl_conn st))" "taken st' = taken st"
  shows "ledger st0 st' = ledger st0 st"
  using assms by (simp add: ledger_def got_def fl_stream_def)

lemma map_of_put: "map_of (map_put k v m) j = (if j = k then Some v else map_of m j)"
  by (induction k v m rule: map_put.induct) auto

lemma fl_stream_update:
  "fl_stream i st = Some (ob, s) \<Longrightarrow> fl_stream j (fl_update i f st) = (if j = i then Some (ob, f s) else fl_stream j st)"
  by (simp add: fl_update_def fl_stream_def Let_def map_of_put)

lemma fl_update_inv:
  assumes "connection_inv (fl_conn st)" "fl_stream i st = Some (ob, s)" "obj_ok s' \<and> stream_id s' = stream_id s \<and> ready s' = ready s" "f s = s'"
  shows "connection_inv (fl_conn (fl_update i f st))"
proof -
  let ?c = "chans (fl_conn st)"
  have c: "conn_inv ?c" "map_of (streams ?c) i = Some (ob, s)" using assms(1,2) by (simp_all add: connection_inv_def fl_stream_def)
  then have "get_stream i ?c = Some (ob, s)" by (simp add: get_stream_def)
  then have "conn_inv (put_stream i (ob, s') ?c)" using put_stream_inv [OF c(1)] assms(3) by blast
  then show ?thesis
    using assms c(2) by (simp add: fl_update_def Let_def put_stream_def connection_inv_def fl_stream_def)
qed

lemma fl_stream_ok:
  assumes "connection_inv (fl_conn st)" "fl_stream i st = Some (ob, s)"
  shows "obj_ok s" "buffer_inv s"
proof -
  show "obj_ok s"
    using get_stream_ok [of "chans (fl_conn st)" i ob s] assms by (simp add: connection_inv_def fl_stream_def get_stream_def)
  then show "buffer_inv s" by (simp add: obj_ok_def stream_inv_def)
qed

text \<open>Taking data from a stream, with its FIN if that was all.\<close>

definition take_fin :: "int \<Rightarrow> bool \<Rightarrow> flush \<Rightarrow> flush" where
  "take_fin i fin st = (if fin then fl_update i (\<lambda>s. s\<lparr>sent_fin := True\<rparr>) st else st)"

lemma fl_update_fields [simp]:
  "fl_dgrams (fl_update i f st) = fl_dgrams st" "fl_batch (fl_update i f st) = fl_batch st"
  "channels (fl_update i f st) = channels st" "stream_packets (fl_update i f st) = stream_packets st"
  "fuel (fl_update i f st) = fuel st" "taken (fl_update i f st) = taken st" "dgrams_taken (fl_update i f st) = dgrams_taken st"
  "fl_calls (fl_update i f st) = fl_calls st"
  by (simp_all add: fl_update_def Let_def split: option.split)

lemma stream_took_rest [simp]:
  "fl_dgrams (stream_took i d n st) = fl_dgrams st" "fl_batch (stream_took i d n st) = fl_batch st"
  "stream_packets (stream_took i d n st) = stream_packets st" "dgrams_taken (stream_took i d n st) = dgrams_taken st"
  "taken (stream_took i d n st) = taken st @ [(i, take n d)]"
  by (simp_all add: stream_took_def)

lemma got_took: "got j (stream_took i d n st) = got j st @ (if j = i then take n d else [])"
  by (simp add: got_def)

lemma moved_took:
  assumes "moved d x (ob, s)" "buffer_inv s" "pending m s = (bufs, mr)" "n \<le> length (concat bufs)"
    "fin \<longrightarrow> send_fin s \<and> \<not> mr \<and> n = length (concat bufs)"
  shows "moved (d @ take n (concat bufs)) x (ob, wrote n (if fin then s\<lparr>sent_fin := True\<rparr> else s))"
proof -
  obtain rest where q: "queued s = concat bufs @ rest" "mr \<longleftrightarrow> rest \<noteq> []" using pending_spec [OF assms(2,3)] by blast
  have n: "n \<le> unsent_size s" using assms(4) length_queued [OF assms(2)] q(1) by simp
  let ?s = "if fin then s\<lparr>sent_fin := True\<rparr> else s"
  have b: "buffer_inv ?s" "queued ?s = queued s" "inflight ?s = inflight s"
    using assms(2) buffer_inv_cong [of ?s s] view_cong [of ?s s] by (simp_all add: queued_def inflight_def buf_bytes_def)
  have w: "inflight (wrote n ?s) = inflight s @ take n (queued s)" "queued (wrote n ?s) = drop n (queued s)"
    using wrote_spec [OF b(1), of n] n b(2,3) by (cases fin; simp)+
  have f: "send_fin (wrote n ?s) = send_fin s" "sent_fin (wrote n ?s) = (fin \<or> sent_fin s)"
    by (auto simp: wrote_def Let_def check_watermark_if_enabled_eq split: prod.split)
  have t: "take n (queued s) = take n (concat bufs)" using q(1) assms(4) by simp
  have m: "ob = fst x" "queued (snd x) = d @ queued s" "inflight s = inflight (snd x) @ d" "send_fin s = send_fin (snd x)"
      "sent_fin s = sent_fin (snd x) \<or> sent_fin s \<and> send_fin (snd x) \<and> queued s = []"
    using assms(1) by (simp_all add: moved_def)
  have "queued (snd x) = (d @ take n (concat bufs)) @ queued (wrote n ?s)"
    using m(2) w(2) append_take_drop_id [of n "queued s"] unfolding t by simp
  moreover have "inflight (wrote n ?s) = inflight (snd x) @ d @ take n (concat bufs)" using w(1) m(3) t by simp
  moreover have "sent_fin (wrote n ?s) = sent_fin (snd x) \<or>
      sent_fin (wrote n ?s) \<and> send_fin (snd x) \<and> queued (wrote n ?s) = []"
  proof (cases fin)
    case True
    then show ?thesis using assms(5) q w(2) f(2) m(4) by simp
  next
    case False
    then show ?thesis using m(5) w(2) f(2) by auto
  qed
  ultimately show ?thesis unfolding moved_def fst_conv snd_conv using m(1,4) f(1) by blast
qed

text \<open>
  What a flush keeps. \<open>r0\<close> is the datagram queue at its start with an observer of the wire; the observer sees the pieces that
  ngtcp2 takes, and the invariant of the queue holds with what it has seen.
\<close>

definition dgram_ledger :: "drun \<Rightarrow> flush \<Rightarrow> bool" where
  "dgram_ledger r0 st \<longleftrightarrow>
     (case fl_dgrams st of
        None \<Rightarrow> True
      | Some d \<Rightarrow> \<exists>r. drun_inv r \<and> rq r = send_buffer d \<and> drun.accepted r = drun.accepted r0 \<and>
          drun.wire r = drun.wire r0 @ map (\<lambda>p. (prep_id p, prep_data p)) (dgrams_taken st))"

definition core :: "flush \<Rightarrow> drun \<Rightarrow> flush \<Rightarrow> bool" where
  "core st0 r0 st \<longleftrightarrow>
     connection_inv (fl_conn st) \<and> ledger st0 st \<and> dgram_ledger r0 st \<and> (fl_dgrams st = None \<longleftrightarrow> fl_dgrams st0 = None)"

lemma dgram_ledger_frame:
  "fl_dgrams st' = fl_dgrams st \<Longrightarrow> dgrams_taken st' = dgrams_taken st \<Longrightarrow> dgram_ledger r0 st' = dgram_ledger r0 st"
  unfolding dgram_ledger_def by (simp only:)

lemma core_frame:
  assumes "connection_inv (fl_conn st') = connection_inv (fl_conn st)" "chans (fl_conn st') = chans (fl_conn st)"
    "fl_dgrams st' = fl_dgrams st" "taken st' = taken st" "dgrams_taken st' = dgrams_taken st"
  shows "core st0 r0 st' = core st0 r0 st"
proof -
  have "dgram_ledger r0 st' = dgram_ledger r0 st" by (rule dgram_ledger_frame [OF assms(3,5)])
  moreover have "ledger st0 st' = ledger st0 st" by (rule ledger_frame) (use assms in simp_all)
  ultimately show ?thesis using assms by (simp add: core_def)
qed

definition filling :: "send_batch \<Rightarrow> bool" where
  "filling b \<longleftrightarrow> line_ok b \<and> pk_wf (pkts (batch_send b)) \<and> \<not> stalled b \<and> owner b = None \<and> waiters b = [] \<and>
     list_all (\<lambda>n. n \<le> MAX_PMTUD_UDP_PAYLOAD) (take (n_packets b) (pk_size (pkts (batch_send b))))"

lemma filling_empty: "filling b \<and> n_packets b = 0 \<longleftrightarrow> batch_inv b \<and> \<not> stalled b"
  by (auto simp: filling_def batch_inv_def)

lemma sum_list_bound: "list_all (\<lambda>n. n \<le> k) xs \<Longrightarrow> sum_list xs \<le> k * length (xs :: nat list)"
  by (induction xs) auto

lemma filling_room:
  assumes "filling b" "n_packets b < MAX_BATCH"
  shows "buffer_room b"
proof -
  let ?n = "n_packets b" and ?m = MAX_PMTUD_UDP_PAYLOAD
  have "sum_list (take ?n (pk_size (pkts (batch_send b)))) \<le> ?m * ?n"
    using sum_list_bound [of ?m "take ?n (pk_size (pkts (batch_send b)))"] assms(1) by (auto simp: filling_def pk_wf_def min_absorb2)
  moreover have "?m * ?n + ?m \<le> ?m * MAX_BATCH" using mult_le_mono2 [of "Suc ?n" MAX_BATCH ?m] assms(2) by simp
  ultimately show ?thesis using assms(2) by (simp add: buffer_room_def)
qed

lemma put_packet_wf:
  assumes "pk_wf p"
  shows "pk_wf (put_packet x e p)" "n_pkts (put_packet x e p) = n_pkts p + 1"
    "packets_of (put_packet x e p) = packets_of p @ [(x, e)]"
    "take (n_pkts p + 1) (pk_size (put_packet x e p)) = take (n_pkts p) (pk_size p) @ [length x]"
proof -
  let ?n = "n_pkts p" and ?ss = "take (n_pkts p) (pk_size p)" and ?q = "put_packet x e p"
  have p: "?n \<le> length (pk_size p)" "?n \<le> length (pk_ecn p)" "sum_list ?ss \<le> length (pk_buf p)" using assms by (simp_all add: pk_wf_def)
  have q: "take (?n + 1) (pk_size ?q) = ?ss @ [length x]" "take (?n + 1) (pk_ecn ?q) = take ?n (pk_ecn p) @ [e]"
    using p by (simp_all add: put_packet_def Let_def)
  show "take (?n + 1) (pk_size ?q) = ?ss @ [length x]" by (rule q)
  show n: "n_pkts ?q = ?n + 1" by (simp add: put_packet_def Let_def)
  show "pk_wf ?q" unfolding pk_wf_def n q using p by (simp add: put_packet_def Let_def)
  have "split_at (?ss @ [length x]) (pk_buf ?q) = split_at ?ss (pk_buf p) @ [x]"
    using p split_at_prefix [of ?ss "take (sum_list ?ss) (pk_buf p)"] split_at_take [of ?ss "sum_list ?ss" "pk_buf p"]
    by (simp add: split_at_append put_packet_def Let_def)
  then show "packets_of ?q = packets_of p @ [(x, e)]" unfolding packets_of_def n q using p by simp
qed

lemma batch_put_filling:
  assumes "filling b" "length x \<le> MAX_PMTUD_UDP_PAYLOAD"
  shows "filling (batch_put x e b)" "n_packets (batch_put x e b) = n_packets b + 1" "batch_out (batch_put x e b) = batch_out b"
  using assms put_packet_wf [of "pkts (batch_send b)" x e] by (auto simp: filling_def batch_put_def line_ok_def)

lemma batch_inv_emit: "batch_inv (batch_emit x b) = batch_inv b"
  by (simp add: batch_inv_def line_ok_def)

text \<open>After a send the batch is empty or stalled, and the caller goes on only if it is empty.\<close>

lemma conn_send_filling:
  assumes "posix_codes (os_codes.truncate os)" "sock_ok sock" "filling b" "n_packets b \<noteq> 0" "n_packets b \<le> MAX_BATCH"
  shows "\<exists>go b' zs. conn_send os (Socket sock) c b = Some (go, b') \<and> batch_inv b' \<and> (go \<longrightarrow> \<not> stalled b') \<and> batch_out b' = batch_out b @ zs"
proof -
  obtain rv b' zs where r: "batch_send_packets os (Socket sock) c b = Some (rv, b')" "pk_wf (pkts (batch_send b'))"
    "n_packets b' \<le> MAX_BATCH" "blocked (os_codes.truncate os) rv \<longleftrightarrow> n_packets b' \<noteq> 0"
    "stalled b' = stalled b" "owner b' = owner b" "waiters b' = waiters b" "waiting_on_stall b' = waiting_on_stall b"
    "batch_out b' = batch_out b @ zs" using batch_send_result [OF assms(1,2), of b c] assms(3-5) by (auto simp: filling_def)
  have b: "line_ok b" "\<not> stalled b" "owner b = None" "waiters b = []" using assms(3) by (simp_all add: filling_def)
  show ?thesis
  proof (cases "blocked (os_codes.truncate os) rv")
    case True
    then have "batch_inv (batch_emit WhenWriteable (b'\<lparr>stalled := True, owner := Some c\<rparr>))"
      using r b by (simp add: batch_inv_def line_ok_def)
    then show ?thesis using r b assms(4,5) True by (auto simp: conn_send_def stall_send_def)
  next
    case False
    have i: "batch_inv b'" using r b False by (simp add: batch_inv_def line_ok_def)
    then show ?thesis using r b assms(4,5) False by (auto simp: conn_send_def batch_inv_emit)
  qed
qed

lemma react_inv:
  assumes "connection_inv c"
  shows "\<exists>c'. react env x c = Some c' \<and> connection_inv c' \<and> chans c' = chans c"
proof -
  have r: "route_inv c" using assms by (simp add: connection_inv_def)
  show ?thesis
  proof (cases x)
    case (PacketTooBig k sz)
    then show ?thesis
      using too_big_inv [OF r, of "fe_net env" "ng_codes.truncate (fe_codes env)" "fe_route env" "fe_mig env"
          "path_max_tx_udp_payload_size env" sz] assms by (auto simp: connection_inv_def)
  next
    case (SendUnreachable k)
    then show ?thesis
      using unreachable_inv [OF r, of "fe_net env" "ng_codes.truncate (fe_codes env)" "fe_route env" "fe_mig env"] assms
      by (auto simp: connection_inv_def)
  qed (use assms in \<open>auto simp: connection_inv_def ask_def route_inv_def asked_migration_def\<close>)
qed

lemma react_all_inv:
  "connection_inv c \<Longrightarrow> \<exists>c'. react_all env xs c = Some c' \<and> connection_inv c' \<and> chans c' = chans c"
proof (induction xs arbitrary: c)
  case (Cons x xs)
  obtain c1 where c1: "react env x c = Some c1" "connection_inv c1" "chans c1 = chans c" using react_inv [OF Cons.prems] by blast
  then show ?case using Cons.IH [OF c1(2)] by auto
qed simp

lemma fl_send_ok:
  assumes "flush_env_ok env" "core st0 r0 st" "filling (fl_batch st)" "n_packets (fl_batch st) \<noteq> 0" "n_packets (fl_batch st) \<le> MAX_BATCH"
  obtains go st' where "fl_send env rid st = Some (go, st')" "core st0 r0 st'" "batch_inv (fl_batch st')" "go \<longrightarrow> \<not> stalled (fl_batch st')"
    "channels st' = channels st" "fuel st' = fuel st" "stream_packets st' = stream_packets st" "fl_dgrams st' = fl_dgrams st"
proof -
  obtain sock where s: "fe_tr env = Socket sock" "sock_ok sock" "posix_codes (os_codes.truncate (fe_os env))"
    using assms(1) by (auto simp: flush_env_ok_def split: transport.splits)
  obtain go b zs where b: "conn_send (fe_os env) (Socket sock) rid (fl_batch st) = Some (go, b)" "batch_inv b" "go \<longrightarrow> \<not> stalled b"
    using conn_send_filling [OF s(3,2) assms(3-5), of rid] by blast
  obtain c where c: "react_all env (drop (length (batch_out (fl_batch st))) (batch_out b)) (fl_conn st) = Some c"
    "connection_inv c" "chans c = chans (fl_conn st)"
    using react_all_inv [of "fl_conn st" env] assms(2) by (auto simp: core_def)
  have "core st0 r0 (st\<lparr>fl_conn := c, fl_batch := b\<rparr>)"
    by (subst core_frame [of _ st]) (use assms(2) c in \<open>simp_all add: core_def\<close>)
  then show thesis using that [of go "st\<lparr>fl_conn := c, fl_batch := b\<rparr>"] s(1) b c(1) by (simp add: fl_send_def)
qed

section \<open>The datagrams of a packet\<close>

lemma pending_sent_fin: "pending m (s\<lparr>sent_fin := b\<rparr>) = pending m s"
  by (simp add: pending_def)

definition pieces :: "flush \<Rightarrow> nat" where
  "pieces st = (case fl_dgrams st of None \<Rightarrow> 0 | Some d \<Rightarrow> total_pieces (buf (send_buffer d)))"

definition dgram_pending_ok :: "drun \<Rightarrow> prepared \<Rightarrow> flush \<Rightarrow> bool" where
  "dgram_pending_ok r0 p st \<longleftrightarrow>
     (case fl_dgrams st of
        None \<Rightarrow> False
      | Some d \<Rightarrow> pend_ok (send_buffer d) p \<and> last_i (send_buffer d) \<le> head_index (send_buffer d) + split_lookahead (send_buffer d))"

lemma piece_bound:
  assumes "flush_env_ok env"
  shows "fst (get_max_datagram_piece (path_max_tx_udp_payload_size env) c) < 65536"
  using assms by (auto simp: get_max_datagram_piece_def Let_def flush_env_ok_def DATAGRAM_OVERHEAD_0RTT_def
      DATAGRAM_OVERHEAD_1RTT_def sz_sub_exact)

lemma piece_conn: "connection_inv (snd (get_max_datagram_piece pmtu c)) = connection_inv c"
    "chans (snd (get_max_datagram_piece pmtu c)) = chans c"
  by (auto simp: get_max_datagram_piece_def Let_def connection_inv_def route_inv_def asked_migration_def)

lemma next_datagram_ok:
  assumes "flush_env_ok env" "core st0 r0 st" "fl_dgrams st \<noteq> None"
  obtains p st' where "next_datagram env st = Some (p, st')" "core st0 r0 st'" "pieces st' \<le> pieces st"
    "fl_batch st' = fl_batch st" "stream_packets st' = stream_packets st" "fl_calls st' = fl_calls st"
    "p = None \<longrightarrow> \<not> ch_has_unsent ChDatagrams st'" "\<And>x. p = Some x \<Longrightarrow> dgram_pending_ok r0 x st'"
proof -
  obtain d where d: "fl_dgrams st = Some d" using assms(3) by blast
  obtain r where r: "drun_inv r" "rq r = send_buffer d" "drun.accepted r = drun.accepted r0"
    "drun.wire r = drun.wire r0 @ map (\<lambda>p. (prep_id p, prep_data p)) (dgrams_taken st)"
    using assms(2) d by (auto simp: core_def dgram_ledger_def)
  let ?g = "get_max_datagram_piece (path_max_tx_udp_payload_size env) (fl_conn st)"
  have m: "fst ?g < 65536" by (rule piece_bound [OF assms(1)])
  have qi: "queue_inv (rq r)" using r(1) by (simp add: drun_inv_def)
  obtain p q where f: "fetch (fst ?g) (partially_filled st) (rq r) = Some (p, q)"
    "drun_inv (r\<lparr>rq := q, dropped_count := dropped_count r + count_dropped (rq r) q\<rparr>)"
    "case p of None \<Rightarrow> True | Some p \<Rightarrow> pend_ok q p \<and> last_i q \<le> head_index q + split_lookahead q"
    by (rule drun_fetch [OF r(1) m])
  obtain p' q' dropped es j k where h: "fetch (fst ?g) (partially_filled st) (rq r) = Some (p', q')" "buf (rq r) = dropped @ es"
    "buf q' = resplit j k es" "case p' of None \<Rightarrow> queue_empty q' | Some p \<Rightarrow> pend_ok q' p \<and> last_i q' \<le> head_index q' + split_lookahead q'"
    by (rule fetch_spec [OF qi m, of "partially_filled st"])
  have eq: "p' = p" "q' = q" using f(1) h(1) by simp_all
  let ?t = "st\<lparr>fl_conn := snd ?g, fl_dgrams := Some (d\<lparr>send_buffer := q\<rparr>)\<rparr>"
  have n: "next_datagram env st = Some (p, ?t)"
    using f(1) r(2) d by (simp add: next_datagram_def dgrams_pending_def case_prod_unfold)
  have "ledger st0 ?t = ledger st0 st" by (rule ledger_frame) (simp_all add: piece_conn)
  moreover have "dgram_ledger r0 ?t" unfolding dgram_ledger_def
    using f(2) r(3,4) by (auto intro!: exI [of _ "r\<lparr>rq := q, dropped_count := dropped_count r + count_dropped (rq r) q\<rparr>"])
  ultimately have "core st0 r0 ?t" using assms(2) d by (simp add: core_def piece_conn)
  moreover have "pieces ?t \<le> pieces st" using h(2,3) d r(2) eq by (simp add: pieces_def total_pieces_resplit)
  moreover have "p = None \<longrightarrow> \<not> ch_has_unsent ChDatagrams ?t"
    using h(4) eq by (auto simp: ch_has_unsent_def dgrams_has_unsent_impl_def dgrams_is_empty_impl_def)
  moreover have "dgram_pending_ok r0 x ?t" if "p = Some x" for x using that f(3) by (simp add: dgram_pending_ok_def)
  ultimately show thesis using that [OF n] by simp
qed

lemma datagram_answer_ok:
  assumes "core st0 r0 st" "dgram_pending_ok r0 p st"
  obtains st' where "datagram_answer p a st = Some st'" "core st0 r0 st'" "pieces st' + of_bool (wa_accepted a) \<le> pieces st"
    "fl_batch st' = fl_batch st" "stream_packets st' = stream_packets st" "fl_dgrams st' \<noteq> None"
proof (cases "wa_accepted a")
  case True
  obtain d where d: "fl_dgrams st = Some d" "pend_ok (send_buffer d) p"
      "last_i (send_buffer d) \<le> head_index (send_buffer d) + split_lookahead (send_buffer d)"
    using assms(2) by (auto simp: dgram_pending_ok_def split: option.splits)
  obtain r where r: "drun_inv r" "rq r = send_buffer d" "drun.accepted r = drun.accepted r0"
    "drun.wire r = drun.wire r0 @ map (\<lambda>p. (prep_id p, prep_data p)) (dgrams_taken st)"
    using assms(1) d by (auto simp: core_def dgram_ledger_def)
  obtain q r1 where q: "confirm_sent (send_buffer d) = Some q"
    and i: "drun_inv r1" "rq r1 = q" "drun.accepted r1 = drun.accepted r0" "drun.wire r1 = drun.wire r @ [(prep_id p, prep_data p)]"
    using drun_confirm [OF r(1), of p] d r(2,3) by fastforce
  let ?t = "st\<lparr>fl_dgrams := Some (d\<lparr>send_buffer := q\<rparr>), dgrams_taken := dgrams_taken st @ [p]\<rparr>"
  have "dgram_ledger r0 ?t" unfolding dgram_ledger_def using i r(4) by (auto intro!: exI [of _ r1])
  moreover have "ledger st0 ?t = ledger st0 st" by (rule ledger_frame) simp_all
  ultimately have "core st0 r0 ?t" using assms(1) d(1) by (simp add: core_def)
  moreover have "queue_inv (send_buffer d)" using r(1,2) by (simp add: drun_inv_def)
  then have "pieces ?t + of_bool (wa_accepted a) \<le> pieces st"
    using confirm_progress [OF _ d(2) q] d(1) by (simp add: pieces_def Suc_leI)
  ultimately show thesis
    using that [of ?t] True d(1) q by (simp add: datagram_answer_def datagram_taken_def confirm_datagram_sent_def)
next
  case False
  then show thesis using that [of st] assms by (auto simp: datagram_answer_def dgram_pending_ok_def split: option.splits)
qed

lemma ng_write_core:
  assumes "ng_write env x st = (a, st')"
  shows "core st0 r0 st' = core st0 r0 st" "pieces st' = pieces st" "fl_batch st' = fl_batch st"
    "stream_packets st' = stream_packets st" "fl_dgrams st' = fl_dgrams st" "channels st' = channels st" "fuel st' = fuel st - 1"
    "fl_stream i st' = fl_stream i st" "flush_env_ok env \<Longrightarrow> answer_ok (fe_codes env) x a"
proof -
  have st': "st' = fl_call x (st\<lparr>fuel := fuel st - 1\<rparr>)" and a: "a = fe_write env (length (fl_calls st)) x"
    using assms by (simp_all add: ng_write_def)
  show "core st0 r0 st' = core st0 r0 st" by (rule core_frame) (simp_all add: st' fl_call_def)
  show "flush_env_ok env \<Longrightarrow> answer_ok (fe_codes env) x a" by (simp add: a flush_env_ok_def)
qed (use assms in \<open>auto simp: ng_write_def fl_call_def pieces_def fl_stream_def\<close>)

lemma core_partially [simp]: "core st0 r0 (st\<lparr>partially_filled := b\<rparr>) = core st0 r0 st"
  by (rule core_frame) simp_all

lemma pieces_partially [simp]: "pieces (st\<lparr>partially_filled := b\<rparr>) = pieces st"
  by (simp add: pieces_def)

text \<open>How the loop over the datagrams ends.\<close>

definition more_wanted :: "write_codes \<Rightarrow> write_answer option \<Rightarrow> bool" where
  "more_wanted ng a = (case a of None \<Rightarrow> True | Some x \<Rightarrow> wa_nwrite x = NGTCP2_ERR_WRITE_MORE ng)"

definition dgram_end :: "flush_env \<Rightarrow> flush \<Rightarrow> drun \<Rightarrow> flush \<Rightarrow> dgram_flow \<Rightarrow> bool" where
  "dgram_end env st0 r0 st r =
     (case r of
        DgramDone w a st' \<Rightarrow>
          core st0 r0 st' \<and> fl_batch st' = fl_batch st \<and> stream_packets st' = stream_packets st \<and> fl_dgrams st' \<noteq> None \<and>
          (\<forall>x. a = Some x \<longrightarrow> (\<exists>p. answer_ok (fe_codes env) (WriteDatagram p) x)) \<and>
          fuel st + pieces st' \<le> fuel st' + pieces st + of_bool (\<not> more_wanted (fe_codes env) a) \<and>
          (more_wanted (fe_codes env) a \<longrightarrow> \<not> w \<and> \<not> ch_has_unsent ChDatagrams st')
      | _ \<Rightarrow> False)"

lemma dgram_end_trans:
  assumes "dgram_end env st0 r0 st1 r" "fl_batch st1 = fl_batch st" "stream_packets st1 = stream_packets st"
    "fuel st + pieces st1 \<le> fuel st1 + pieces st"
  shows "dgram_end env st0 r0 st r"
  using assms by (cases r) (auto simp: dgram_end_def)

lemma datagram_loop_ok:
  assumes "flush_env_ok env"
  shows "core st0 r0 st \<Longrightarrow> buffer_room (fl_batch st) \<Longrightarrow> fl_dgrams st \<noteq> None \<Longrightarrow> pieces st < fuel st \<Longrightarrow> more_wanted (fe_codes env) lst \<Longrightarrow>
    \<forall>x. lst = Some x \<longrightarrow> (\<exists>p. answer_ok (fe_codes env) (WriteDatagram p) x) \<Longrightarrow>
    dgram_end env st0 r0 st (datagram_loop env w lst st)"
proof (induction "fuel st" arbitrary: w lst st rule: less_induct)
  case less
  obtain p st1 where n: "next_datagram env st = Some (p, st1)" "core st0 r0 st1" "pieces st1 \<le> pieces st"
    "fl_batch st1 = fl_batch st" "stream_packets st1 = stream_packets st"
    "p = None \<longrightarrow> \<not> ch_has_unsent ChDatagrams st1" "\<And>x. p = Some x \<Longrightarrow> dgram_pending_ok r0 x st1"
    using next_datagram_ok [OF assms less.prems(1,3)] by metis
  have fu: "fuel st1 = fuel st" "fl_dgrams st1 \<noteq> None"
    using next_datagram_fuel [OF n(1)] n(1) by (auto simp: next_datagram_def split: option.splits prod.splits)
  show ?case
  proof (cases p)
    case None
    then show ?thesis using n less.prems fu by (subst datagram_loop.simps) (simp add: dgram_end_def)
  next
    case (Some x)
    obtain a st2 where w: "ng_write env (WriteDatagram x) st1 = (a, st2)" by fastforce
    note wc = ng_write_core [OF w]
    have "dgram_pending_ok r0 x st2" using n(7) [OF Some] wc(5) by (simp add: dgram_pending_ok_def)
    then obtain st3 where s: "datagram_answer x a st2 = Some st3" "core st0 r0 st3" "pieces st3 + of_bool (wa_accepted a) \<le> pieces st2"
      "fl_batch st3 = fl_batch st2" "stream_packets st3 = stream_packets st2" "fl_dgrams st3 \<noteq> None"
      using datagram_answer_ok [of st0 r0 st2 x a] n(2) wc(1) by blast
    have ao: "answer_ok (fe_codes env) (WriteDatagram x) a" using wc(9) [OF assms] .
    have f3: "fuel st3 = fuel st - 1" using datagram_answer_fuel [OF s(1)] wc(7) fu(1) by simp
    have pos: "fuel st \<noteq> 0" using less.prems(4) by simp
    have eq: "datagram_loop env w lst st =
        (if wa_nwrite a \<noteq> NGTCP2_ERR_WRITE_MORE (fe_codes env) then DgramDone (w \<and> \<not> wa_accepted a) (Some a) st3
         else datagram_loop env (w \<and> \<not> wa_accepted a) (Some a) (st3\<lparr>partially_filled := True\<rparr>))"
      by (subst datagram_loop.simps) (use n(1,4) Some w s(1) pos fu(1) less.prems(2) in simp)
    show ?thesis
    proof (cases "wa_nwrite a = NGTCP2_ERR_WRITE_MORE (fe_codes env)")
      case True
      then have "wa_accepted a" using ao by (simp add: answer_ok_def)
      then have le: "pieces st3 + 1 \<le> pieces st" using s(3) wc(2) n(3) by simp
      have "dgram_end env st0 r0 (st3\<lparr>partially_filled := True\<rparr>)
          (datagram_loop env (w \<and> \<not> wa_accepted a) (Some a) (st3\<lparr>partially_filled := True\<rparr>))"
        by (rule less.hyps) (use f3 pos s le less.prems(2,4) n(4) wc(3) True ao in \<open>auto simp: more_wanted_def\<close>)
      from dgram_end_trans [OF this, of st]
      show ?thesis using eq True n wc s le f3 pos by simp
    next
      case False
      then show ?thesis using eq s n wc ao f3 pos by (auto simp: dgram_end_def more_wanted_def)
    qed
  qed
qed

section \<open>One round\<close>

text \<open>
  The list of channels ends with the pseudo stream, which is in it once, until that has been taken. Each round uses up a
  channel, a piece of a datagram or a packet of the quantum for each call of ngtcp2, so that as many calls are enough.
\<close>

definition pseudo_tail :: "channel list \<Rightarrow> bool" where
  "pseudo_tail xs \<longleftrightarrow> (\<exists>ys. xs = ys @ [ChPseudo] \<and> ChPseudo \<notin> set ys)"

definition valid_channels :: "flush \<Rightarrow> channel list \<Rightarrow> bool" where
  "valid_channels st0 xs \<longleftrightarrow>
     (\<forall>i. ChStream i \<in> set xs \<longrightarrow> fl_stream i st0 \<noteq> None) \<and> (ChDatagrams \<in> set xs \<longrightarrow> fl_dgrams st0 \<noteq> None)"

definition budget :: "flush_env \<Rightarrow> flush \<Rightarrow> nat" where
  "budget env st = (max_stream_packets env - stream_packets st) + length (channels st) + pieces st"

definition round_ok :: "flush_env \<Rightarrow> flush \<Rightarrow> drun \<Rightarrow> flush \<Rightarrow> bool" where
  "round_ok env st0 r0 st \<longleftrightarrow>
     core st0 r0 st \<and> filling (fl_batch st) \<and> n_packets (fl_batch st) < MAX_BATCH \<and> valid_channels st0 (channels st) \<and>
     (channels st = [] \<or> pseudo_tail (channels st)) \<and> stream_packets st < max_stream_packets env \<and> budget env st \<le> fuel st"

definition flow_ok :: "flush_env \<Rightarrow> flush \<Rightarrow> drun \<Rightarrow> flow \<Rightarrow> bool" where
  "flow_ok env st0 r0 r =
     (case r of
        Continue st \<Rightarrow> round_ok env st0 r0 st
      | Break st \<Rightarrow> core st0 r0 st \<and> filling (fl_batch st) \<and> n_packets (fl_batch st) < MAX_BATCH \<and>
          stream_packets st \<le> max_stream_packets env
      | Return b st \<Rightarrow> core st0 r0 st \<and> batch_inv (fl_batch st) \<and> b = (\<not> stalled (fl_batch st)) \<and>
          stream_packets st \<le> max_stream_packets env
      | _ \<Rightarrow> False)"

text \<open>The state after a call of ngtcp2 for the channel just taken.\<close>

definition written_ok :: "flush_env \<Rightarrow> flush \<Rightarrow> channel \<Rightarrow> flush \<Rightarrow> bool" where
  "written_ok env st0 ch st \<longleftrightarrow>
     filling (fl_batch st) \<and> n_packets (fl_batch st) < MAX_BATCH \<and> valid_channels st0 (ch # channels st) \<and>
     (if ch = ChPseudo then channels st = [] else pseudo_tail (channels st)) \<and>
     stream_packets st < max_stream_packets env \<and> budget env st \<le> fuel st"

definition took :: "channel \<Rightarrow> bytes \<Rightarrow> write_answer \<Rightarrow> flush \<Rightarrow> flush" where
  "took ch offered a st =
     (case ch of ChStream i \<Rightarrow> if wa_ndatalen a \<ge> 0 then stream_took i offered (nat (wa_ndatalen a)) st else st | _ \<Rightarrow> st)"

lemma took_partially: "took ch d a (st\<lparr>partially_filled := b\<rparr>) = (took ch d a st)\<lparr>partially_filled := b\<rparr>"
  by (simp add: took_def stream_took_def fl_update_def fl_stream_def Let_def split: channel.split option.split)

lemma took_fields [simp]:
  "fl_batch (took ch d a st) = fl_batch st" "channels (took ch d a st) = channels st" "fuel (took ch d a st) = fuel st"
  "stream_packets (took ch d a st) = stream_packets st" "pieces (took ch d a st) = pieces st"
  by (simp_all add: took_def pieces_def split: channel.split)

lemma written_partially [simp]: "written_ok env st0 ch (st\<lparr>partially_filled := b\<rparr>) = written_ok env st0 ch st"
  by (simp add: written_ok_def budget_def)

lemma written_took [simp]: "written_ok env st0 ch (took ch' d a st) = written_ok env st0 ch st"
  by (simp add: written_ok_def budget_def)

lemma written_round:
  assumes "written_ok env st0 ch st" "core st0 r0 st"
  shows "round_ok env st0 r0 st"
  using assms by (auto simp: written_ok_def round_ok_def valid_channels_def split: if_splits)

lemma pseudo_tail_drop:
  "pseudo_tail xs \<Longrightarrow> dropWhile (\<lambda>x. x \<noteq> ChPseudo) xs = [ChPseudo]"
  by (auto simp: pseudo_tail_def dropWhile_append3 intro: dropWhile_append2 [THEN trans])

lemma pseudo_tail_insert:
  assumes "pseudo_tail xs" "ch \<noteq> ChPseudo"
  shows "pseudo_tail (takeWhile (\<lambda>x. x \<noteq> ChPseudo) xs @ [ch] @ dropWhile (\<lambda>x. x \<noteq> ChPseudo) xs)"
proof -
  obtain ys where y: "xs = ys @ [ChPseudo]" "ChPseudo \<notin> set ys" using assms(1) by (auto simp: pseudo_tail_def)
  then have "takeWhile (\<lambda>x. x \<noteq> ChPseudo) xs = ys" by (auto simp: takeWhile_tail intro: takeWhile_append2 [THEN trans])
  then show ?thesis using y assms pseudo_tail_drop [OF assms(1)] unfolding pseudo_tail_def
    by (intro exI [of _ "ys @ [ch]"]) auto
qed

lemma takeWhile_insert_set:
  "set (takeWhile P xs @ [x] @ dropWhile P xs) = insert x (set xs)" "length (takeWhile P xs @ [x] @ dropWhile P xs) = Suc (length xs)"
proof -
  have "set xs = set (takeWhile P xs) \<union> set (dropWhile P xs)" by (subst takeWhile_dropWhile_id [of P xs, symmetric]) (simp only: set_append)
  then show "set (takeWhile P xs @ [x] @ dropWhile P xs) = insert x (set xs)" by auto
  have "length xs = length (takeWhile P xs) + length (dropWhile P xs)"
    by (subst takeWhile_dropWhile_id [of P xs, symmetric]) (simp only: length_append)
  then show "length (takeWhile P xs @ [x] @ dropWhile P xs) = Suc (length xs)" by simp
qed

lemma core_channels [simp]:
  "core st0 r0 (st\<lparr>channels := xs\<rparr>) = core st0 r0 st" "core st0 r0 (st\<lparr>fl_batch := b\<rparr>) = core st0 r0 st"
  "core st0 r0 (st\<lparr>fl_batch := b, stream_packets := n\<rparr>) = core st0 r0 st"
  by (rule core_frame; simp)+

lemma pieces_channels [simp]: "pieces (st\<lparr>channels := xs\<rparr>) = pieces st"
  by (simp add: pieces_def)

lemma requeue_ok:
  assumes "written_ok env st0 ch st" "core st0 r0 st" "budget env st < fuel st" "w \<longrightarrow> ch = ChDatagrams"
  shows "flow_ok env st0 r0 (requeue w ch st)"
proof -
  let ?ins = "takeWhile (\<lambda>x. x \<noteq> ChPseudo) (channels st) @ [ch] @ dropWhile (\<lambda>x. x \<noteq> ChPseudo) (channels st)"
  have w: "filling (fl_batch st)" "n_packets (fl_batch st) < MAX_BATCH" "valid_channels st0 (ch # channels st)"
    "if ch = ChPseudo then channels st = [] else pseudo_tail (channels st)" "stream_packets st < max_stream_packets env"
    using assms(1) by (simp_all add: written_ok_def)
  note r = written_round [OF assms(1,2)]
  consider "w" | "\<not> w" "ch = ChPseudo" | "\<not> w" "ch \<noteq> ChPseudo" "ch_has_unsent ch st" | "\<not> w" "\<not> ch_has_unsent ch st" "ch \<noteq> ChPseudo" by blast
  then show ?thesis
  proof cases
    case 1
    then have "pseudo_tail (ChDatagrams # channels st)" using w(4) assms(4) by (auto simp: pseudo_tail_def intro: exI [of _ "ChDatagrams # _"])
    then show ?thesis using w assms 1 by (simp add: requeue_def flow_ok_def round_ok_def budget_def)
  next
    case 2
    then show ?thesis using w assms
      by (simp add: requeue_def flow_ok_def round_ok_def budget_def pseudo_tail_def valid_channels_def)
  next
    case 3
    then have "pseudo_tail ?ins" using w(4) pseudo_tail_insert by simp
    moreover have "valid_channels st0 ?ins" using w(3) unfolding valid_channels_def takeWhile_insert_set by simp
    moreover have "length ?ins = Suc (length (channels st))" by (rule takeWhile_insert_set)
    moreover have "channels st \<noteq> []" using w(4) 3(2) by (auto simp: pseudo_tail_def)
    ultimately show ?thesis using w assms 3
      by (simp add: requeue_def flow_ok_def round_ok_def budget_def del: append.simps append_assoc)
  next
    case 4
    then show ?thesis using r by (simp add: requeue_def flow_ok_def)
  qed
qed

lemma packet_put_ok:
  assumes "flush_env_ok env" "written_ok env st0 ch st" "core st0 r0 st" "w \<longrightarrow> ch = ChDatagrams"
    "length (wa_packet a) \<le> MAX_PMTUD_UDP_PAYLOAD"
  shows "flow_ok env st0 r0 (packet_put env rid w ch a st)"
proof -
  let ?st = "st\<lparr>fl_batch := batch_put (wa_packet a) (wa_ecn a) (fl_batch st), stream_packets := stream_packets st + 1\<rparr>"
  have w: "filling (fl_batch st)" "n_packets (fl_batch st) < MAX_BATCH" "stream_packets st < max_stream_packets env"
    using assms(2) by (simp_all add: written_ok_def)
  note bf = batch_put_filling [OF w(1) assms(5), of "wa_ecn a"]
  have rest: "flow_ok env st0 r0 (packet_done env w ch st')"
    if "core st0 r0 st'" "filling (fl_batch st')" "n_packets (fl_batch st') < MAX_BATCH" "channels st' = channels st" "fuel st' = fuel st"
      "stream_packets st' = stream_packets st + 1" "fl_dgrams st' = fl_dgrams st" for st'
  proof (cases "stream_packets st' = max_stream_packets env")
    case True
    then show ?thesis using that by (simp add: packet_done_def flow_ok_def)
  next
    case False
    have "pieces st' = pieces st" using that(7) by (simp add: pieces_def)
    then have "budget env st' < fuel st'" "written_ok env st0 ch st'"
      using assms(2) that w(3) False by (auto simp: written_ok_def budget_def)
    then show ?thesis using requeue_ok [OF _ that(1)] assms(4) False by (simp add: packet_done_def)
  qed
  show ?thesis
  proof (cases "n_packets (fl_batch ?st) = MAX_BATCH")
    case True
    obtain go st' where s: "fl_send env rid ?st = Some (go, st')" "core st0 r0 st'" "batch_inv (fl_batch st')"
      "go \<longrightarrow> \<not> stalled (fl_batch st')" "channels st' = channels ?st" "fuel st' = fuel ?st"
      "stream_packets st' = stream_packets ?st" "fl_dgrams st' = fl_dgrams ?st"
      using fl_send_ok [OF assms(1), of st0 r0 ?st rid] assms(3) bf True by (auto simp: MAX_BATCH_def)
    show ?thesis
    proof (cases go)
      case g: True
      then have f: "filling (fl_batch st')" "n_packets (fl_batch st') = 0" using s(3,4) filling_empty by blast+
      then have "flow_ok env st0 r0 (packet_done env w ch st')" using rest [of st'] s by (simp add: MAX_BATCH_def)
      then show ?thesis using True s(1) g f(2) by (simp add: packet_put_def Let_def)
    next
      case False
      then show ?thesis using True s w(3) by (simp add: packet_put_def Let_def flow_ok_def)
    qed
  next
    case False
    then have "flow_ok env st0 r0 (packet_done env w ch ?st)" using rest [of ?st] assms(3) bf w(2) by simp
    then show ?thesis using False by (simp add: packet_put_def Let_def)
  qed
qed

lemma drop_batch_ok:
  assumes "filling (fl_batch st)" "core st0 r0 st" "stream_packets st \<le> max_stream_packets env"
  shows "flow_ok env st0 r0 (Return True (drop_batch st))"
proof -
  have "batch_inv (clear_packets (fl_batch st))" "\<not> stalled (clear_packets (fl_batch st))"
    using assms(1) by (auto simp: filling_def batch_inv_def clear_packets_def line_ok_def)
  then show ?thesis using assms by (simp add: flow_ok_def drop_batch_def)
qed

lemma write_failed_ok:
  assumes "write_codes_ok (fe_codes env)" "written_ok env st0 ch st" "core st0 r0 (took ch d a st)"
    "wa_nwrite a = NGTCP2_ERR_WRITE_MORE (fe_codes env) \<and> ch \<noteq> ChDatagrams \<longrightarrow> 0 \<le> wa_ndatalen a"
    "wa_nwrite a \<noteq> NGTCP2_ERR_WRITE_MORE (fe_codes env) \<longrightarrow> took ch d a st = st"
    "wa_nwrite a = NGTCP2_ERR_WRITE_MORE (fe_codes env) \<longrightarrow> \<not> ch_has_unsent ChDatagrams st \<or> ch \<noteq> ChDatagrams"
  shows "flow_ok env st0 r0 (write_failed env ch d a st)"
proof (cases "wa_nwrite a = NGTCP2_ERR_WRITE_MORE (fe_codes env)")
  case True
  let ?t = "(took ch d a st)\<lparr>partially_filled := True\<rparr>"
  have "round_ok env st0 r0 ?t" by (rule written_round [of env st0 ch]) (use assms(2,3) in simp_all)
  moreover have "write_failed env ch d a st = Continue ?t"
    using True assms(1,4,6) took_partially [of ch d a True st]
    by (cases ch) (auto simp: write_failed_def recoverable_def write_codes_ok_def Let_def took_def ch_has_unsent_def)
  ultimately show ?thesis by (simp add: flow_ok_def)
next
  case False
  then have c: "core st0 r0 st" using assms(3,5) by simp
  have w: "filling (fl_batch st)" "stream_packets st \<le> max_stream_packets env" using assms(2) by (simp_all add: written_ok_def)
  let ?t = "st\<lparr>fl_conn := ask (AskClose (io_error_int (wa_nwrite a)) None) ((fl_conn st)\<lparr>dead := True\<rparr>)\<rparr>"
  have "core st0 r0 ?t = core st0 r0 st" by (rule core_frame) (simp_all add: connection_inv_def ask_def route_inv_def asked_migration_def)
  then have "flow_ok env st0 r0 (Return True (drop_batch ?t))" using c w by (intro drop_batch_ok) simp_all
  moreover have "flow_ok env st0 r0 (Return True (drop_batch st))" by (rule drop_batch_ok [OF w(1) c w(2)])
  moreover have "flow_ok env st0 r0 (Continue st)" using written_round [OF assms(2) c] by (simp add: flow_ok_def)
  ultimately show ?thesis using False by (simp add: write_failed_def Let_def)
qed

lemma after_write_ok:
  assumes "flush_env_ok env" "written_ok env st0 ch st" "core st0 r0 (took ch d a st)" "w \<longrightarrow> ch = ChDatagrams"
    "0 < wa_nwrite a \<longrightarrow> length (wa_packet a) \<le> MAX_PMTUD_UDP_PAYLOAD"
    "wa_nwrite a = NGTCP2_ERR_WRITE_MORE (fe_codes env) \<and> ch \<noteq> ChDatagrams \<longrightarrow> 0 \<le> wa_ndatalen a"
    "wa_nwrite a \<le> 0 \<and> wa_nwrite a \<noteq> NGTCP2_ERR_WRITE_MORE (fe_codes env) \<longrightarrow> took ch d a st = st"
    "wa_nwrite a = NGTCP2_ERR_WRITE_MORE (fe_codes env) \<longrightarrow> \<not> ch_has_unsent ChDatagrams st \<or> ch \<noteq> ChDatagrams"
  shows "flow_ok env st0 r0 (after_write env rid w ch d a st)"
proof -
  have ng: "write_codes_ok (fe_codes env)" using assms(1) by (simp add: flush_env_ok_def)
  consider "wa_nwrite a = 0" | "wa_nwrite a < 0" | "0 < wa_nwrite a" by linarith
  then show ?thesis
  proof cases
    case 1
    then have c: "core st0 r0 st" using assms(3,7) ng by (simp add: write_codes_ok_def)
    show ?thesis
    proof (cases ch)
      case (ChStream i)
      have p: "pseudo_tail (channels st)" using assms(2) ChStream by (simp add: written_ok_def)
      then have "0 < length (channels st)" by (auto simp: pseudo_tail_def)
      then have "budget env (st\<lparr>channels := [ChPseudo]\<rparr>) \<le> budget env st" by (simp add: budget_def Suc_leI)
      then have "round_ok env st0 r0 (st\<lparr>channels := [ChPseudo]\<rparr>)"
        using assms(2) c by (simp add: written_ok_def round_ok_def valid_channels_def pseudo_tail_def)
      then show ?thesis using 1 ChStream pseudo_tail_drop [OF p] by (simp add: after_write_def flow_ok_def)
    qed (use 1 written_round [OF assms(2) c] in \<open>simp_all add: after_write_def flow_ok_def\<close>)
  next
    case 2
    then show ?thesis using write_failed_ok [OF ng assms(2,3,6) _ assms(8)] assms(7) by (simp add: after_write_def)
  next
    case 3
    have "core st0 r0 ((took ch d a st)\<lparr>partially_filled := False\<rparr>)" using assms(3) by simp
    moreover have "written_ok env st0 ch ((took ch d a st)\<lparr>partially_filled := False\<rparr>)" using assms(2) by simp
    ultimately have "flow_ok env st0 r0 (packet_put env rid w ch a ((took ch d a st)\<lparr>partially_filled := False\<rparr>))"
      using packet_put_ok [OF assms(1)] assms(4,5) 3 by blast
    then show ?thesis using 3 by (simp add: after_write_def packet_written_def Let_def flip: took_partially) (simp add: took_def)
  qed
qed

lemma ledger_took:
  assumes "ledger st0 st" "fl_stream i st = Some (ob, s)" "buffer_inv s" "pending m s = (bufs, mr)" "n \<le> length (concat bufs)"
    "fin \<longrightarrow> send_fin s \<and> \<not> mr \<and> n = length (concat bufs)"
  shows "ledger st0 (stream_took i (concat bufs) n (take_fin i fin st))"
proof -
  let ?t = "take_fin i fin st" and ?f = "if fin then s\<lparr>sent_fin := True\<rparr> else s"
  have t: "fl_stream j ?t = (if j = i then Some (ob, ?f) else fl_stream j st)" "taken ?t = taken st" for j
    using assms(2) by (simp_all add: take_fin_def fl_stream_update)
  let ?u = "?t\<lparr>taken := taken ?t @ [(i, take n (concat bufs))]\<rparr>"
  have v: "fl_stream j ?u = fl_stream j ?t" for j by (simp add: fl_stream_def)
  have u: "fl_stream j (stream_took i (concat bufs) n ?t) = (if j = i then Some (ob, wrote n ?f) else fl_stream j st)" for j
    using fl_stream_update [of i ?u ob ?f j "wrote n"] t(1) v unfolding stream_took_def by (cases "j = i") simp_all
  have g: "got j (stream_took i (concat bufs) n ?t) = got j st @ (if j = i then take n (concat bufs) else [])" for j
    using t(2) by (simp add: got_took) (simp add: got_def)
  show ?thesis unfolding ledger_def
  proof
    fix j
    have l: "rel_option (moved (got j st)) (fl_stream j st0) (fl_stream j st)" using assms(1) by (simp add: ledger_def)
    show "rel_option (moved (got j (stream_took i (concat bufs) n ?t))) (fl_stream j st0) (fl_stream j (stream_took i (concat bufs) n ?t))"
    proof (cases "j = i")
      case True
      then obtain x where "fl_stream i st0 = Some x" "moved (got i st) x (ob, s)"
        using l assms(2) by (auto simp: option_rel_Some2)
      then show ?thesis using moved_took [OF _ assms(3-6)] u g True by simp
    qed (use l u g in simp)
  qed
qed

lemma take_fin_fields [simp]:
  "fl_batch (take_fin i b st) = fl_batch st" "channels (take_fin i b st) = channels st" "fuel (take_fin i b st) = fuel st"
  "stream_packets (take_fin i b st) = stream_packets st" "fl_dgrams (take_fin i b st) = fl_dgrams st"
  "dgrams_taken (take_fin i b st) = dgrams_taken st" "taken (take_fin i b st) = taken st" "take_fin i False st = st"
  by (simp_all add: take_fin_def)

lemma core_took:
  assumes "core st0 r0 st" "fl_stream i st = Some (ob, s)" "pending m s = (bufs, mr)" "n \<le> length (concat bufs)"
    "fin \<longrightarrow> send_fin s \<and> \<not> mr \<and> n = length (concat bufs)"
  shows "core st0 r0 (stream_took i (concat bufs) n (take_fin i fin st))"
proof -
  have ci: "connection_inv (fl_conn st)" and l: "ledger st0 st" using assms(1) by (simp_all add: core_def)
  note so = fl_stream_ok [OF ci assms(2)]
  let ?t = "take_fin i fin st" and ?f = "if fin then s\<lparr>sent_fin := True\<rparr> else s"
  obtain rest where q: "queued s = concat bufs @ rest" using pending_spec [OF so(2) assms(3)] by blast
  have "n \<le> unsent_size s" using assms(4) length_queued [OF so(2)] q by simp
  moreover have f: "obj_ok ?f \<and> stream_id ?f = stream_id s \<and> ready ?f = ready s"
    using stream_op_obj_ok [OF so(1), of OpSentFin] so(1) by auto
  ultimately have w: "obj_ok (wrote n ?f) \<and> stream_id (wrote n ?f) = stream_id ?f \<and> ready (wrote n ?f) = ready ?f"
    using stream_op_obj_ok [of ?f "OpWrote n"] by auto
  have t: "fl_stream i ?t = Some (ob, ?f)" "connection_inv (fl_conn ?t)"
    using assms(2) fl_update_inv [OF ci assms(2), of "s\<lparr>sent_fin := True\<rparr>" "sent_fin_update (\<lambda>_. True)"] f ci
    by (cases fin; simp add: take_fin_def fl_stream_update)+
  let ?u = "?t\<lparr>taken := taken ?t @ [(i, take n (concat bufs))]\<rparr>"
  have "connection_inv (fl_conn (stream_took i (concat bufs) n ?t))"
    using fl_update_inv [of ?u i ob ?f "wrote n ?f" "wrote n"] t w by (simp add: stream_took_def fl_stream_def)
  then show ?thesis
    using ledger_took [OF l assms(2) so(2) assms(3-5)] assms(1) dgram_ledger_frame [of "stream_took i (concat bufs) n ?t" st]
    by (simp add: core_def)
qed

lemma written_frame:
  assumes "fl_batch st' = fl_batch st" "channels st' = channels st" "stream_packets st' = stream_packets st" "pieces st' = pieces st"
    "written_ok env st0 ch st" "budget env st \<le> fuel st'"
  shows "written_ok env st0 ch st'"
  using assms by (simp add: written_ok_def budget_def)

lemma ng_write_written:
  assumes "ng_write env x st = (a, st')" "written_ok env st0 ch st" "budget env st < fuel st"
  shows "written_ok env st0 ch st'"
  by (rule written_frame [OF _ _ _ _ assms(2)]) (use ng_write_core [OF assms(1)] assms(3) in simp_all)

lemma write_stream_ok:
  assumes "flush_env_ok env" "core st0 r0 st" "written_ok env st0 (ChStream i) st" "budget env st < fuel st"
  shows "flow_ok env st0 r0 (write_stream env rid i st)"
proof -
  have "fl_stream i st0 \<noteq> None" using assms(3) by (simp add: written_ok_def valid_channels_def)
  moreover have "rel_option (moved (got i st)) (fl_stream i st0) (fl_stream i st)" using assms(2) by (simp add: core_def ledger_def)
  ultimately obtain ob s where s: "fl_stream i st = Some (ob, s)" by (auto simp: option_rel_Some1)
  obtain bufs mr where p: "pending MAX_PMTUD_UDP_PAYLOAD s = (bufs, mr)" by fastforce
  let ?fin = "send_fin s \<and> \<not> mr"
  obtain a st1 where w: "ng_write env (WriteStream i (concat bufs) ?fin) st = (a, st1)" by fastforce
  note wc = ng_write_core [OF w]
  have ao: "answer_ok (fe_codes env) (WriteStream i (concat bufs) ?fin) a" by (rule wc(9) [OF assms(1)])
  have room: "buffer_room (fl_batch st)" using filling_room assms(3) by (simp add: written_ok_def)
  let ?all = "?fin \<and> wa_ndatalen a \<ge> 0 \<and> nat (wa_ndatalen a) = length (concat bufs)"
  let ?st = "take_fin i ?all st1"
  have eq: "write_stream env rid i st =
      (if \<not> ?fin \<and> bufs = [] then Continue st else after_write env rid False (ChStream i) (concat bufs) a ?st)"
    unfolding write_stream_def s p option.case prod.case Let_def w take_fin_def
    using room assms(4) by (simp only: not_less0 simp_thms if_True if_False split: if_split) auto
  have c1: "core st0 r0 st1" "fl_stream i st1 = Some (ob, s)" using wc(1,8) assms(2) s by simp_all
  have "core st0 r0 (took (ChStream i) (concat bufs) a ?st)"
  proof (cases "0 \<le> wa_ndatalen a")
    case True
    then have "nat (wa_ndatalen a) \<le> length (concat bufs)" using ao by (auto simp: answer_ok_def)
    then show ?thesis using core_took [OF c1 p, of "nat (wa_ndatalen a)" ?all] True by (simp add: took_def)
  qed (use c1 in \<open>simp add: took_def\<close>)
  moreover have "written_ok env st0 (ChStream i) ?st"
    by (rule written_frame [OF _ _ _ _ ng_write_written [OF w assms(3,4)]])
      (use ng_write_written [OF w assms(3,4)] in \<open>simp_all add: pieces_def written_ok_def\<close>)
  ultimately have "flow_ok env st0 r0 (after_write env rid False (ChStream i) (concat bufs) a ?st)"
    using after_write_ok [OF assms(1), of st0 "ChStream i" ?st r0 "concat bufs" a False rid] ao by (auto simp: answer_ok_def took_def)
  then show ?thesis using eq written_round [OF assms(3,2)] by (simp add: flow_ok_def)
qed

lemma write_pseudo_ok:
  assumes "flush_env_ok env" "core st0 r0 st" "written_ok env st0 ChPseudo st" "budget env st < fuel st"
  shows "flow_ok env st0 r0 (write_pseudo env rid st)"
proof -
  obtain a st1 where w: "ng_write env (WriteStream (- 1) [] False) st = (a, st1)" by fastforce
  note wc = ng_write_core [OF w]
  have ao: "answer_ok (fe_codes env) (WriteStream (- 1) [] False) a" by (rule wc(9) [OF assms(1)])
  have room: "buffer_room (fl_batch st)" using filling_room assms(3) by (simp add: written_ok_def)
  have "flow_ok env st0 r0 (after_write env rid False ChPseudo [] a st1)"
    by (rule after_write_ok [OF assms(1) ng_write_written [OF w assms(3,4)]])
      (use ao wc(1) assms(2) in \<open>auto simp: took_def answer_ok_def\<close>)
  then show ?thesis using w room assms(4) by (simp add: write_pseudo_def)
qed

lemma write_datagrams_ok:
  assumes "flush_env_ok env" "core st0 r0 st" "written_ok env st0 ChDatagrams st" "budget env st < fuel st"
  shows "flow_ok env st0 r0 (write_datagrams env rid st)"
proof -
  have room: "buffer_room (fl_batch st)" using filling_room assms(3) by (simp add: written_ok_def)
  have "fl_dgrams st \<noteq> None" using assms(2,3) by (simp add: written_ok_def valid_channels_def core_def)
  moreover have "pieces st < fuel st" using assms(4) by (simp add: budget_def)
  ultimately have "dgram_end env st0 r0 st (datagram_loop env True None st)"
    using datagram_loop_ok [OF assms(1,2) room, of None True] by (simp add: more_wanted_def)
  then obtain w a st1 where d: "datagram_loop env True None st = DgramDone w a st1" and e: "dgram_end env st0 r0 st (DgramDone w a st1)"
    by (cases "datagram_loop env True None st") (auto simp: dgram_end_def)
  let ?a = "case a of None \<Rightarrow> no_write | Some a \<Rightarrow> a"
  have ch: "channels st1 = channels st" using dgram_runs_fuel [OF datagram_loop_runs [OF d]] by simp
  have "budget env st1 \<le> fuel st1" using e ch assms(4) by (auto simp: dgram_end_def budget_def of_bool_def split: if_splits)
  then have w: "written_ok env st0 ChDatagrams st1" using assms(3) e ch by (simp add: written_ok_def dgram_end_def)
  have ao: "length (wa_packet ?a) \<le> MAX_PMTUD_UDP_PAYLOAD" if "0 < wa_nwrite ?a"
    using e that by (auto simp: dgram_end_def answer_ok_def no_write_def split: option.splits)
  have m: "more_wanted (fe_codes env) a" if "wa_nwrite ?a = NGTCP2_ERR_WRITE_MORE (fe_codes env)"
    using that by (auto simp: more_wanted_def split: option.splits)
  have "flow_ok env st0 r0 (after_write env rid w ChDatagrams [] ?a st1)"
    by (rule after_write_ok [OF assms(1) w]) (use e ao m in \<open>auto simp: dgram_end_def took_def\<close>)
  then show ?thesis using d by (simp add: write_datagrams_def)
qed

lemma flush_step_ok:
  assumes "flush_env_ok env" "round_ok env st0 r0 st"
  shows "flow_ok env st0 r0 (flush_step env rid st)"
proof (cases "channels st")
  case Nil
  then show ?thesis using assms(2) by (simp add: flush_step_def flow_ok_def round_ok_def)
next
  case (Cons ch rest)
  let ?st = "st\<lparr>channels := rest\<rparr>"
  have "if ch = ChPseudo then rest = [] else pseudo_tail rest"
    using assms(2) Cons by (auto simp: round_ok_def pseudo_tail_def append_eq_Cons_conv Cons_eq_append_conv)
  then have w: "written_ok env st0 ch ?st" using assms(2) Cons by (auto simp: round_ok_def written_ok_def budget_def)
  have c: "core st0 r0 ?st" "budget env ?st < fuel ?st" using assms(2) Cons by (auto simp: round_ok_def budget_def)
  show ?thesis
    using write_stream_ok [OF assms(1) c(1) _ c(2)] write_pseudo_ok [OF assms(1) c(1) _ c(2)] write_datagrams_ok [OF assms(1) c(1) _ c(2)] w
    by (cases ch) (simp_all add: flush_step_def Cons)
qed

text \<open>The loop ends, and in a good state.\<close>

lemma flush_loop_ok:
  "flush_env_ok env \<Longrightarrow> round_ok env st0 r0 st \<Longrightarrow>
   flow_ok env st0 r0 (flush_loop env rid st) \<and> (\<forall>st'. flush_loop env rid st \<noteq> Continue st')"
proof (induction env rid st rule: flush_loop.induct)
  case (1 env rid st)
  note s = flush_step_ok [OF 1(2,3), of rid]
  show ?case
  proof (cases "flush_step env rid st")
    case (Continue st')
    then have "round_ok env st0 r0 st'" using s by (simp add: flow_ok_def)
    then show ?thesis using 1(1) [OF Continue 1(2)] Continue by (simp add: flush_loop.simps [of env rid st])
  qed (use s in \<open>simp_all add: flush_loop.simps [of env rid st]\<close>)
qed

end
