(* ===== verification/Flush_Correct.thy ===== *)
theory Flush_Correct
  imports Flush_Round
begin

text \<open>
  Correctness of the flush of \<open>Flush\<close>: it ends, no assertion in it fails, and it neither loses nor repeats data of the
  streams and datagrams, for every behaviour of ngtcp2 and of the socket within their contracts.
\<close>

section \<open>The flush\<close>

text \<open>
  What a caller of a flush provides: a good environment, connection and batch, the datagram queue with an observer of the wire,
  and a quantum of at least a packet. The number of calls allowed is enough.
\<close>

definition flush_ready :: "flush_env \<Rightarrow> nat \<Rightarrow> connection \<Rightarrow> dgrams option \<Rightarrow> drun \<Rightarrow> send_batch \<Rightarrow> bool" where
  "flush_ready env n c d r b \<longleftrightarrow>
     flush_env_ok env \<and> connection_inv c \<and> batch_inv b \<and> pred_option (\<lambda>d. drun_inv r \<and> rq r = send_buffer d) d \<and>
     0 < max_stream_packets env \<and>
     max_stream_packets env + length (streams (chans c)) + 2 + (case d of None \<Rightarrow> 0 | Some d \<Rightarrow> total_pieces (buf (send_buffer d))) \<le> n"

lemma unfinished_set: "ChStream i \<in> set (unfinished xs) \<Longrightarrow> i \<in> fst ` set xs" "ChDatagrams \<notin> set (unfinished xs)" "ChPseudo \<notin> set (unfinished xs)"
  by (auto simp: unfinished_def)

lemma length_unfinished: "length (unfinished xs) \<le> length xs"
  by (simp add: unfinished_def)

lemma flush_channels_ok:
  "pseudo_tail (flush_channels mid c d)" "valid_channels (flush_start m n c d b) (flush_channels mid c d)"
  "length (flush_channels mid c d) \<le> length (streams (chans c)) + 2"
proof -
  let ?xs = "streams (chans c)" and ?dg = "case d of None \<Rightarrow> [] | Some d \<Rightarrow> if \<not> dgrams_is_empty_impl d then [ChDatagrams] else []"
  let ?ys = "if ?xs \<noteq> [] then unfinished (drop mid ?xs) @ ?dg @ unfinished (take mid ?xs) else ?dg"
  have e: "flush_channels mid c d = ?ys @ [ChPseudo]" by (simp add: flush_channels_def Let_def)
  have dg: "ChPseudo \<notin> set ?dg" "ChStream i \<notin> set ?dg" "ChDatagrams \<in> set ?dg \<Longrightarrow> d \<noteq> None" "length ?dg \<le> 1" for i
    by (auto split: option.splits if_splits)
  have "ChPseudo \<notin> set ?ys" using dg(1) unfinished_set(3) by auto
  then show "pseudo_tail (flush_channels mid c d)" unfolding e pseudo_tail_def by blast
  have "i \<in> fst ` set ?xs" if "ChStream i \<in> set ?ys" for i
  proof -
    have "i \<in> fst ` set (drop mid ?xs) \<or> i \<in> fst ` set (take mid ?xs)" using that dg(2) unfinished_set(1) by (auto split: if_splits)
    then show ?thesis by (auto dest: in_set_dropD in_set_takeD)
  qed
  moreover have "d \<noteq> None" if "ChDatagrams \<in> set ?ys" using that dg(3) unfinished_set(2) by (auto split: if_splits)
  ultimately show "valid_channels (flush_start m n c d b) (flush_channels mid c d)"
    unfolding e by (auto simp: valid_channels_def flush_start_def fl_stream_def map_of_eq_None_iff)
  have "length (unfinished (drop mid ?xs)) + length (unfinished (take mid ?xs)) \<le> length (drop mid ?xs) + length (take mid ?xs)"
    by (intro add_mono length_unfinished)
  also have "\<dots> \<le> length ?xs" by simp
  finally show "length (flush_channels mid c d) \<le> length ?xs + 2" unfolding e using dg(4) by simp
qed

lemma moved_refl: "moved [] x x"
  by (simp add: moved_def)

lemma flush_start_fields [simp]:
  "fl_conn (flush_start mid n c d b) = c" "fl_dgrams (flush_start mid n c d b) = d" "fl_batch (flush_start mid n c d b) = b"
  "channels (flush_start mid n c d b) = flush_channels mid c d" "stream_packets (flush_start mid n c d b) = 0"
  "fuel (flush_start mid n c d b) = n" "taken (flush_start mid n c d b) = []" "dgrams_taken (flush_start mid n c d b) = []"
  "fl_calls (flush_start mid n c d b) = []"
  by (simp_all add: flush_start_def)

lemma flush_start_core:
  assumes "flush_ready env n c d r b"
  shows "core (flush_start mid n c d b) r (flush_start mid n c d b)"
proof -
  let ?st = "flush_start mid n c d b"
  have "ledger ?st ?st" by (auto simp: ledger_def got_def moved_refl intro: option.rel_refl)
  moreover have "dgram_ledger r ?st"
    using assms by (auto simp: flush_ready_def dgram_ledger_def split: option.splits)
  ultimately show ?thesis using assms by (simp add: core_def flush_ready_def)
qed

lemma flush_start_round:
  assumes "flush_ready env n c d r b" "\<not> stalled b"
  shows "round_ok env (flush_start mid n c d b) r (flush_start mid n c d b)"
proof -
  let ?st = "flush_start mid n c d b"
  have "filling b" "n_packets b = 0" using assms filling_empty by (auto simp: flush_ready_def)
  moreover have "budget env ?st \<le> n"
    using assms(1) flush_channels_ok(3) [of mid c d] by (auto simp: budget_def flush_ready_def pieces_def split: option.splits)
  ultimately show ?thesis
    using flush_channels_ok(1) [of mid c d] flush_channels_ok(2) [of mid n c d b mid] flush_start_core [OF assms(1), of mid] assms(1)
    by (simp add: round_ok_def flush_ready_def MAX_BATCH_def)
qed

lemma leave_flush_core:
  "core st0 r0 (leave_flush b st) = core st0 r0 st" "fl_batch (leave_flush b st) = fl_batch st"
  "stream_packets (leave_flush b st) = stream_packets st"
  by (rule core_frame; simp add: leave_flush_def fl_call_def) (simp_all add: leave_flush_def fl_call_def)

text \<open>A flush returns, and in a good state.\<close>

definition flush_end :: "flush_env \<Rightarrow> flush \<Rightarrow> drun \<Rightarrow> flow \<Rightarrow> bool" where
  "flush_end env st0 r0 r \<longleftrightarrow>
     (\<exists>ok st. r = Return ok st \<and> core st0 r0 st \<and> batch_inv (fl_batch st) \<and> (\<not> dead (fl_conn st0) \<longrightarrow> ok = (\<not> stalled (fl_batch st))) \<and>
        stream_packets st \<le> max_stream_packets env)"

lemma wait_inv: "batch_inv b \<Longrightarrow> stalled b \<Longrightarrow> \<exists>b'. wait_for_send_stall rid b = Some b' \<and> batch_inv b' \<and> stalled b'"
  by (auto simp: wait_for_send_stall_def batch_inv_def line_ok_def)

lemma flush_packets_ok:
  assumes "flush_ready env n c d r b"
  shows "flush_end env (flush_start mid n c d b) r (flush_packets env rid mid n c d b)"
proof -
  let ?st = "flush_start mid n c d b"
  have env: "flush_env_ok env" and bi: "batch_inv b" and pos: "path_max_tx_udp_payload_size env \<noteq> 0"
    using assms by (auto simp: flush_ready_def flush_env_ok_def)
  note co = flush_start_core [OF assms, of mid]
  consider "dead c" | "\<not> dead c" "stalled b" | "\<not> dead c" "\<not> stalled b" by blast
  then show ?thesis
  proof cases
    case 1
    then show ?thesis using co bi by (auto simp: flush_packets_def flush_end_def)
  next
    case 2
    then obtain b' where "wait_for_send_stall rid b = Some b'" "batch_inv b'" "stalled b'" using wait_inv [OF bi] by blast
    then show ?thesis using co 2 by (auto simp: flush_packets_def flush_end_def)
  next
    case 3
    have n0: "n_packets b = 0" using bi 3(2) by (simp add: batch_inv_def)
    have loop: "flow_ok env ?st r (flush_loop env rid ?st)" "flush_loop env rid ?st \<noteq> Continue st'" for st'
      using flush_loop_ok [OF env flush_start_round [OF assms 3(2), of mid], of rid] by blast+
    show ?thesis
    proof (cases "flush_loop env rid ?st")
      case (Break st)
      then have s: "core ?st r st" "filling (fl_batch st)" "n_packets (fl_batch st) < MAX_BATCH" "stream_packets st \<le> max_stream_packets env"
        using loop(1) by (simp_all add: flow_ok_def)
      show ?thesis
      proof (cases "n_packets (fl_batch st) = 0")
        case True
        then have "batch_inv (fl_batch st)" using s(2) filling_empty by blast
        then show ?thesis using 3 n0 pos Break True s by (simp add: flush_packets_def flush_end_def leave_flush_core)
      next
        case False
        obtain go st' where "fl_send env rid st = Some (go, st')" "core ?st r st'" "batch_inv (fl_batch st')"
            "stream_packets st' = stream_packets st" 
          using fl_send_ok [OF env s(1,2) False less_imp_le [OF s(3)], of rid] by blast
        then show ?thesis using 3 n0 pos Break False s(4) by (simp add: flush_packets_def flush_end_def leave_flush_core)
      qed
    next
      case (Return ok st)
      then show ?thesis using loop(1) 3 n0 pos by (simp add: flush_packets_def flush_end_def leave_flush_core flow_ok_def)
    qed (use loop in \<open>auto simp: flow_ok_def\<close>)
  qed
qed

section \<open>Properties\<close>

text \<open>
  C8: a flush comes to an end and no assertion in it fails, whatever ngtcp2 answers within its contract and however the socket
  behaves: every packet is written inside the buffer of the batch, at most the packets of the send quantum are written, the
  batch is empty or stalled afterwards, and the caller is told which of the two.
\<close>

theorem flush_returns:
  assumes "flush_ready env n c d r b"
  shows "\<exists>ok st. flush_packets env rid mid n c d b = Return ok st \<and> connection_inv (fl_conn st) \<and>
    line_ok (fl_batch st) \<and> (n_packets (fl_batch st) = 0 \<or> stalled (fl_batch st)) \<and>
    (\<not> dead c \<longrightarrow> ok = (\<not> stalled (fl_batch st))) \<and> stream_packets st \<le> max_stream_packets env"
  using flush_packets_ok [OF assms, of mid rid] by (auto simp: flush_end_def core_def batch_inv_def split: if_splits)

text \<open>
  C7: a flush neither loses, repeats nor reorders the data of a stream: what ngtcp2 took is the front of what was queued, it is
  then in flight, and the FIN is marked as sent only once everything queued has been taken.
\<close>

theorem flush_conserves_stream_data:
  assumes "flush_ready env n c d r b" "map_of (streams (chans c)) i = Some (ob, s)"
  shows "\<exists>ok st s'. flush_packets env rid mid n c d b = Return ok st \<and> map_of (streams (chans (fl_conn st))) i = Some (ob, s') \<and>
    queued s = got i st @ queued s' \<and> inflight s' = inflight s @ got i st \<and>
    (sent_fin s' \<longrightarrow> sent_fin s \<or> send_fin s \<and> queued s' = [])"
proof -
  obtain ok st where f: "flush_packets env rid mid n c d b = Return ok st" "ledger (flush_start mid n c d b) st"
    using flush_packets_ok [OF assms(1), of mid rid] by (auto simp: flush_end_def core_def)
  then have "rel_option (moved (got i st)) (Some (ob, s)) (fl_stream i st)"
    using assms(2) by (auto simp: ledger_def fl_stream_def [of _ "flush_start mid n c d b"] dest: spec [of _ i])
  then obtain s' where s': "fl_stream i st = Some (ob, s')" "moved (got i st) (ob, s) (ob, s')"
    by (auto simp: option_rel_Some1 moved_def)
  have "flush_packets env rid mid n c d b = Return ok st \<and> map_of (streams (chans (fl_conn st))) i = Some (ob, s') \<and>
      queued s = got i st @ queued s' \<and> inflight s' = inflight s @ got i st \<and>
      (sent_fin s' \<longrightarrow> sent_fin s \<or> send_fin s \<and> queued s' = [])"
    using f(1) s' by (auto simp: fl_stream_def moved_def)
  then show ?thesis by blast
qed



section \<open>An example\<close>

text \<open>ngtcp2 takes all it is offered, a packet for each call, and has nothing to write of its own.\<close>

definition obliging :: "nat \<Rightarrow> write_call \<Rightarrow> write_answer" where
  "obliging k x =
     (case x of
        WriteStream i d fin \<Rightarrow>
          if i = - 1 then \<lparr>wa_nwrite = 0, wa_ndatalen = - 1, wa_accepted = False, wa_packet = [], wa_ecn = 0\<rparr>
          else \<lparr>wa_nwrite = 2, wa_ndatalen = int (length d), wa_accepted = False, wa_packet = [64, 1], wa_ecn = 0\<rparr>
      | _ \<Rightarrow> \<lparr>wa_nwrite = 2, wa_ndatalen = - 1, wa_accepted = True, wa_packet = [64, 2], wa_ecn = 0\<rparr>)"

definition failing :: "nat \<Rightarrow> write_call \<Rightarrow> write_answer" where
  "failing k x = \<lparr>wa_nwrite = - 502, wa_ndatalen = - 1, wa_accepted = False, wa_packet = [], wa_ecn = 0\<rparr>"

definition write_example :: write_codes where
  "write_example =
     \<lparr>NGTCP2_ERR_CONN_ID_BLOCKED = - 237, NGTCP2_ERR_DRAINING = - 224, NGTCP2_ERR_PROTO = - 205,
      NGTCP2_ERR_DROP_CONN = - 239, NGTCP2_ERR_CRYPTO = - 241, NGTCP2_ERR_IDLE_CLOSE = - 238,
      NGTCP2_ERR_CALLBACK_FAILURE = - 502, NGTCP2_ERR_WRITE_MORE = - 240, NGTCP2_ERR_CLOSING = - 223,
      NGTCP2_ERR_STREAM_DATA_BLOCKED = - 210, NGTCP2_ERR_STREAM_NOT_FOUND = - 222, NGTCP2_ERR_STREAM_SHUT_WR = - 221,
      NGTCP2_ERR_INVALID_STATE = - 203, NGTCP2_ERR_INVALID_ARGUMENT = - 201\<rparr>"

definition flush_example :: "(nat \<Rightarrow> write_call \<Rightarrow> write_answer) \<Rightarrow> flush_env" where
  "flush_example write =
     \<lparr>fe_os = linux_errors, fe_tr = Socket fussy_socket, fe_net = env_example, fe_codes = write_example, fe_route = (\<lambda>_. None),
      fe_mig = (\<lambda>_. 0), path_max_tx_udp_payload_size = 1200, send_quantum = 12000, fe_write = write\<rparr>"

definition sending_ops :: "conn_op list" where
  "sending_ops = [OpenStream False (Some 0) (1, stream_ctor True []), OnStream 1 (OpSend [1, 2, 3] False None)]"

definition sending_stream :: stream where
  "sending_stream = snd (the (map_of (streams (the (run_ops (conn_step (rfc_env False)) sending_ops (conn_ctor True True)))) 0))"

definition sending_conn :: connection where
  "sending_conn = conn_example\<lparr>chans := the (run_ops (conn_step (rfc_env False)) sending_ops (conn_ctor True True))\<rparr>"

definition queued_dgram :: drun where
  "queued_dgram = the (dq_step (QEmplace [7, 8] 4 None) (drun_init True))"

lemma obliging_ok: "answer_ok write_example x (obliging k x)"
  by (cases x) (auto simp: answer_ok_def obliging_def write_example_def MAX_PMTUD_UDP_PAYLOAD_def)

lemma flush_example_ok: "flush_env_ok (flush_example obliging)"
  by (auto simp: flush_env_ok_def flush_example_def linux_posix fussy_sent sock_ok_def obliging_ok)
    (simp add: write_codes_ok_def write_example_def)

lemma sending_run:
  "\<exists>s. run_ops (conn_step (rfc_env False)) sending_ops (conn_ctor True True) \<noteq> None \<and>
     streams (chans sending_conn) = [(0, 1, s)] \<and> inflight s = [] \<and> queued s = [1, 2, 3]"
  by (simp add: sending_conn_def sending_ops_def conn_eval)

lemma sending_conn_ok: "connection_inv sending_conn" "\<not> dead sending_conn"
proof -
  obtain ch where ch: "run_ops (conn_step (rfc_env False)) sending_ops (conn_ctor True True) = Some ch" using sending_run by auto
  have "ops_ok (conn_step (rfc_env False)) (conn_ok (rfc_env False)) sending_ops (conn_ctor True True)"
    by (simp add: sending_ops_def conn_eval)
  then have "conn_inv ch" using conn_sys.run_result [OF conn_ctor_inv _ ch] by blast
  then show "connection_inv sending_conn"
    by (simp add: sending_conn_def connection_inv_def ch route_inv_def conn_example_def connection_ctor_def asked_migration_def path_assign_def)
  show "\<not> dead sending_conn" by (simp add: sending_conn_def example_fields)
qed

lemma queued_dgram_ok: "drun_inv queued_dgram" "drun.accepted queued_dgram = [(4, [7, 8])]" "total_pieces (buf (rq queued_dgram)) = 2"
proof -
  have "\<exists>r'. dq_step (QEmplace [7, 8] 4 None) (drun_init True) = Some r' \<and> drun_inv r'"
    by (rule drun_step [OF drun_init_inv]) (simp add: drun_init_def queue_ctor_def)
  then show "drun_inv queued_dgram" by (auto simp: queued_dgram_def)
qed (simp_all add: queued_dgram_def queue_eval pieces_left_def)

definition dgrams_example :: dgrams where
  "dgrams_example = (dgrams_ctor False 0 \<lparr>ep_datagrams = True, ep_packet_splitting = True, ep_policy = ACTIVE, ep_rbufsize = 4096,
     ep_dgram_reorder_limit = 64, ep_dgram_queue_limit = 0\<rparr>)\<lparr>send_buffer := rq queued_dgram\<rparr>"

lemma flush_example_ready: "flush_ready (flush_example obliging) 20 sending_conn (Some dgrams_example) queued_dgram batch_ctor"
proof -
  have "max_stream_packets (flush_example obliging) = 10" by (simp add: max_stream_packets_def flush_example_def)
  then show ?thesis
    using flush_example_ok sending_conn_ok queued_dgram_ok batch_ctor_inv sending_run
    by (auto simp: flush_ready_def dgrams_example_def)
qed

theorem flush_returns_witness:
  "\<not> dead sending_conn \<and>
   (\<exists>ok st. flush_packets (flush_example obliging) 1 0 20 sending_conn (Some dgrams_example) batch_ctor = Return ok st \<and>
      (n_packets (fl_batch st) = 0 \<or> stalled (fl_batch st)) \<and> ok = (\<not> stalled (fl_batch st)) \<and> stream_packets st \<le> 10)"
proof -
  have "max_stream_packets (flush_example obliging) = 10" by (simp add: max_stream_packets_def flush_example_def)
  then show ?thesis using flush_returns [OF flush_example_ready, of 1 0] sending_conn_ok(2) by auto
qed

theorem flush_conserves_stream_data_witness:
  "\<exists>ok st s'. flush_packets (flush_example obliging) 1 0 20 sending_conn (Some dgrams_example) batch_ctor = Return ok st \<and>
     map_of (streams (chans (fl_conn st))) 0 = Some (1, s') \<and> got 0 st @ queued s' = [1, 2, 3] \<and> inflight s' = got 0 st"
proof -
  obtain s where s: "streams (chans sending_conn) = [(0, 1, s)]" "inflight s = []" "queued s = [1, 2, 3]" using sending_run by blast
  then have m: "map_of (streams (chans sending_conn)) 0 = Some (1, s)" by simp
  show ?thesis using flush_conserves_stream_data [OF flush_example_ready m, of 1 0] s by auto
qed



end
