(* ===== verification/Spec2Isabelle.thy ===== *)
theory Spec2Isabelle
  imports Datagrams_Correct Address_Correct BTStream_Requests Loop_Correct Conn_Streams_Correct Unencrypted_Correct
    Endpoint_Correct Flush_Correct
begin

text \<open>
  A verification library for libquic (\<open>oxen::quic\<close>), a C++ QUIC library on top of ngtcp2 and libevent.

  \<^bold>\<open>Conventions.\<close> An operation is a function on the component's state record. A failed assertion or an
  undefined access is the result \<open>None\<close>, a thrown exception a value \<open>Inl\<close>. A call that leaves the
  component (a user callback, a call into ngtcp2) is an entry of the record's log \<open>out\<close>. A \<open>size_t\<close> is
  a natural number whose additions and subtractions wrap at \<open>2 ^ 64\<close> as written.
\<close>

end
